(* ===== verification/Prelude.thy ===== *)
theory Prelude
  imports Main "HOL-Library.Word"
begin

text \<open>
  Shared vocabulary of the development: the fixed-width integers of the C++ sources, the clock
  readings of one API call, byte-addressed memory with the two copy primitives the sources use
  (a \<open>memcpy\<close> into and out of a mapping), and the word and arithmetic facts the component
  theories lean on.  The collection \<open>unat_arith_simps\<close> gathers the rules that read 64-bit
  arithmetic as arithmetic on \<open>nat\<close> once its no-overflow side condition is known.
\<close>

unbundle bit_operations_syntax

named_theorems unat_arith_simps

section \<open>Machine types\<close>

type_synonym u8 = "8 word"
type_synonym u16 = "16 word"
type_synonym u32 = "32 word"
type_synonym u64 = "64 word"

text \<open>
  A mapping is identified by the kernel object behind it, so that two processes that map the same
  object share its contents; every address of the model is an offset from the start of a mapping.
\<close>

type_synonym oid = nat
type_synonym addr = u64

text \<open>
  \<open>now_ns()\<close> is an input: an API call receives a function from the position of a clock reading
  inside the call to the value that was read.
\<close>

type_synonym clock = "nat \<Rightarrow> u64"

section \<open>Reading unsigned arithmetic on the naturals\<close>

lemma unat_lt64: "unat (x :: u64) < 2 ^ 64"
  using unsigned_less[of x] by simp

lemma unat_lt32: "unat (x :: u32) < 2 ^ 32"
  using unsigned_less[of x] by simp

lemma unat_add64 [unat_arith_simps]:
  "unat (x :: u64) + unat y < 2 ^ 64 \<Longrightarrow> unat (x + y) = unat x + unat y"
  using unat_add_lem[of x y] by simp

lemma unat_mult64 [unat_arith_simps]:
  "unat (x :: u64) * unat y < 2 ^ 64 \<Longrightarrow> unat (x * y) = unat x * unat y"
  using unat_mult_lem[of x y] by simp

lemma unat_mult32:
  "unat (x :: u32) * unat y < 2 ^ 32 \<Longrightarrow> unat (x * y) = unat x * unat y"
  using unat_mult_lem[of x y] by simp

lemma unat_ucast_32_64 [simp]: "unat (ucast (x :: u32) :: u64) = unat x"
  using unat_lt32[of x] by (simp add: unsigned_ucast_eq take_bit_nat_eq_self)

lemma unat_ucast_64_32: "unat (x :: u64) < 2 ^ 32 \<Longrightarrow> unat (ucast x :: u32) = unat x"
  by (simp add: unsigned_ucast_eq take_bit_nat_eq_self)

lemma unat_of_nat64: "n < 2 ^ 64 \<Longrightarrow> unat (of_nat n :: u64) = n"
  by (simp add: unat_of_nat take_bit_nat_eq_self)

lemma unat_of_nat32: "n < 2 ^ 32 \<Longrightarrow> unat (of_nat n :: u32) = n"
  by (simp add: unat_of_nat take_bit_nat_eq_self)

lemma unat_sub64: "unat (y :: u64) \<le> unat x \<Longrightarrow> unat (x - y) = unat x - unat y"
  by (simp add: unat_sub word_le_nat_alt)

lemma word_less_unat: "(x :: 'a::len word) < y \<longleftrightarrow> unat x < unat y"
  by (simp add: word_less_nat_alt)

lemma word_le_unat: "(x :: 'a::len word) \<le> y \<longleftrightarrow> unat x \<le> unat y"
  by (simp add: word_le_nat_alt)

text \<open>An unsigned difference that has wrapped is larger than any window that matters.\<close>

lemma unat_sub_wrapped:
  assumes "unat (x :: u64) < unat y"
  shows "unat (x - y) = 2 ^ 64 - (unat y - unat x)"
  using assms unat_lt64[of y] by (simp add: unat_sub_if')

section \<open>Powers of two and masks\<close>

lemma pow2_test_nat:
  "0 < n \<Longrightarrow> n AND (n - 1) = (0 :: nat) \<Longrightarrow> \<exists>k. n = 2 ^ k"
proof (induction n rule: less_induct)
  case (less n)
  show ?case
  proof (cases "even n")
    case True
    then obtain j where j: "n = 2 * j" by blast
    with less.prems have "0 < j" by simp
    have "j AND (j - 1) = 0"
    proof -
      have "n - 1 = 2 * (j - 1) + 1" using j \<open>0 < j\<close> by simp
      then have "n AND (n - 1) = 2 * (j AND (j - 1))"
        using j by (subst and_rec) simp
      with less.prems show ?thesis by simp
    qed
    with less.IH[of j] j \<open>0 < j\<close> obtain k where "j = 2 ^ k" by auto
    with j have "n = 2 ^ Suc k" by simp
    then show ?thesis by blast
  next
    case False
    then obtain j where j: "n = 2 * j + 1" by (blast elim: oddE)
    then have "n AND (n - 1) = 2 * j" by (subst and_rec) simp
    with less.prems j have "n = 2 ^ 0" by simp
    then show ?thesis by blast
  qed
qed

lemma unat_and: "unat ((x :: 'a::len word) AND y) = unat x AND unat y"
  by (rule unsigned_and_eq)

lemma pow2_test_word:
  assumes "(x :: u32) \<noteq> 0" and "x AND (x - 1) = 0"
  shows "\<exists>k<32. unat x = 2 ^ k"
proof -
  have pos: "0 < unat x" using assms(1) by (simp add: unat_gt_0)
  have "unat x AND (unat x - 1) = unat (x AND (x - 1))"
    using assms(1) by (simp add: unat_and unat_minus_one)
  with assms(2) pos obtain k where k: "unat x = 2 ^ k"
    using pow2_test_nat[of "unat x"] by auto
  with unat_lt32[of x] have "(2 :: nat) ^ k < 2 ^ 32" by simp
  then have "k < 32" by (rule power_less_imp_less_exp[rotated]) simp
  with k show ?thesis by blast
qed

lemma unat_and_pow2_minus_1:
  assumes "unat (s :: u64) = 2 ^ k"
  shows "unat ((x :: u64) AND (s - 1)) = unat x mod 2 ^ k"
proof -
  have "s \<noteq> 0" using assms by auto
  then have "unat (s - 1) = mask k"
    using assms by (simp add: unat_minus_one mask_eq_exp_minus_1)
  then have "unat (x AND (s - 1)) = take_bit k (unat x)"
    by (simp add: unat_and take_bit_eq_mask)
  then show ?thesis by (simp add: take_bit_eq_mod)
qed

section \<open>Byte memory\<close>

type_synonym bytemem = "addr \<Rightarrow> u8"

text \<open>\<open>memcpy\<close> of a buffer into the mapping, and out of it.\<close>

fun write_bytes :: "bytemem \<Rightarrow> addr \<Rightarrow> u8 list \<Rightarrow> bytemem" where
  "write_bytes m a [] = m"
| "write_bytes m a (x # xs) = write_bytes (m(a := x)) (a + 1) xs"

definition read_bytes :: "bytemem \<Rightarrow> addr \<Rightarrow> nat \<Rightarrow> u8 list" where
  "read_bytes m a n = map (\<lambda>i. m (a + of_nat i)) [0..<n]"

lemma length_read_bytes [simp]: "length (read_bytes m a n) = n"
  by (simp add: read_bytes_def)

lemma nth_read_bytes [simp]: "i < n \<Longrightarrow> read_bytes m a n ! i = m (a + of_nat i)"
  by (simp add: read_bytes_def)

lemma read_bytes_0 [simp]: "read_bytes m a 0 = []"
  by (simp add: read_bytes_def)

lemma read_bytes_Suc: "read_bytes m a (Suc n) = read_bytes m a n @ [m (a + of_nat n)]"
  by (simp add: read_bytes_def)

lemma write_bytes_outside:
  "(\<And>i. i < length xs \<Longrightarrow> p \<noteq> a + of_nat i) \<Longrightarrow> write_bytes m a xs p = m p"
proof (induction xs arbitrary: m a)
  case Nil
  then show ?case by simp
next
  case (Cons x xs)
  have "p \<noteq> a" using Cons.prems[of 0] by simp
  have "write_bytes (m(a := x)) (a + 1) xs p = (m(a := x)) p"
  proof (rule Cons.IH)
    fix i assume "i < length xs"
    then show "p \<noteq> a + 1 + of_nat i"
      using Cons.prems[of "Suc i"] by (simp add: add.assoc)
  qed
  with \<open>p \<noteq> a\<close> show ?case by simp
qed

lemma write_bytes_inside:
  "length xs \<le> 2 ^ 64 \<Longrightarrow> i < length xs \<Longrightarrow> write_bytes m a xs (a + of_nat i) = xs ! i"
proof (induction xs arbitrary: m a i)
  case Nil
  then show ?case by simp
next
  case (Cons x xs)
  show ?case
  proof (cases i)
    case 0
    have "write_bytes (m(a := x)) (a + 1) xs a = (m(a := x)) a"
    proof (rule write_bytes_outside)
      fix j assume "j < length xs"
      with Cons.prems have "Suc j < 2 ^ 64" by simp
      then have "(of_nat (Suc j) :: u64) \<noteq> 0"
        by (metis Suc_neq_Zero unat_0 unat_of_nat64)
      then show "a \<noteq> a + 1 + of_nat j" by (simp add: add.assoc)
    qed
    with 0 show ?thesis by simp
  next
    case (Suc j)
    with Cons.prems have "write_bytes (m(a := x)) (a + 1) xs (a + 1 + of_nat j) = xs ! j"
      by (intro Cons.IH) simp_all
    with Suc show ?thesis by (simp add: add.assoc)
  qed
qed

lemma read_write_bytes:
  "length xs \<le> 2 ^ 64 \<Longrightarrow> read_bytes (write_bytes m a xs) a (length xs) = xs"
  by (rule nth_equalityI) (simp_all add: write_bytes_inside)

text \<open>
  Two address ranges that do not wrap and do not meet: a write to one leaves a read of the other
  alone.
\<close>

definition range_disj :: "nat \<Rightarrow> nat \<Rightarrow> nat \<Rightarrow> nat \<Rightarrow> bool" where
  "range_disj a n b m \<longleftrightarrow> a + n \<le> b \<or> b + m \<le> a"

lemma range_disj_sym: "range_disj a n b m \<longleftrightarrow> range_disj b m a n"
  by (auto simp: range_disj_def)

lemma unat_offset:
  "unat (a :: u64) + n \<le> 2 ^ 64 \<Longrightarrow> i < n \<Longrightarrow> unat (a + of_nat i) = unat a + i"
  by (subst unat_add64) (simp_all add: unat_of_nat64)

lemma read_write_bytes_disj:
  assumes "range_disj (unat a) (length xs) (unat b) n"
    and "unat a + length xs \<le> 2 ^ 64" and "unat b + n \<le> 2 ^ 64"
  shows "read_bytes (write_bytes m a xs) b n = read_bytes m b n"
proof (rule nth_equalityI)
  fix i assume "i < length (read_bytes (write_bytes m a xs) b n)"
  then have i: "i < n" by simp
  have "write_bytes m a xs (b + of_nat i) = m (b + of_nat i)"
  proof (rule write_bytes_outside)
    fix j assume j: "j < length xs"
    have "unat (b + of_nat i) \<noteq> unat (a + of_nat j)"
      using assms i j by (auto simp: unat_offset range_disj_def)
    then show "b + of_nat i \<noteq> a + of_nat j" by metis
  qed
  with i show "read_bytes (write_bytes m a xs) b n ! i = read_bytes m b n ! i" by simp
qed simp

section \<open>Rows of equal width\<close>

lemma row_end_le:
  "(i :: nat) < j \<Longrightarrow> x \<le> w \<Longrightarrow> i * w + x \<le> j * w"
  by (metis Suc_leI add.commute add_le_mono1 le_trans mult_Suc mult_le_mono1)

lemma length_concat_equal: "(\<And>l. l \<in> set ls \<Longrightarrow> length l = n) \<Longrightarrow> length (concat ls) = length ls * n"
  by (induction ls) auto

lemma nth_concat_equal:
  "(\<And>l. l \<in> set ls \<Longrightarrow> length l = n) \<Longrightarrow> k < length ls \<Longrightarrow> j < n \<Longrightarrow> concat ls ! (k * n + j) = ls ! k ! j"
proof (induction ls arbitrary: k)
  case (Cons l ls)
  then show ?case by (cases k) (auto simp: nth_append)
qed simp

section \<open>A pair packed into a word\<close>

lemma bit_small:
  assumes "unat (w :: 'a :: len word) < 2 ^ k" and "bit w n"
  shows "n < k"
proof -
  have "bit (unat w) n" using assms(2) by (simp add: bit_unsigned_iff)
  moreover have "take_bit k (unat w) = unat w" using assms(1) by (simp add: take_bit_nat_eq_self)
  ultimately show ?thesis by (metis bit_take_bit_iff)
qed

text \<open>\<open>(fid << 2) | j\<close> gives both parts back.\<close>

lemma unpack_id:
  assumes "unat fid < 2 ^ 62" and "unat (j :: u32) < 4"
  shows "drop_bit 2 (push_bit 2 fid OR ucast j :: u64) = fid"
proof (rule bit_eqI)
  fix n
  have "bit j n \<Longrightarrow> n < 2" for n using bit_small[of j 2 n] assms(2) by simp
  moreover have "bit fid n \<Longrightarrow> n < 62" using bit_small[OF assms(1)] .
  ultimately show "bit (drop_bit 2 (push_bit 2 fid OR ucast j :: u64)) n = bit fid n"
    by (fastforce simp: bit_simps)
qed

lemma unpack_slot:
  assumes "unat (j :: u32) < 4"
  shows "ucast ((push_bit 2 fid OR ucast j :: u64) AND 3) = j"
proof (rule bit_eqI)
  fix n
  have j: "bit j n \<Longrightarrow> n < 2" using bit_small[of j 2 n] assms(1) by simp
  have "bit (3 :: u64) n \<longleftrightarrow> n < 2"
    using bit_mask_iff[of 2 n, where 'a = u64] by (auto simp: mask_eq_decr_exp possible_bit_def bit_imp_le_length)
  with j show "bit (ucast ((push_bit 2 fid OR ucast j :: u64) AND 3) :: u32) n = bit j n"
    by (auto simp: bit_simps)
qed

lemma packed_nonzero:
  assumes "unat fid < 2 ^ 62" and "unat (j :: u32) < 4" and "fid \<noteq> 0"
  shows "(push_bit 2 fid OR ucast j :: u64) \<noteq> 0"
  using unpack_id[OF assms(1,2)] assms(3) by (metis drop_bit_of_0)

section \<open>Four bytes of a 32-bit word\<close>

text \<open>Little-endian, the lowest byte first.\<close>

definition to_le32 :: "u32 \<Rightarrow> u8 list" where
  "to_le32 v = [ucast v, ucast (drop_bit 8 v), ucast (drop_bit 16 v), ucast (drop_bit 24 v)]"

definition of_le32 :: "u8 \<Rightarrow> u8 \<Rightarrow> u8 \<Rightarrow> u8 \<Rightarrow> u32" where
  "of_le32 a b c d = ucast a OR push_bit 8 (ucast b) OR push_bit 16 (ucast c) OR push_bit 24 (ucast d)"

lemma length_to_le32 [simp]: "length (to_le32 v) = 4"
  by (simp add: to_le32_def)

lemma bit_of_le32:
  "bit (of_le32 a b c d) n \<longleftrightarrow>
    (if n < 8 then bit a n else if n < 16 then bit b (n - 8) else if n < 24 then bit c (n - 16) else bit d (n - 24))"
  using bit_imp_le_length[of a n] bit_imp_le_length[of b "n - 8"] bit_imp_le_length[of c "n - 16"]
    bit_imp_le_length[of d "n - 24"]
  by (auto simp: of_le32_def bit_simps)

lemma of_to_le32 [simp]:
  "of_le32 (ucast v) (ucast (drop_bit 8 v)) (ucast (drop_bit 16 v)) (ucast (drop_bit 24 v)) = v"
proof (rule bit_eqI)
  fix n assume "possible_bit TYPE(u32) n"
  then have "n < 32" by (simp add: possible_bit_def)
  then show "bit (of_le32 (ucast v) (ucast (drop_bit 8 v)) (ucast (drop_bit 16 v)) (ucast (drop_bit 24 v))) n = bit v n"
    by (auto simp: bit_of_le32 bit_simps)
qed

lemma to_of_le32 [simp]: "to_le32 (of_le32 a b c d) = [a, b, c, d]"
  by (auto simp: to_le32_def bit_eq_iff bit_ucast_iff bit_drop_bit_eq bit_of_le32 possible_bit_def)

lemma low_byte [simp]: "(ucast (v AND 0xFF :: 'a :: len word) :: u8) = ucast v"
proof (rule bit_eqI)
  fix n assume "possible_bit TYPE(u8) n"
  then have n: "n < 8" by (simp add: possible_bit_def)
  have e: "(0xFF :: 'a word) = mask 8" by (simp add: mask_eq_exp_minus_1)
  show "bit (ucast (v AND 0xFF) :: u8) n = bit (ucast v :: u8) n"
    unfolding e using n bit_imp_le_length[of v n] by (auto simp: bit_simps bit_mask_iff possible_bit_def)
qed

end
