(* ===== verification/Layout.thy ===== *)
theory Layout
  imports Prelude
begin

text \<open>
  The configuration record of the public header and the on-wire layout of a segment
  (\<open>include/shmframe/llshmframe.h\<close>, \<open>src/llinternal.h\<close>): the constants, the sizes of the
  structures that live in a segment, \<open>config_valid\<close>, \<open>compute_layout\<close> with its arithmetic
  kept at 64 bits, and the address accessors.  The main facts: for a valid configuration none of
  that arithmetic wraps, and the objects the accessors address never overlap.
\<close>

section \<open>Configuration\<close>

record LLConfig =
  cfg_name :: string
  cfg_max_width :: u32
  cfg_max_height :: u32
  cfg_bytes_per_pixel :: u32
  cfg_slot_count :: u32
  cfg_command_slots :: u32
  cfg_max_command_bytes :: u32
  cfg_stale_producer_ms :: u32

text \<open>The member initialisers of the structure.\<close>

definition LLConfig_default :: LLConfig where
  "LLConfig_default =
     \<lparr>cfg_name = ''shmframe'', cfg_max_width = 1920, cfg_max_height = 1080,
      cfg_bytes_per_pixel = 4, cfg_slot_count = 3, cfg_command_slots = 64,
      cfg_max_command_bytes = 512, cfg_stale_producer_ms = 2000\<rparr>"

definition max_payload :: "LLConfig \<Rightarrow> u64" where
  "max_payload c = ucast (cfg_max_width c) * ucast (cfg_max_height c) * ucast (cfg_bytes_per_pixel c)"

definition kMagic :: u32 where "kMagic = 0x534D4634"
definition kVersion :: u32 where "kVersion = 5"
definition kLine :: u64 where "kLine = 64"
definition kMaxSlots :: u32 where "kMaxSlots = 4"
definition kMinSlots :: u32 where "kMinSlots = 3"
definition kMaxSegment :: u64 where "kMaxSegment = 2 * 1024 * 1024 * 1024"
definition kCommandOwnerStaleNs :: u64 where "kCommandOwnerStaleNs = 8000000000"
definition kMaxDimension :: u32 where "kMaxDimension = 32768"

lemmas k_defs = kMagic_def kVersion_def kLine_def kMaxSlots_def kMinSlots_def kMaxSegment_def
  kCommandOwnerStaleNs_def kMaxDimension_def

section \<open>Sizes of the structures in a segment\<close>

text \<open>
  \<open>sizeof\<close> of a structure follows from the size and alignment of its members in order: each
  member goes to the next multiple of its alignment, and the whole is padded to the largest one.
\<close>

definition align_nat :: "nat \<Rightarrow> nat \<Rightarrow> nat" where
  "align_nat v a = (v + a - 1) div a * a"

fun struct_end :: "nat \<Rightarrow> (nat \<times> nat) list \<Rightarrow> nat" where
  "struct_end off [] = off"
| "struct_end off ((sz, al) # ms) = struct_end (align_nat off al + sz) ms"

definition sizeof_struct :: "(nat \<times> nat) list \<Rightarrow> u64" where
  "sizeof_struct ms = of_nat (align_nat (struct_end 0 ms) (foldr (max \<circ> snd) ms 1))"

definition sizeof_LLSlotHeader :: u64 where
  "sizeof_LLSlotHeader = sizeof_struct [(8,8),(8,8),(8,8),(4,4),(4,4),(4,4),(4,4)]"

definition sizeof_LLRingHeader :: u64 where
  "sizeof_LLRingHeader = sizeof_struct [(8,64),(8,64)]"

definition sizeof_LLCmdHeader :: u64 where
  "sizeof_LLCmdHeader = sizeof_struct [(8,8),(8,8),(8,8),(4,4),(4,4)]"

definition sizeof_LLHeader :: u64 where
  "sizeof_LLHeader = sizeof_struct
     [(4,64),(4,4),(8,8),(8,8),(4,4),(4,4),(4,4),(4,4),(4,4),(4,4),
      (8,8),(8,8),(8,8),(8,8),(8,8),(8,8),(8,64),(4,64),(8,64),(8,64),(8,64)]"

lemma sizeof_values [simp]:
  "sizeof_LLSlotHeader = 40" "sizeof_LLRingHeader = 128"
  "sizeof_LLCmdHeader = 32" "sizeof_LLHeader = 448"
  by (simp_all add: sizeof_LLSlotHeader_def sizeof_LLRingHeader_def sizeof_LLCmdHeader_def
      sizeof_LLHeader_def sizeof_struct_def align_nat_def)

section \<open>Layout\<close>

definition align_up :: "u64 \<Rightarrow> u64 \<Rightarrow> u64" where
  "align_up v a = (v + a - 1) div a * a"

record LLLayout =
  L_header_size :: u64
  L_slots_offset :: u64
  L_slot_stride :: u64
  L_slot_payload_off :: u64
  L_downstream_offset :: u64
  L_upstream_offset :: u64
  L_ring_stride :: u64
  L_ring_payload_off :: u64
  L_cmd_stride :: u64
  L_total_size :: u64

definition config_valid :: "LLConfig \<Rightarrow> bool" where
  "config_valid c =
     (if cfg_name c = [] \<or> length (cfg_name c) > 200 then False
      else if cfg_max_width c = 0 \<or> cfg_max_height c = 0 then False
      else if cfg_max_width c > kMaxDimension \<or> cfg_max_height c > kMaxDimension then False
      else if cfg_bytes_per_pixel c = 0 \<or> cfg_bytes_per_pixel c > 16 then False
      else if cfg_slot_count c < kMinSlots \<or> cfg_slot_count c > kMaxSlots then False
      else if cfg_command_slots c = 0 then False
      else if cfg_command_slots c AND (cfg_command_slots c - 1) \<noteq> 0 then False
      else if cfg_max_command_bytes c = 0 \<or> cfg_max_command_bytes c > push_bit 20 1 then False
      else True)"

definition compute_layout :: "LLConfig \<Rightarrow> LLLayout" where
  "compute_layout c =
     (let header_size = align_up sizeof_LLHeader kLine;
          slot_payload_off = align_up sizeof_LLSlotHeader kLine;
          slot_stride = align_up (slot_payload_off + max_payload c) kLine;
          slots_offset = header_size;
          ring_payload_off = align_up sizeof_LLRingHeader kLine;
          cmd_stride = align_up (sizeof_LLCmdHeader + ucast (cfg_max_command_bytes c)) kLine;
          ring_stride = align_up (ring_payload_off + ucast (cfg_command_slots c) * cmd_stride) kLine;
          downstream_offset = slots_offset + ucast (cfg_slot_count c) * slot_stride;
          upstream_offset = downstream_offset + ring_stride;
          total_size = upstream_offset + ring_stride
      in \<lparr>L_header_size = header_size, L_slots_offset = slots_offset, L_slot_stride = slot_stride,
          L_slot_payload_off = slot_payload_off, L_downstream_offset = downstream_offset,
          L_upstream_offset = upstream_offset, L_ring_stride = ring_stride,
          L_ring_payload_off = ring_payload_off, L_cmd_stride = cmd_stride,
          L_total_size = total_size\<rparr>)"

text \<open>\<open>segment_bytes\<close> (\<open>src/llutil.cpp\<close>): the size a configuration asks for, 0 when invalid.\<close>

definition segment_bytes :: "LLConfig \<Rightarrow> u64" where
  "segment_bytes c = (if \<not> config_valid c then 0 else L_total_size (compute_layout c))"

section \<open>Accessors\<close>

definition slot_at :: "LLLayout \<Rightarrow> u32 \<Rightarrow> addr" where
  "slot_at L i = L_slots_offset L + ucast i * L_slot_stride L"

definition slot_payload :: "LLLayout \<Rightarrow> u32 \<Rightarrow> addr" where
  "slot_payload L i = L_slots_offset L + ucast i * L_slot_stride L + L_slot_payload_off L"

definition ring_at :: "u64 \<Rightarrow> addr" where
  "ring_at offset = offset"

definition cmd_at :: "u64 \<Rightarrow> LLLayout \<Rightarrow> u64 \<Rightarrow> addr" where
  "cmd_at ring_offset L index = ring_offset + L_ring_payload_off L + index * L_cmd_stride L"

definition cmd_payload :: "addr \<Rightarrow> addr" where
  "cmd_payload h = h + sizeof_LLCmdHeader"

section \<open>Nothing wraps for a valid configuration\<close>

lemma unat_align_up:
  assumes "a \<noteq> 0" and "unat v + unat a < 2 ^ 64"
  shows "unat (align_up v a) = align_nat (unat v) (unat a)"
proof -
  have pos: "0 < unat a" using assms(1) by (simp add: unat_gt_0)
  have "unat (v + a) = unat v + unat a" using assms(2) by (rule unat_add64)
  moreover from this pos have "v + a \<noteq> 0" by auto
  ultimately have num: "unat (v + a - 1) = unat v + unat a - 1"
    by (simp add: unat_minus_one)
  have "(unat v + unat a - 1) div unat a * unat a \<le> unat v + unat a - 1"
    by (rule div_times_less_eq_dividend)
  then have "unat ((v + a - 1) div a) * unat a < 2 ^ 64"
    using assms(2) unfolding unat_div num by linarith
  then show ?thesis
    by (simp add: align_up_def align_nat_def unat_mult64 unat_div num)
qed

lemma align_nat_bounds:
  assumes "0 < a"
  shows "v \<le> align_nat v a" and "align_nat v a < v + a" and "align_nat v a mod a = 0"
proof -
  have "v + a - 1 = (v + a - 1) div a * a + (v + a - 1) mod a" by simp
  moreover have "(v + a - 1) mod a < a" using assms by simp
  ultimately show "v \<le> align_nat v a" "align_nat v a < v + a"
    using assms unfolding align_nat_def by linarith+
  show "align_nat v a mod a = 0" by (simp add: align_nat_def)
qed

lemma align_nat_id: "0 < a \<Longrightarrow> v mod a = 0 \<Longrightarrow> align_nat v a = v"
proof -
  assume a: "0 < a" and "v mod a = 0"
  then obtain q where q: "v = q * a" by (metis mod_0_imp_dvd dvd_mult_div_cancel mult.commute)
  have "(q * a + a - 1) div a = q"
    using a by (intro div_nat_eqI) (auto simp: mult.commute)
  then show ?thesis by (simp add: align_nat_def q)
qed

lemmas align64_bounds = align_nat_bounds[where a = 64, simplified]

text \<open>What \<open>config_valid\<close> admits, on the naturals.\<close>

lemma config_validD:
  assumes "config_valid c"
  shows "cfg_name c \<noteq> []" "length (cfg_name c) \<le> 200"
    "0 < unat (cfg_max_width c)" "unat (cfg_max_width c) \<le> 32768"
    "0 < unat (cfg_max_height c)" "unat (cfg_max_height c) \<le> 32768"
    "0 < unat (cfg_bytes_per_pixel c)" "unat (cfg_bytes_per_pixel c) \<le> 16"
    "3 \<le> unat (cfg_slot_count c)" "unat (cfg_slot_count c) \<le> 4"
    "\<exists>k<32. unat (cfg_command_slots c) = 2 ^ k"
    "0 < unat (cfg_max_command_bytes c)" "unat (cfg_max_command_bytes c) \<le> 2 ^ 20"
  using assms pow2_test_word[of "cfg_command_slots c"]
  by (auto simp: config_valid_def k_defs word_less_unat not_less unat_gt_0 split: if_splits)

lemma config_valid_command_slots:
  assumes "config_valid c"
  shows "0 < unat (cfg_command_slots c)" and "unat (cfg_command_slots c) \<le> 2 ^ 31"
proof -
  obtain k where "k < 32" and k: "unat (cfg_command_slots c) = 2 ^ k"
    using config_validD(11)[OF assms] by blast
  show "0 < unat (cfg_command_slots c)" by (simp add: k)
  from \<open>k < 32\<close> have "k \<le> 31" by simp
  then have "(2 :: nat) ^ k \<le> 2 ^ 31" by (rule power_increasing) simp
  then show "unat (cfg_command_slots c) \<le> 2 ^ 31" by (simp only: k)
qed

lemma max_payload_nat:
  assumes "config_valid c"
  shows "unat (max_payload c) =
      unat (cfg_max_width c) * unat (cfg_max_height c) * unat (cfg_bytes_per_pixel c)"
    and "0 < unat (max_payload c)" and "unat (max_payload c) \<le> 2 ^ 34"
proof -
  note b = config_validD[OF assms]
  have wh: "unat (cfg_max_width c) * unat (cfg_max_height c) \<le> 32768 * 32768"
    using b by (intro mult_le_mono) auto
  have whb: "unat (cfg_max_width c) * unat (cfg_max_height c) * unat (cfg_bytes_per_pixel c)
      \<le> 32768 * 32768 * 16"
    using wh b by (intro mult_le_mono) auto
  have "unat (ucast (cfg_max_width c) * ucast (cfg_max_height c) :: u64) =
      unat (cfg_max_width c) * unat (cfg_max_height c)"
    using wh by (subst unat_mult64) auto
  with whb show eq: "unat (max_payload c) =
      unat (cfg_max_width c) * unat (cfg_max_height c) * unat (cfg_bytes_per_pixel c)"
    unfolding max_payload_def by (subst unat_mult64) auto
  show "0 < unat (max_payload c)" using b by (simp add: eq)
  show "unat (max_payload c) \<le> 2 ^ 34" using whb by (simp add: eq)
qed

text \<open>The field values of a layout, read on the naturals.\<close>

definition slot_stride_nat :: "LLConfig \<Rightarrow> nat" where
  "slot_stride_nat c = align_nat (64 + unat (max_payload c)) 64"

definition cmd_stride_nat :: "LLConfig \<Rightarrow> nat" where
  "cmd_stride_nat c = align_nat (32 + unat (cfg_max_command_bytes c)) 64"

definition ring_stride_nat :: "LLConfig \<Rightarrow> nat" where
  "ring_stride_nat c = 128 + unat (cfg_command_slots c) * cmd_stride_nat c"

lemma slot_stride_nat_bounds:
  "64 + unat (max_payload c) \<le> slot_stride_nat c"
  "config_valid c \<Longrightarrow> slot_stride_nat c < 2 ^ 35"
  using align64_bounds[of "64 + unat (max_payload c)"] max_payload_nat(3)[of c]
  by (simp_all add: slot_stride_nat_def)

lemma cmd_stride_nat_bounds:
  "32 + unat (cfg_max_command_bytes c) \<le> cmd_stride_nat c"
  "config_valid c \<Longrightarrow> cmd_stride_nat c < 2 ^ 21"
  "cmd_stride_nat c mod 64 = 0"
  using align64_bounds[of "32 + unat (cfg_max_command_bytes c)"] config_validD(13)[of c]
  by (simp_all add: cmd_stride_nat_def)

lemma ring_stride_nat_bounds:
  assumes "config_valid c"
  shows "unat (cfg_command_slots c) * cmd_stride_nat c \<le> 2 ^ 52"
    and "ring_stride_nat c < 2 ^ 53"
proof -
  have "unat (cfg_command_slots c) * cmd_stride_nat c \<le> 2 ^ 31 * 2 ^ 21"
    using config_valid_command_slots(2)[OF assms] cmd_stride_nat_bounds(2)[OF assms]
    by (intro mult_le_mono) simp_all
  then show "unat (cfg_command_slots c) * cmd_stride_nat c \<le> 2 ^ 52" by simp
  then show "ring_stride_nat c < 2 ^ 53" by (simp add: ring_stride_nat_def)
qed

lemma compute_layout_const [simp]:
  "L_header_size (compute_layout c) = 448" "L_slots_offset (compute_layout c) = 448"
  "L_slot_payload_off (compute_layout c) = 64" "L_ring_payload_off (compute_layout c) = 128"
  by (simp_all add: compute_layout_def Let_def align_up_def kLine_def)

lemma unat_slot_stride:
  "config_valid c \<Longrightarrow> unat (L_slot_stride (compute_layout c)) = slot_stride_nat c"
proof -
  assume v: "config_valid c"
  then have "unat (64 + max_payload c) = 64 + unat (max_payload c)"
    using max_payload_nat(3)[OF v] by (subst unat_add64) simp_all
  with max_payload_nat(3)[OF v] show ?thesis
    by (simp add: compute_layout_def Let_def align_up_def[of 40] kLine_def slot_stride_nat_def
        unat_align_up)
qed

lemma unat_cmd_stride:
  "config_valid c \<Longrightarrow> unat (L_cmd_stride (compute_layout c)) = cmd_stride_nat c"
proof -
  assume v: "config_valid c"
  then have "unat (32 + ucast (cfg_max_command_bytes c) :: u64) =
      32 + unat (cfg_max_command_bytes c)"
    using config_validD(13)[OF v] by (subst unat_add64) simp_all
  with config_validD(13)[OF v] show ?thesis
    by (simp add: compute_layout_def Let_def kLine_def cmd_stride_nat_def unat_align_up)
qed

lemma unat_ring_stride:
  assumes "config_valid c"
  shows "unat (L_ring_stride (compute_layout c)) = ring_stride_nat c"
proof -
  let ?cs = "L_cmd_stride (compute_layout c)"
  note b = ring_stride_nat_bounds[OF assms] unat_cmd_stride[OF assms]
  have "unat (ucast (cfg_command_slots c) * ?cs) = unat (cfg_command_slots c) * cmd_stride_nat c"
    using b by (subst unat_mult64) simp_all
  moreover from this b have "unat (128 + ucast (cfg_command_slots c) * ?cs) = ring_stride_nat c"
    by (subst unat_add64) (simp_all add: ring_stride_nat_def)
  moreover have "ring_stride_nat c mod 64 = 0"
    using cmd_stride_nat_bounds(3)[of c]
    by (simp add: ring_stride_nat_def mod_add_eq[symmetric] mod_mult_eq[symmetric] mod_0_imp_dvd dvd_imp_mod_0)
  moreover have "L_ring_stride (compute_layout c) =
      align_up (128 + ucast (cfg_command_slots c) * ?cs) kLine"
    by (simp add: compute_layout_def Let_def align_up_def[of 128] kLine_def)
  ultimately show ?thesis
    using b by (simp add: unat_align_up kLine_def align_nat_id)
qed

lemma unat_downstream_offset:
  assumes "config_valid c"
  shows "unat (L_downstream_offset (compute_layout c)) =
      448 + unat (cfg_slot_count c) * slot_stride_nat c"
    and "448 + unat (cfg_slot_count c) * slot_stride_nat c < 2 ^ 38"
proof -
  let ?ss = "L_slot_stride (compute_layout c)"
  have "unat (cfg_slot_count c) * slot_stride_nat c \<le> 4 * 2 ^ 35"
    using config_validD(10)[OF assms] slot_stride_nat_bounds(2)[OF assms]
    by (intro mult_le_mono) simp_all
  then show b: "448 + unat (cfg_slot_count c) * slot_stride_nat c < 2 ^ 38" by simp
  have m: "unat (ucast (cfg_slot_count c) * ?ss) = unat (cfg_slot_count c) * slot_stride_nat c"
    using b unat_slot_stride[OF assms] by (subst unat_mult64) simp_all
  have "L_downstream_offset (compute_layout c) = 448 + ucast (cfg_slot_count c) * ?ss"
    by (simp add: compute_layout_def Let_def align_up_def[of 448] kLine_def)
  with m b show "unat (L_downstream_offset (compute_layout c)) =
      448 + unat (cfg_slot_count c) * slot_stride_nat c"
    by (simp add: unat_add64)
qed

lemma unat_upstream_offset:
  assumes "config_valid c"
  shows "unat (L_upstream_offset (compute_layout c)) =
      448 + unat (cfg_slot_count c) * slot_stride_nat c + ring_stride_nat c"
proof -
  have "L_upstream_offset (compute_layout c) =
      L_downstream_offset (compute_layout c) + L_ring_stride (compute_layout c)"
    by (simp add: compute_layout_def Let_def)
  with unat_downstream_offset[OF assms] unat_ring_stride[OF assms]
    ring_stride_nat_bounds(2)[OF assms] show ?thesis by (simp add: unat_add64)
qed

lemma unat_total_size:
  assumes "config_valid c"
  shows "unat (L_total_size (compute_layout c)) =
      448 + unat (cfg_slot_count c) * slot_stride_nat c + ring_stride_nat c + ring_stride_nat c"
    and "448 + unat (cfg_slot_count c) * slot_stride_nat c + ring_stride_nat c + ring_stride_nat c
      < 2 ^ 55"
proof -
  have "L_total_size (compute_layout c) =
      L_upstream_offset (compute_layout c) + L_ring_stride (compute_layout c)"
    by (simp add: compute_layout_def Let_def)
  with unat_upstream_offset[OF assms] unat_ring_stride[OF assms] unat_downstream_offset(2)[OF assms]
    ring_stride_nat_bounds(2)[OF assms]
  show "unat (L_total_size (compute_layout c)) =
      448 + unat (cfg_slot_count c) * slot_stride_nat c + ring_stride_nat c + ring_stride_nat c"
    and "448 + unat (cfg_slot_count c) * slot_stride_nat c + ring_stride_nat c + ring_stride_nat c
      < 2 ^ 55"
    by (simp_all add: unat_add64)
qed

lemmas layout_nat = unat_slot_stride unat_cmd_stride unat_ring_stride unat_downstream_offset(1)
  unat_upstream_offset unat_total_size(1)

lemma unat_slot_at:
  assumes "config_valid c" and "i < unat (cfg_slot_count c)"
  shows "unat (slot_at (compute_layout c) (of_nat i)) = 448 + i * slot_stride_nat c"
    and "unat (slot_payload (compute_layout c) (of_nat i)) = 448 + i * slot_stride_nat c + 64"
proof -
  have "i * slot_stride_nat c \<le> unat (cfg_slot_count c) * slot_stride_nat c"
    using assms(2) by (intro mult_le_mono) simp_all
  with unat_downstream_offset(2)[OF assms(1)] have b: "i * slot_stride_nat c < 2 ^ 38" by linarith
  have "i < 2 ^ 32" using assms(2) unat_lt32[of "cfg_slot_count c"] by linarith
  then have "unat (ucast (of_nat i :: u32) * L_slot_stride (compute_layout c)) =
      i * slot_stride_nat c"
    using b by (subst unat_mult64) (simp_all add: unat_of_nat32 unat_slot_stride[OF assms(1)])
  then show a: "unat (slot_at (compute_layout c) (of_nat i)) = 448 + i * slot_stride_nat c"
    using b by (simp add: slot_at_def unat_add64)
  have "slot_payload (compute_layout c) (of_nat i) = slot_at (compute_layout c) (of_nat i) + 64"
    by (simp add: slot_payload_def slot_at_def)
  with a b show "unat (slot_payload (compute_layout c) (of_nat i)) = 448 + i * slot_stride_nat c + 64"
    by (simp add: unat_add64)
qed

lemma unat_cmd_at:
  assumes "config_valid c" and "unat k < unat (cfg_command_slots c)" and "unat off < 2 ^ 54"
  shows "unat (cmd_at off (compute_layout c) k) = unat off + 128 + unat k * cmd_stride_nat c"
    and "unat (cmd_payload (cmd_at off (compute_layout c) k)) =
      unat off + 128 + unat k * cmd_stride_nat c + 32"
proof -
  have "unat k * cmd_stride_nat c \<le> unat (cfg_command_slots c) * cmd_stride_nat c"
    using assms(2) by (intro mult_le_mono) simp_all
  with ring_stride_nat_bounds(1)[OF assms(1)] have b: "unat k * cmd_stride_nat c \<le> 2 ^ 52"
    by linarith
  then have "unat (k * L_cmd_stride (compute_layout c)) = unat k * cmd_stride_nat c"
    by (subst unat_mult64) (simp_all add: unat_cmd_stride[OF assms(1)])
  then show a: "unat (cmd_at off (compute_layout c) k) = unat off + 128 + unat k * cmd_stride_nat c"
    using b assms(3) by (simp add: cmd_at_def unat_add64)
  show "unat (cmd_payload (cmd_at off (compute_layout c) k)) =
      unat off + 128 + unat k * cmd_stride_nat c + 32"
    using a b assms(3) by (simp add: cmd_payload_def unat_add64)
qed

section \<open>The objects of a segment\<close>

text \<open>
  Every object the sources address in a segment: the header at the base, a header and a payload
  per frame slot, two ring headers, and a header and a payload per command slot of either ring.
\<close>

datatype ring_dir = Downstream | Upstream

datatype region = Header | SlotHeader nat | SlotPayload nat | RingHeader ring_dir
  | CmdHeader ring_dir nat | CmdPayload ring_dir nat

fun ring_offset :: "LLLayout \<Rightarrow> ring_dir \<Rightarrow> u64" where
  "ring_offset L Downstream = L_downstream_offset L"
| "ring_offset L Upstream = L_upstream_offset L"

fun region_addr :: "LLConfig \<Rightarrow> region \<Rightarrow> addr" where
  "region_addr c Header = 0"
| "region_addr c (SlotHeader i) = slot_at (compute_layout c) (of_nat i)"
| "region_addr c (SlotPayload i) = slot_payload (compute_layout c) (of_nat i)"
| "region_addr c (RingHeader d) = ring_at (ring_offset (compute_layout c) d)"
| "region_addr c (CmdHeader d k) = cmd_at (ring_offset (compute_layout c) d) (compute_layout c) (of_nat k)"
| "region_addr c (CmdPayload d k) =
     cmd_payload (cmd_at (ring_offset (compute_layout c) d) (compute_layout c) (of_nat k))"

fun region_len :: "LLConfig \<Rightarrow> region \<Rightarrow> nat" where
  "region_len c Header = unat sizeof_LLHeader"
| "region_len c (SlotHeader i) = unat sizeof_LLSlotHeader"
| "region_len c (SlotPayload i) = unat (max_payload c)"
| "region_len c (RingHeader d) = unat sizeof_LLRingHeader"
| "region_len c (CmdHeader d k) = unat sizeof_LLCmdHeader"
| "region_len c (CmdPayload d k) = unat (cfg_max_command_bytes c)"

fun region_exists :: "LLConfig \<Rightarrow> region \<Rightarrow> bool" where
  "region_exists c (SlotHeader i) \<longleftrightarrow> i < unat (cfg_slot_count c)"
| "region_exists c (SlotPayload i) \<longleftrightarrow> i < unat (cfg_slot_count c)"
| "region_exists c (CmdHeader d k) \<longleftrightarrow> k < unat (cfg_command_slots c)"
| "region_exists c (CmdPayload d k) \<longleftrightarrow> k < unat (cfg_command_slots c)"
| "region_exists c _ \<longleftrightarrow> True"

definition region_disj :: "LLConfig \<Rightarrow> region \<Rightarrow> region \<Rightarrow> bool" where
  "region_disj c r r' \<longleftrightarrow>
     range_disj (unat (region_addr c r)) (region_len c r) (unat (region_addr c r')) (region_len c r')"

text \<open>
  The proof places every object by a position on the naturals: its block (header, slots,
  downstream ring, upstream ring), the row in the block and the offset in the row.
\<close>

fun ring_base_nat :: "LLConfig \<Rightarrow> ring_dir \<Rightarrow> nat" where
  "ring_base_nat c Downstream = 448 + unat (cfg_slot_count c) * slot_stride_nat c"
| "ring_base_nat c Upstream = 448 + unat (cfg_slot_count c) * slot_stride_nat c + ring_stride_nat c"

fun region_pos :: "LLConfig \<Rightarrow> region \<Rightarrow> nat" where
  "region_pos c Header = 0"
| "region_pos c (SlotHeader i) = 448 + i * slot_stride_nat c"
| "region_pos c (SlotPayload i) = 448 + i * slot_stride_nat c + 64"
| "region_pos c (RingHeader d) = ring_base_nat c d"
| "region_pos c (CmdHeader d k) = ring_base_nat c d + 128 + k * cmd_stride_nat c"
| "region_pos c (CmdPayload d k) = ring_base_nat c d + 128 + k * cmd_stride_nat c + 32"

lemma unat_ring_offset:
  "config_valid c \<Longrightarrow> unat (ring_offset (compute_layout c) d) = ring_base_nat c d"
  by (cases d) (simp_all add: layout_nat)

lemma ring_base_nat_lt: "config_valid c \<Longrightarrow> ring_base_nat c d < 2 ^ 54"
  using unat_downstream_offset(2)[of c] ring_stride_nat_bounds(2)[of c] by (cases d) simp_all

lemma unat_region_addr:
  assumes "config_valid c" and "region_exists c r"
  shows "unat (region_addr c r) = region_pos c r"
proof -
  have idx: "unat (of_nat k :: u64) = k" if "k < unat (cfg_command_slots c)" for k
    using that unat_lt32[of "cfg_command_slots c"] by (intro unat_of_nat64) simp
  show ?thesis
    using assms ring_base_nat_lt[OF assms(1)]
    by (cases r) (simp_all add: unat_slot_at unat_cmd_at unat_ring_offset idx ring_at_def)
qed

text \<open>
  The rows of the blocks: a row holds one object, or a header followed by its payload.
\<close>

datatype row = HeaderRow | SlotRow nat | RingRow ring_dir | CmdRow ring_dir nat

fun row_of :: "region \<Rightarrow> row" where
  "row_of Header = HeaderRow"
| "row_of (SlotHeader i) = SlotRow i"
| "row_of (SlotPayload i) = SlotRow i"
| "row_of (RingHeader d) = RingRow d"
| "row_of (CmdHeader d k) = CmdRow d k"
| "row_of (CmdPayload d k) = CmdRow d k"

fun row_pos :: "LLConfig \<Rightarrow> row \<Rightarrow> nat" where
  "row_pos c HeaderRow = 0"
| "row_pos c (SlotRow i) = 448 + i * slot_stride_nat c"
| "row_pos c (RingRow d) = ring_base_nat c d"
| "row_pos c (CmdRow d k) = ring_base_nat c d + 128 + k * cmd_stride_nat c"

fun row_len :: "LLConfig \<Rightarrow> row \<Rightarrow> nat" where
  "row_len c HeaderRow = 448"
| "row_len c (SlotRow i) = slot_stride_nat c"
| "row_len c (RingRow d) = 128"
| "row_len c (CmdRow d k) = cmd_stride_nat c"

lemma region_in_row:
  "row_pos c (row_of r) \<le> region_pos c r"
  "region_pos c r + region_len c r \<le> row_pos c (row_of r) + row_len c (row_of r)"
  using slot_stride_nat_bounds(1)[of c] cmd_stride_nat_bounds(1)[of c]
  by (cases r; simp)+

lemma rows_apart:
  "(i :: nat) \<noteq> j \<Longrightarrow> range_disj (a + i * w) w (a + j * w) w"
  using row_end_le[of i j w w] row_end_le[of j i w w]
  by (auto simp: range_disj_def neq_iff)

lemma cmd_row_in_ring:
  "k < unat (cfg_command_slots c) \<Longrightarrow>
   ring_base_nat c d + 128 + k * cmd_stride_nat c + cmd_stride_nat c \<le>
     ring_base_nat c d + ring_stride_nat c"
  using row_end_le[of k "unat (cfg_command_slots c)" "cmd_stride_nat c" "cmd_stride_nat c"]
  by (simp add: ring_stride_nat_def)

lemma slot_row_before_rings:
  "i < unat (cfg_slot_count c) \<Longrightarrow>
   448 + i * slot_stride_nat c + slot_stride_nat c \<le> ring_base_nat c d"
  using row_end_le[of i "unat (cfg_slot_count c)" "slot_stride_nat c" "slot_stride_nat c"]
  by (cases d) simp_all

text \<open>A row belongs to the header block, the slot block or one of the two rings.\<close>

datatype block = HeaderBlock | SlotBlock | RingBlock ring_dir

fun block_of :: "row \<Rightarrow> block" where
  "block_of HeaderRow = HeaderBlock"
| "block_of (SlotRow i) = SlotBlock"
| "block_of (RingRow d) = RingBlock d"
| "block_of (CmdRow d k) = RingBlock d"

fun block_pos :: "LLConfig \<Rightarrow> block \<Rightarrow> nat" where
  "block_pos c HeaderBlock = 0"
| "block_pos c SlotBlock = 448"
| "block_pos c (RingBlock d) = ring_base_nat c d"

fun block_end :: "LLConfig \<Rightarrow> block \<Rightarrow> nat" where
  "block_end c HeaderBlock = 448"
| "block_end c SlotBlock = 448 + unat (cfg_slot_count c) * slot_stride_nat c"
| "block_end c (RingBlock d) = ring_base_nat c d + ring_stride_nat c"

lemma row_in_block:
  assumes "region_exists c r"
  shows "block_pos c (block_of (row_of r)) \<le> row_pos c (row_of r)"
    and "row_pos c (row_of r) + row_len c (row_of r) \<le> block_end c (block_of (row_of r))"
  using assms cmd_row_in_ring[of _ c] slot_row_before_rings[of _ c Downstream]
  by (cases r; simp add: ring_stride_nat_def)+

lemma ring_base_nat_order:
  "448 + unat (cfg_slot_count c) * slot_stride_nat c \<le> ring_base_nat c d"
  "d \<noteq> d' \<Longrightarrow> ring_base_nat c d + ring_stride_nat c \<le> ring_base_nat c d' \<or>
    ring_base_nat c d' + ring_stride_nat c \<le> ring_base_nat c d"
  "ring_base_nat c d + ring_stride_nat c \<le> ring_base_nat c Upstream + ring_stride_nat c"
  by (cases d; cases d'; simp)+

lemma blocks_apart:
  "b \<noteq> b' \<Longrightarrow> block_end c b \<le> block_pos c b' \<or> block_end c b' \<le> block_pos c b"
  using ring_base_nat_order(1)[of c] ring_base_nat_order(2)[of _ _ c]
  by (cases b; cases b') (auto intro: order_trans[OF le_add1])

lemma rows_disj:
  assumes "row_of r \<noteq> row_of r'" and "region_exists c r" and "region_exists c r'"
  shows "range_disj (row_pos c (row_of r)) (row_len c (row_of r))
           (row_pos c (row_of r')) (row_len c (row_of r'))"
proof (cases "block_of (row_of r) = block_of (row_of r')")
  case False
  with blocks_apart[of _ _ c] row_in_block[OF assms(2)] row_in_block[OF assms(3)]
  show ?thesis unfolding range_disj_def by (meson order_trans)
next
  case True
  with assms(1) rows_apart[of _ _ "448" "slot_stride_nat c"]
    rows_apart[of _ _ _ "cmd_stride_nat c"] show ?thesis
    by (cases "row_of r"; cases "row_of r'") (auto simp: range_disj_def)
qed

lemma region_disjI:
  assumes "config_valid c" and "region_exists c r" and "region_exists c r'" and "r \<noteq> r'"
  shows "region_disj c r r'"
proof (cases "row_of r = row_of r'")
  case True
  with assms(4) have "range_disj (region_pos c r) (region_len c r) (region_pos c r') (region_len c r')"
    by (cases r; cases r') (auto simp: range_disj_def)
  then show ?thesis by (simp add: region_disj_def unat_region_addr assms)
next
  case False
  from rows_disj[OF this assms(2,3)] region_in_row[of c r] region_in_row[of c r']
  have "range_disj (region_pos c r) (region_len c r) (region_pos c r') (region_len c r')"
    unfolding range_disj_def by linarith
  then show ?thesis by (simp add: region_disj_def unat_region_addr assms)
qed

lemma region_in_segment:
  assumes "config_valid c" and "region_exists c r"
  shows "unat (region_addr c r) + region_len c r \<le> unat (L_total_size (compute_layout c))"
proof -
  have "block_end c (block_of (row_of r)) \<le> unat (L_total_size (compute_layout c))"
    using unat_total_size(1)[OF assms(1)] ring_base_nat_order(3)[of c]
    by (cases "block_of (row_of r)") simp_all
  with row_in_block(2)[OF assms(2)] region_in_row(2)[of c r] show ?thesis
    by (simp add: unat_region_addr assms)
qed

lemma region_no_wrap:
  "config_valid c \<Longrightarrow> region_exists c r \<Longrightarrow> unat (region_addr c r) + region_len c r \<le> 2 ^ 64"
  using region_in_segment[of c r] unat_total_size[of c] by simp

lemma region_aligned:
  assumes "config_valid c" and "region_exists c r" and "\<forall>d k. r \<noteq> CmdPayload d k"
  shows "unat (region_addr c r) mod 64 = 0"
proof -
  have s: "slot_stride_nat c mod 64 = 0"
    by (simp add: slot_stride_nat_def align64_bounds)
  have r: "ring_base_nat c d mod 64 = 0" for d
    using s cmd_stride_nat_bounds(3)[of c]
    by (cases d) (auto simp: ring_stride_nat_def mod_eq_0_iff_dvd intro!: dvd_add dvd_mult)
  from s r assms(3) cmd_stride_nat_bounds(3)[of c] have "region_pos c r mod 64 = 0"
    by (cases r) (auto simp: mod_eq_0_iff_dvd intro!: dvd_add dvd_mult)
  then show ?thesis by (simp add: unat_region_addr assms)
qed

text \<open>A small configuration for concrete runs.\<close>

definition demo_config :: LLConfig where
  "demo_config = \<lparr>cfg_name = ''demo'', cfg_max_width = 2, cfg_max_height = 1,
     cfg_bytes_per_pixel = 2, cfg_slot_count = 3, cfg_command_slots = 2,
     cfg_max_command_bytes = 4, cfg_stale_producer_ms = 2000\<rparr>"

lemma demo_config_simps [simp]:
  "cfg_name demo_config = ''demo''" "cfg_max_width demo_config = 2" "cfg_max_height demo_config = 1"
  "cfg_bytes_per_pixel demo_config = 2" "cfg_slot_count demo_config = 3"
  "cfg_command_slots demo_config = 2" "cfg_max_command_bytes demo_config = 4"
  "cfg_stale_producer_ms demo_config = 2000" "max_payload demo_config = 4"
  by (simp_all add: demo_config_def max_payload_def)

lemma demo_config_valid: "config_valid demo_config"
  by (simp add: config_valid_def k_defs)

section \<open>Properties\<close>

text \<open>
  C4.  The layout of a valid configuration.  The objects the accessors address (the header, every
  slot header and payload, the ring headers, every command header and payload) lie inside the
  computed size, no two of them share a byte, every structure starts on a cache line, and
  the 64-bit arithmetic that placed them did not wrap.
\<close>

theorem layout_sound:
  assumes "config_valid c" and "region_exists c r"
  shows "unat (region_addr c r) + region_len c r \<le> unat (L_total_size (compute_layout c)) \<and>
    unat (L_total_size (compute_layout c)) < 2 ^ 55 \<and>
    (\<forall>r'. region_exists c r' \<and> r' \<noteq> r \<longrightarrow> region_disj c r r') \<and>
    ((\<forall>d k. r \<noteq> CmdPayload d k) \<longrightarrow> unat (region_addr c r) mod 64 = 0)"
  using region_in_segment[OF assms] unat_total_size[OF assms(1)] region_disjI[OF assms]
    region_aligned[OF assms] by (metis (no_types))

theorem layout_sound_witness:
  "region_disj demo_config (SlotPayload 2) (CmdPayload Upstream 1) \<and>
   unat (region_addr demo_config (SlotPayload 2)) + 4 \<le>
     unat (L_total_size (compute_layout demo_config))"
  using layout_sound[OF demo_config_valid, of "SlotPayload 2"]
  by simp

end
