(* ===== verification/Segment_Memory.thy ===== *)
theory Segment_Memory
  imports Layout
begin

text \<open>
  The contents of a mapped segment.  The structures of \<open>src/llinternal.h\<close> are records; the
  structure objects of one kind are kept in a store indexed by their address, and the payload
  bytes of frames and commands share one byte memory, so that two payloads that overlapped would
  overwrite each other here as they do in the segment.  \<open>validate_header\<close> and the
  initialisation done by \<open>LLPublisher::create\<close> follow, with the agreement between the two.
\<close>

section \<open>Structures in the segment\<close>

record LLSlotHeader =
  s_seq :: u64
  s_frame_id :: u64
  s_timestamp_ns :: u64
  s_width :: u32
  s_height :: u32
  s_stride :: u32
  s_payload_bytes :: u32

record LLRingHeader =
  r_head :: u64
  r_tail :: u64

record LLCmdHeader =
  c_id :: u64
  c_reply_to :: u64
  c_timestamp_ns :: u64
  c_type :: u32
  c_size :: u32

record LLHeader =
  h_magic :: u32
  h_version :: u32
  h_session_id :: u64
  h_total_size :: u64
  h_max_width :: u32
  h_max_height :: u32
  h_bytes_per_pixel :: u32
  h_slot_count :: u32
  h_command_slots :: u32
  h_max_command_bytes :: u32
  h_slots_offset :: u64
  h_slot_stride :: u64
  h_downstream_offset :: u64
  h_upstream_offset :: u64
  h_ring_stride :: u64
  h_cmd_stride :: u64
  h_latest :: u64
  h_shutdown :: u32
  h_last_heartbeat_ns :: u64
  h_command_owner_gen :: u64
  h_command_owner_heartbeat_ns :: u64

text \<open>Value-initialised structures (\<open>new (p) T()\<close>).\<close>

definition LLSlotHeader_zero :: LLSlotHeader where
  "LLSlotHeader_zero = \<lparr>s_seq = 0, s_frame_id = 0, s_timestamp_ns = 0, s_width = 0, s_height = 0,
     s_stride = 0, s_payload_bytes = 0\<rparr>"

definition LLRingHeader_zero :: LLRingHeader where
  "LLRingHeader_zero = \<lparr>r_head = 0, r_tail = 0\<rparr>"

definition LLCmdHeader_zero :: LLCmdHeader where
  "LLCmdHeader_zero = \<lparr>c_id = 0, c_reply_to = 0, c_timestamp_ns = 0, c_type = 0, c_size = 0\<rparr>"

definition LLHeader_zero :: LLHeader where
  "LLHeader_zero = \<lparr>h_magic = 0, h_version = 0, h_session_id = 0, h_total_size = 0,
     h_max_width = 0, h_max_height = 0, h_bytes_per_pixel = 0, h_slot_count = 0,
     h_command_slots = 0, h_max_command_bytes = 0, h_slots_offset = 0, h_slot_stride = 0,
     h_downstream_offset = 0, h_upstream_offset = 0, h_ring_stride = 0, h_cmd_stride = 0,
     h_latest = 0, h_shutdown = 0, h_last_heartbeat_ns = 0, h_command_owner_gen = 0,
     h_command_owner_heartbeat_ns = 0\<rparr>"

section \<open>Segment contents\<close>

record smem =
  m_hdr :: LLHeader
  m_slots :: "addr \<Rightarrow> LLSlotHeader"
  m_rings :: "addr \<Rightarrow> LLRingHeader"
  m_cmds :: "addr \<Rightarrow> LLCmdHeader"
  m_bytes :: bytemem

type_synonym heap = "oid \<Rightarrow> smem"

text \<open>A fresh object: the operating system zero-fills.\<close>

definition smem_zero :: smem where
  "smem_zero = \<lparr>m_hdr = LLHeader_zero, m_slots = (\<lambda>_. LLSlotHeader_zero),
     m_rings = (\<lambda>_. LLRingHeader_zero), m_cmds = (\<lambda>_. LLCmdHeader_zero), m_bytes = (\<lambda>_. 0)\<rparr>"

text \<open>The configuration a header echoes; the fields it does not carry keep their defaults.\<close>

definition header_config :: "string \<Rightarrow> LLHeader \<Rightarrow> LLConfig" where
  "header_config nm h = LLConfig_default\<lparr>cfg_name := nm, cfg_max_width := h_max_width h,
     cfg_max_height := h_max_height h, cfg_bytes_per_pixel := h_bytes_per_pixel h,
     cfg_slot_count := h_slot_count h, cfg_command_slots := h_command_slots h,
     cfg_max_command_bytes := h_max_command_bytes h\<rparr>"

definition validate_header :: "oid option \<Rightarrow> u64 \<Rightarrow> heap \<Rightarrow> LLLayout option" where
  "validate_header base sz hp =
     (case base of None \<Rightarrow> None
      | Some b \<Rightarrow>
        if sz < sizeof_LLHeader then None
        else let h = m_hdr (hp b) in
          if h_magic h \<noteq> kMagic then None
          else if h_version h \<noteq> kVersion then None
          else let c = header_config ''x'' h in
            if \<not> config_valid c then None
            else let cl = compute_layout c in
              if L_slots_offset cl \<noteq> h_slots_offset h \<or>
                 L_slot_stride cl \<noteq> h_slot_stride h \<or>
                 L_downstream_offset cl \<noteq> h_downstream_offset h \<or>
                 L_upstream_offset cl \<noteq> h_upstream_offset h \<or>
                 L_ring_stride cl \<noteq> h_ring_stride h \<or>
                 L_cmd_stride cl \<noteq> h_cmd_stride h \<or>
                 L_total_size cl \<noteq> h_total_size h then None
              else if sz < L_total_size cl then None
              else Some cl)"

section \<open>Initialisation of a fresh segment\<close>

fun init_slots :: "LLLayout \<Rightarrow> u32 \<Rightarrow> nat \<Rightarrow> (addr \<Rightarrow> LLSlotHeader) \<Rightarrow> (addr \<Rightarrow> LLSlotHeader)" where
  "init_slots L i 0 sl = sl"
| "init_slots L i (Suc n) sl = init_slots L (i + 1) n (sl(slot_at L i := LLSlotHeader_zero))"

definition init_segment :: "LLConfig \<Rightarrow> u64 \<Rightarrow> u64 \<Rightarrow> smem \<Rightarrow> smem" where
  "init_segment cfg session now sm =
     (let L = compute_layout cfg;
          h = LLHeader_zero\<lparr>h_version := kVersion, h_session_id := session,
                h_total_size := L_total_size L, h_max_width := cfg_max_width cfg,
                h_max_height := cfg_max_height cfg, h_bytes_per_pixel := cfg_bytes_per_pixel cfg,
                h_slot_count := cfg_slot_count cfg, h_command_slots := cfg_command_slots cfg,
                h_max_command_bytes := cfg_max_command_bytes cfg,
                h_slots_offset := L_slots_offset L, h_slot_stride := L_slot_stride L,
                h_downstream_offset := L_downstream_offset L,
                h_upstream_offset := L_upstream_offset L, h_ring_stride := L_ring_stride L,
                h_cmd_stride := L_cmd_stride L, h_last_heartbeat_ns := now,
                h_magic := kMagic\<rparr>
      in sm\<lparr>m_hdr := h,
           m_slots := init_slots L 0 (unat (cfg_slot_count cfg)) (m_slots sm),
           m_rings := (m_rings sm)(ring_at (L_downstream_offset L) := LLRingHeader_zero,
                                   ring_at (L_upstream_offset L) := LLRingHeader_zero)\<rparr>)"

section \<open>Validation and initialisation agree\<close>

lemma config_valid_header_config:
  "config_valid (header_config nm h) \<longleftrightarrow>
     config_valid (header_config ''x'' h) \<and> nm \<noteq> [] \<and> length nm \<le> 200"
  by (auto simp: config_valid_def header_config_def)

lemma compute_layout_geometry:
  assumes "cfg_max_width c = cfg_max_width c'" "cfg_max_height c = cfg_max_height c'"
    "cfg_bytes_per_pixel c = cfg_bytes_per_pixel c'" "cfg_slot_count c = cfg_slot_count c'"
    "cfg_command_slots c = cfg_command_slots c'"
    "cfg_max_command_bytes c = cfg_max_command_bytes c'"
  shows "compute_layout c = compute_layout c'"
  using assms by (simp add: compute_layout_def max_payload_def Let_def)

lemma compute_layout_header_config:
  "compute_layout (header_config nm h) = compute_layout (header_config ''x'' h)"
  by (rule compute_layout_geometry) (simp_all add: header_config_def)

lemma validate_header_Some:
  "validate_header base sz hp = Some L \<longleftrightarrow>
     (\<exists>b. base = Some b \<and> sizeof_LLHeader \<le> sz \<and> h_magic (m_hdr (hp b)) = kMagic \<and>
        h_version (m_hdr (hp b)) = kVersion \<and> config_valid (header_config ''x'' (m_hdr (hp b))) \<and>
        L = compute_layout (header_config ''x'' (m_hdr (hp b))) \<and>
        L_slots_offset L = h_slots_offset (m_hdr (hp b)) \<and>
        L_slot_stride L = h_slot_stride (m_hdr (hp b)) \<and>
        L_downstream_offset L = h_downstream_offset (m_hdr (hp b)) \<and>
        L_upstream_offset L = h_upstream_offset (m_hdr (hp b)) \<and>
        L_ring_stride L = h_ring_stride (m_hdr (hp b)) \<and>
        L_cmd_stride L = h_cmd_stride (m_hdr (hp b)) \<and>
        L_total_size L = h_total_size (m_hdr (hp b)) \<and> L_total_size L \<le> sz)"
  by (auto simp: validate_header_def Let_def not_less split: option.splits)

lemma header_config_init:
  "cfg_max_width (header_config nm (m_hdr (init_segment c s t sm))) = cfg_max_width c"
  "cfg_max_height (header_config nm (m_hdr (init_segment c s t sm))) = cfg_max_height c"
  "cfg_bytes_per_pixel (header_config nm (m_hdr (init_segment c s t sm))) = cfg_bytes_per_pixel c"
  "cfg_slot_count (header_config nm (m_hdr (init_segment c s t sm))) = cfg_slot_count c"
  "cfg_command_slots (header_config nm (m_hdr (init_segment c s t sm))) = cfg_command_slots c"
  "cfg_max_command_bytes (header_config nm (m_hdr (init_segment c s t sm))) = cfg_max_command_bytes c"
  "cfg_name (header_config nm (m_hdr (init_segment c s t sm))) = nm"
  by (simp_all add: header_config_def init_segment_def Let_def)

lemma config_valid_init:
  "config_valid c \<Longrightarrow> config_valid (header_config ''x'' (m_hdr (init_segment c s t sm)))"
  by (simp add: config_valid_def header_config_init split: if_splits)

lemma compute_layout_init:
  "compute_layout (header_config nm (m_hdr (init_segment c s t sm))) = compute_layout c"
  by (rule compute_layout_geometry) (simp_all add: header_config_init)

lemma header_fits: "config_valid c \<Longrightarrow> sizeof_LLHeader \<le> L_total_size (compute_layout c)"
  using unat_total_size(1)[of c] by (simp add: word_le_unat)

lemma validate_init_segment:
  assumes "config_valid c" and "L_total_size (compute_layout c) \<le> sz"
    and "hp b = init_segment c s t sm"
  shows "validate_header (Some b) sz hp = Some (compute_layout c)"
proof -
  from header_fits[OF assms(1)] assms(2) have "sizeof_LLHeader \<le> sz" by (rule order_trans)
  moreover have "h_magic (m_hdr (hp b)) = kMagic" "h_version (m_hdr (hp b)) = kVersion"
    by (simp_all add: assms(3) init_segment_def Let_def)
  moreover have "config_valid (header_config ''x'' (m_hdr (hp b)))"
    by (simp add: assms(1,3) config_valid_init)
  moreover have "compute_layout (header_config ''x'' (m_hdr (hp b))) = compute_layout c"
    by (simp add: assms(3) compute_layout_init)
  ultimately show ?thesis
    using assms(2) by (simp add: validate_header_Some) (simp add: assms(3) init_segment_def Let_def)
qed

lemma init_slots_other:
  "(\<And>j. j < n \<Longrightarrow> a \<noteq> slot_at L (i + of_nat j)) \<Longrightarrow> init_slots L i n sl a = sl a"
proof (induction n arbitrary: i sl)
  case 0
  then show ?case by simp
next
  case (Suc n)
  have "init_slots L (i + 1) n (sl(slot_at L i := LLSlotHeader_zero)) a =
      (sl(slot_at L i := LLSlotHeader_zero)) a"
  proof (rule Suc.IH)
    fix j assume "j < n"
    then show "a \<noteq> slot_at L (i + 1 + of_nat j)"
      using Suc.prems[of "Suc j"] by (simp add: add.assoc)
  qed
  then show ?case using Suc.prems[of 0] by simp
qed

lemma init_slots_zero:
  "j < n \<Longrightarrow> init_slots L i n sl (slot_at L (i + of_nat j)) = LLSlotHeader_zero"
proof (induction n arbitrary: i j sl)
  case 0
  then show ?case by simp
next
  case (Suc n)
  show ?case
  proof (cases "\<exists>k<n. slot_at L (i + of_nat j) = slot_at L (i + 1 + of_nat k)")
    case True
    then show ?thesis using Suc.IH[of _ "i + 1"] by auto
  next
    case False
    then have "init_slots L i (Suc n) sl (slot_at L (i + of_nat j)) =
        (sl(slot_at L i := LLSlotHeader_zero)) (slot_at L (i + of_nat j))"
      by (simp add: init_slots_other)
    moreover have "j = 0"
    proof (rule ccontr)
      assume "j \<noteq> 0"
      then obtain k where "j = Suc k" by (cases j) auto
      with Suc.prems False show False by (auto simp: add.assoc)
    qed
    ultimately show ?thesis by simp
  qed
qed

lemma init_segment_slot:
  assumes "i < unat (cfg_slot_count c)"
  shows "m_slots (init_segment c s t sm) (slot_at (compute_layout c) (of_nat i)) = LLSlotHeader_zero"
  using init_slots_zero[of i "unat (cfg_slot_count c)" "compute_layout c" 0] assms
  by (simp add: init_segment_def Let_def)

lemma init_segment_ring:
  "m_rings (init_segment c s t sm) (ring_offset (compute_layout c) d) = LLRingHeader_zero"
  by (cases d) (simp_all add: init_segment_def Let_def ring_at_def)

section \<open>Properties\<close>

text \<open>
  C6.  A header that validates, whoever wrote it: the layout handed out is that of a valid
  configuration, and every object it addresses lies inside the mapping.
\<close>

theorem validated_header_in_bounds:
  assumes "validate_header base sz hp = Some L"
  shows "\<exists>c. config_valid c \<and> L = compute_layout c \<and>
    (\<forall>r. region_exists c r \<longrightarrow> unat (region_addr c r) + region_len c r \<le> unat sz)"
proof -
  from assms obtain b where v: "config_valid (header_config ''x'' (m_hdr (hp b)))"
    and L: "L = compute_layout (header_config ''x'' (m_hdr (hp b)))" and sz: "L_total_size L \<le> sz"
    by (auto simp: validate_header_Some)
  let ?c = "header_config ''x'' (m_hdr (hp b))"
  have "unat (L_total_size L) \<le> unat sz" using sz by (simp add: word_le_unat)
  then have "unat (region_addr ?c r) + region_len ?c r \<le> unat sz" if "region_exists ?c r" for r
    using region_in_segment[OF v that] by (simp add: L)
  then show ?thesis using v L by (intro exI[of _ ?c]) blast
qed

theorem validated_header_in_bounds_witness:
  "\<exists>c. config_valid c \<and> compute_layout demo_config = compute_layout c \<and>
    (\<forall>r. region_exists c r \<longrightarrow> unat (region_addr c r) + region_len c r \<le>
       unat (L_total_size (compute_layout demo_config)))"
proof -
  have "validate_header (Some 2) (L_total_size (compute_layout demo_config))
      (\<lambda>_. init_segment demo_config 7 1000 smem_zero) = Some (compute_layout demo_config)"
    by (rule validate_init_segment[OF demo_config_valid order_refl refl])
  from validated_header_in_bounds[OF this] show ?thesis .
qed

text \<open>
  What \<open>create\<close> writes, \<open>validate_header\<close> accepts: in every mapping that is large enough a freshly
  initialised header validates to the layout it was initialised with, whatever the memory held before.
\<close>

theorem created_header_validates:
  assumes "config_valid c" and "L_total_size (compute_layout c) \<le> sz"
    and "hp b = init_segment c session now sm"
  shows "validate_header (Some b) sz hp = Some (compute_layout c)"
  using assms by (rule validate_init_segment)

theorem created_header_validates_witness:
  "validate_header (Some 2) (L_total_size (compute_layout demo_config))
     (\<lambda>_. init_segment demo_config 7 1000 smem_zero) = Some (compute_layout demo_config)"
  by (rule created_header_validates[OF demo_config_valid order_refl refl])

end
