(* ===== verification/Fifo.thy ===== *)
theory Fifo
  imports Prelude
begin

text \<open>
  The contract of one direction of the command channel: a bounded first-in first-out queue that
  refuses an item when it is full or when the item is too large, and that never drops or reorders
  an accepted item.  The specification is executable; the locale states what an implementation
  promises, and its lemmas lift the promises from single operations to arbitrary sequences.
\<close>

datatype 'a fifo_op = Enq 'a | Deq

datatype 'a fifo_res = Accepted | Refused | Got 'a | Nothing

text \<open>The specification: a list, its capacity and the items that fit.\<close>

fun spec_step :: "nat \<Rightarrow> ('a \<Rightarrow> bool) \<Rightarrow> 'a list \<Rightarrow> 'a fifo_op \<Rightarrow> 'a fifo_res \<times> 'a list" where
  "spec_step cap fits q (Enq x) =
     (if fits x \<and> length q < cap then (Accepted, q @ [x]) else (Refused, q))"
| "spec_step cap fits q Deq = (case q of [] \<Rightarrow> (Nothing, []) | x # xs \<Rightarrow> (Got x, xs))"

fun spec_run :: "nat \<Rightarrow> ('a \<Rightarrow> bool) \<Rightarrow> 'a list \<Rightarrow> 'a fifo_op list \<Rightarrow> 'a fifo_res list \<times> 'a list" where
  "spec_run cap fits q [] = ([], q)"
| "spec_run cap fits q (op # ops) =
     (let (r, q') = spec_step cap fits q op; (rs, q'') = spec_run cap fits q' ops in (r # rs, q''))"

text \<open>The same sequence on an implementation given by its two operations.\<close>

fun impl_step :: "('a \<Rightarrow> 's \<Rightarrow> bool \<times> 's) \<Rightarrow> ('s \<Rightarrow> 'a option \<times> 's) \<Rightarrow> 's \<Rightarrow> 'a fifo_op
    \<Rightarrow> 'a fifo_res \<times> 's" where
  "impl_step enq deq s (Enq x) =
     (case enq x s of (ok, s') \<Rightarrow> (if ok then Accepted else Refused, s'))"
| "impl_step enq deq s Deq =
     (case deq s of (None, s') \<Rightarrow> (Nothing, s') | (Some x, s') \<Rightarrow> (Got x, s'))"

fun impl_run :: "('a \<Rightarrow> 's \<Rightarrow> bool \<times> 's) \<Rightarrow> ('s \<Rightarrow> 'a option \<times> 's) \<Rightarrow> 's \<Rightarrow> 'a fifo_op list
    \<Rightarrow> 'a fifo_res list \<times> 's" where
  "impl_run enq deq s [] = ([], s)"
| "impl_run enq deq s (op # ops) =
     (let (r, s') = impl_step enq deq s op; (rs, s'') = impl_run enq deq s' ops in (r # rs, s''))"

definition accepted :: "'a fifo_op list \<Rightarrow> 'a fifo_res list \<Rightarrow> 'a list" where
  "accepted ops rs = [x. (Enq x, Accepted) \<leftarrow> zip ops rs]"

definition delivered :: "'a fifo_res list \<Rightarrow> 'a list" where
  "delivered rs = [x. Got x \<leftarrow> rs]"

lemma accepted_simps [simp]:
  "accepted [] [] = []"
  "accepted (Enq x # ops) (Accepted # rs) = x # accepted ops rs"
  "accepted (Enq x # ops) (Refused # rs) = accepted ops rs"
  "accepted (Deq # ops) (r # rs) = accepted ops rs"
  by (simp_all add: accepted_def)

lemma delivered_simps [simp]:
  "delivered [] = []" "delivered (Got x # rs) = x # delivered rs"
  "delivered (Accepted # rs) = delivered rs" "delivered (Refused # rs) = delivered rs"
  "delivered (Nothing # rs) = delivered rs"
  by (simp_all add: delivered_def)

text \<open>
  The conservation law of the specification: what was in the queue and what was accepted is,
  in order, what was delivered and what is still queued.
\<close>

lemma spec_conserves:
  "spec_run cap fits q ops = (rs, q') \<Longrightarrow> q @ accepted ops rs = delivered rs @ q'"
proof (induction ops arbitrary: q rs)
  case Nil
  then show ?case by simp
next
  case (Cons op ops)
  then show ?case
  proof (cases op)
    case (Enq x)
    with Cons show ?thesis
      by (auto simp: Let_def split: prod.splits if_splits) (metis append.assoc append_Cons append_Nil)+
  next
    case Deq
    with Cons show ?thesis by (cases q) (fastforce simp: Let_def split: prod.splits)+
  qed
qed

lemma spec_bounded:
  "spec_run cap fits q ops = (rs, q') \<Longrightarrow> length q \<le> cap \<Longrightarrow> length q' \<le> cap"
proof (induction ops arbitrary: q rs)
  case (Cons op ops)
  then obtain r q1 rs1 where s: "spec_step cap fits q op = (r, q1)"
    and r: "spec_run cap fits q1 ops = (rs1, q')"
    by (auto simp: Let_def split: prod.splits)
  have "length q1 \<le> cap"
    using s Cons.prems(2) by (cases op; cases q) (auto split: if_splits)
  with Cons.IH r show ?case by blast
qed simp

locale bounded_fifo =
  fixes inv :: "'s \<Rightarrow> bool" and abs :: "'s \<Rightarrow> 'a list" and cap :: nat
    and fits :: "'a \<Rightarrow> bool" and sendable :: "'a \<Rightarrow> bool"
    and enq :: "'a \<Rightarrow> 's \<Rightarrow> bool \<times> 's" and deq :: "'s \<Rightarrow> 'a option \<times> 's"
  assumes enq_accepts: "inv s \<Longrightarrow> sendable x \<Longrightarrow> fits x \<Longrightarrow> length (abs s) < cap \<Longrightarrow>
      \<exists>s'. enq x s = (True, s') \<and> inv s' \<and> abs s' = abs s @ [x]"
    and enq_refuses: "inv s \<Longrightarrow> sendable x \<Longrightarrow> \<not> (fits x \<and> length (abs s) < cap) \<Longrightarrow>
      enq x s = (False, s)"
    and deq_nothing: "inv s \<Longrightarrow> abs s = [] \<Longrightarrow> deq s = (None, s)"
    and deq_first: "inv s \<Longrightarrow> abs s = x # xs \<Longrightarrow>
      \<exists>s'. deq s = (Some x, s') \<and> inv s' \<and> abs s' = xs"
begin

lemma step_refines:
  assumes "inv s" and "\<And>x. op = Enq x \<Longrightarrow> sendable x"
    and "impl_step enq deq s op = (r, s')"
  shows "inv s' \<and> spec_step cap fits (abs s) op = (r, abs s')"
proof (cases op)
  case (Enq x)
  then show ?thesis
    using enq_accepts[OF assms(1), of x] enq_refuses[OF assms(1), of x] assms
    by (cases "fits x \<and> length (abs s) < cap") auto
next
  case Deq
  then show ?thesis
    using deq_nothing[OF assms(1)] deq_first[OF assms(1)] assms
    by (cases "abs s") (auto split: option.splits)
qed

lemma run_refines:
  assumes "inv s" and "\<And>x. Enq x \<in> set ops \<Longrightarrow> sendable x"
    and "impl_run enq deq s ops = (rs, s')"
  shows "inv s' \<and> spec_run cap fits (abs s) ops = (rs, abs s')"
  using assms
proof (induction ops arbitrary: s rs)
  case Nil
  then show ?case by simp
next
  case (Cons op ops)
  from Cons.prems(3) obtain r s1 rs1 where
    st: "impl_step enq deq s op = (r, s1)" and
    rn: "impl_run enq deq s1 ops = (rs1, s')" and rs: "rs = r # rs1"
    by (auto simp: Let_def split: prod.splits)
  have one: "inv s1 \<and> spec_step cap fits (abs s) op = (r, abs s1)"
    using Cons.prems(1,2) st by (intro step_refines) auto
  have "inv s' \<and> spec_run cap fits (abs s1) ops = (rs1, abs s')"
    using one Cons.prems(2) rn by (intro Cons.IH) auto
  with one rs show ?case by simp
qed

lemma fifo_lossless:
  assumes "inv s" and "\<And>x. Enq x \<in> set ops \<Longrightarrow> sendable x"
    and "impl_run enq deq s ops = (rs, s')"
  shows "abs s @ accepted ops rs = delivered rs @ abs s'"
  using run_refines[OF assms] spec_conserves by blast

end

end
