(* ===== verification/Ring.thy ===== *)
theory Ring
  imports Segment_Memory Fifo
begin

text \<open>
  The single-producer single-consumer ring of \<open>src/llinternal.h\<close> (\<open>LLRing\<close>): \<open>push\<close>,
  \<open>pop\<close> and \<open>pending\<close> on the segment's memory, with 64-bit free-running \<open>head\<close> and
  \<open>tail\<close> counters that are allowed to wrap.  The ring implements the bounded queue of
  theory \<open>Fifo\<close>: the interpretation at the end discharges its contract.
\<close>

section \<open>Operations\<close>

record LLShmCommand =
  cmd_id :: u64
  cmd_reply_to :: u64
  cmd_timestamp_ns :: u64
  cmd_type :: u32
  cmd_data :: "u8 list"

record LLRing =
  rg_base :: "oid option"
  rg_offset :: u64
  rg_L :: LLLayout
  rg_slots :: u32
  rg_max_bytes :: u32

definition LLLayout_zero :: LLLayout where
  "LLLayout_zero = \<lparr>L_header_size = 0, L_slots_offset = 0, L_slot_stride = 0,
     L_slot_payload_off = 0, L_downstream_offset = 0, L_upstream_offset = 0, L_ring_stride = 0,
     L_ring_payload_off = 0, L_cmd_stride = 0, L_total_size = 0\<rparr>"

text \<open>\<open>LLRing{}\<close>: not attached.\<close>

definition LLRing_null :: LLRing where
  "LLRing_null = \<lparr>rg_base = None, rg_offset = 0, rg_L = LLLayout_zero, rg_slots = 0, rg_max_bytes = 0\<rparr>"

definition ring_valid :: "LLRing \<Rightarrow> bool" where
  "ring_valid r \<longleftrightarrow> rg_base r \<noteq> None"

text \<open>
  \<open>data\<close> is a pointer that may be null; a buffer of the caller holds at least \<open>size\<close> bytes.
\<close>

definition push :: "LLRing \<Rightarrow> u32 \<Rightarrow> u8 list option \<Rightarrow> u32 \<Rightarrow> u64 \<Rightarrow> u64 \<Rightarrow> u64 \<Rightarrow> heap
    \<Rightarrow> bool \<times> heap" where
  "push r ty data sz cid reply_to ts hp =
     (case rg_base r of None \<Rightarrow> (False, hp)
      | Some b \<Rightarrow>
        if sz > rg_max_bytes r then (False, hp)
        else
          let sm = hp b;
              rh = ring_at (rg_offset r);
              head = r_head (m_rings sm rh);
              tail = r_tail (m_rings sm rh)
          in if head - tail \<ge> ucast (rg_slots r) then (False, hp)
             else
               let c = cmd_at (rg_offset r) (rg_L r) (head AND ucast (rg_slots r - 1));
                   sm1 = sm\<lparr>m_cmds := (m_cmds sm)(c := \<lparr>c_id = cid, c_reply_to = reply_to,
                            c_timestamp_ns = ts, c_type = ty, c_size = sz\<rparr>)\<rparr>;
                   sm2 = (case data of
                            Some d \<Rightarrow> if sz \<noteq> 0
                              then sm1\<lparr>m_bytes := write_bytes (m_bytes sm1) (cmd_payload c)
                                                     (take (unat sz) d)\<rparr>
                              else sm1
                          | None \<Rightarrow> sm1);
                   sm3 = sm2\<lparr>m_rings := (m_rings sm2)(rh := (m_rings sm2 rh)\<lparr>r_head := head + 1\<rparr>)\<rparr>
               in (True, hp(b := sm3)))"

definition pop :: "LLRing \<Rightarrow> heap \<Rightarrow> LLShmCommand option \<times> heap" where
  "pop r hp =
     (case rg_base r of None \<Rightarrow> (None, hp)
      | Some b \<Rightarrow>
        let sm = hp b;
            rh = ring_at (rg_offset r);
            tail = r_tail (m_rings sm rh);
            head = r_head (m_rings sm rh)
        in if tail = head then (None, hp)
           else
             let a = cmd_at (rg_offset r) (rg_L r) (tail AND ucast (rg_slots r - 1));
                 c = m_cmds sm a;
                 n = (if c_size c > rg_max_bytes r then rg_max_bytes r else c_size c);
                 out = \<lparr>cmd_id = c_id c, cmd_reply_to = c_reply_to c,
                        cmd_timestamp_ns = c_timestamp_ns c, cmd_type = c_type c,
                        cmd_data = read_bytes (m_bytes sm) (cmd_payload a) (unat n)\<rparr>;
                 sm1 = sm\<lparr>m_rings := (m_rings sm)(rh := (m_rings sm rh)\<lparr>r_tail := tail + 1\<rparr>)\<rparr>
             in (Some out, hp(b := sm1)))"

definition pending :: "LLRing \<Rightarrow> heap \<Rightarrow> u32" where
  "pending r hp =
     (case rg_base r of None \<Rightarrow> 0
      | Some b \<Rightarrow> let rr = m_rings (hp b) (ring_at (rg_offset r)) in ucast (r_head rr - r_tail rr))"

text \<open>
  The ring objects the endpoints build: \<open>LLRing{base, L.downstream_offset, &L,
  command_slots, max_command_bytes}\<close> and its upstream sibling.
\<close>

definition mk_ring :: "LLConfig \<Rightarrow> ring_dir \<Rightarrow> oid \<Rightarrow> LLRing" where
  "mk_ring c d b = \<lparr>rg_base = Some b, rg_offset = ring_offset (compute_layout c) d,
     rg_L = compute_layout c, rg_slots = cfg_command_slots c,
     rg_max_bytes = cfg_max_command_bytes c\<rparr>"

lemma mk_ring_simps [simp]:
  "rg_base (mk_ring c d b) = Some b" "rg_offset (mk_ring c d b) = ring_offset (compute_layout c) d"
  "rg_L (mk_ring c d b) = compute_layout c" "rg_slots (mk_ring c d b) = cfg_command_slots c"
  "rg_max_bytes (mk_ring c d b) = cfg_max_command_bytes c"
  by (simp_all add: mk_ring_def)

section \<open>Abstraction\<close>

text \<open>Which command slot a counter value stands for, and the command stored there.\<close>

definition cell_addr :: "LLConfig \<Rightarrow> ring_dir \<Rightarrow> u64 \<Rightarrow> addr" where
  "cell_addr c d k =
     cmd_at (ring_offset (compute_layout c) d) (compute_layout c) (k AND ucast (cfg_command_slots c - 1))"

definition cell :: "LLConfig \<Rightarrow> ring_dir \<Rightarrow> smem \<Rightarrow> u64 \<Rightarrow> LLShmCommand" where
  "cell c d sm k =
     (let a = cell_addr c d k; h = m_cmds sm a;
          n = (if c_size h > cfg_max_command_bytes c then cfg_max_command_bytes c else c_size h)
      in \<lparr>cmd_id = c_id h, cmd_reply_to = c_reply_to h, cmd_timestamp_ns = c_timestamp_ns h,
          cmd_type = c_type h, cmd_data = read_bytes (m_bytes sm) (cmd_payload a) (unat n)\<rparr>)"

definition ring_hd :: "LLConfig \<Rightarrow> ring_dir \<Rightarrow> smem \<Rightarrow> u64" where
  "ring_hd c d sm = r_head (m_rings sm (ring_offset (compute_layout c) d))"

definition ring_tl :: "LLConfig \<Rightarrow> ring_dir \<Rightarrow> smem \<Rightarrow> u64" where
  "ring_tl c d sm = r_tail (m_rings sm (ring_offset (compute_layout c) d))"

definition ring_used :: "LLConfig \<Rightarrow> ring_dir \<Rightarrow> smem \<Rightarrow> nat" where
  "ring_used c d sm = unat (ring_hd c d sm - ring_tl c d sm)"

text \<open>The queue a ring holds, oldest command first.\<close>

definition ring_queue :: "LLConfig \<Rightarrow> ring_dir \<Rightarrow> smem \<Rightarrow> LLShmCommand list" where
  "ring_queue c d sm = map (\<lambda>i. cell c d sm (ring_tl c d sm + of_nat i)) [0..<ring_used c d sm]"

definition ring_inv :: "LLConfig \<Rightarrow> ring_dir \<Rightarrow> smem \<Rightarrow> bool" where
  "ring_inv c d sm \<longleftrightarrow> config_valid c \<and> ring_used c d sm \<le> unat (cfg_command_slots c)"

lemma length_ring_queue [simp]: "length (ring_queue c d sm) = ring_used c d sm"
  by (simp add: ring_queue_def)

section \<open>Slot arithmetic\<close>

text \<open>
  The slot of a counter value is the counter modulo the ring size.  The size is a power of two,
  so this stays true when the counter wraps at \<open>2^64\<close>.
\<close>

lemma unat_slot_index:
  assumes "config_valid c"
  shows "unat (k AND ucast (cfg_command_slots c - 1) :: u64) = unat k mod unat (cfg_command_slots c)"
proof -
  obtain e where "e < 32" and e: "unat (cfg_command_slots c) = 2 ^ e"
    using config_validD(11)[OF assms] by blast
  have nz: "cfg_command_slots c \<noteq> 0" using e by auto
  have "ucast (cfg_command_slots c - 1) = (ucast (cfg_command_slots c) - 1 :: u64)"
  proof (rule word_unat_eq_iff[THEN iffD2])
    have "(ucast (cfg_command_slots c) :: u64) \<noteq> 0"
      using nz by (metis unat_0 unat_eq_zero unat_ucast_32_64)
    then show "unat (ucast (cfg_command_slots c - 1) :: u64) =
        unat (ucast (cfg_command_slots c) - 1 :: u64)"
      using nz by (simp add: unat_minus_one)
  qed
  then show ?thesis
    using unat_and_pow2_minus_1[of "ucast (cfg_command_slots c)" e k] e by simp
qed

lemma slots_dvd: "config_valid c \<Longrightarrow> unat (cfg_command_slots c) dvd 2 ^ 64"
proof -
  assume "config_valid c"
  then obtain e where "e < 32" and "unat (cfg_command_slots c) = 2 ^ e"
    using config_validD(11) by blast
  then show ?thesis using le_imp_power_dvd[of e 64 "2 :: nat"] by simp
qed

lemma counter_mod:
  "(n :: nat) dvd 2 ^ 64 \<Longrightarrow> unat (t + of_nat i :: u64) mod n = (unat t + i) mod n"
proof -
  assume n: "n dvd 2 ^ 64"
  have "unat (t + of_nat i :: u64) = (unat t + i) mod 2 ^ 64"
    by (simp add: unat_word_ariths unat_of_nat take_bit_eq_mod mod_add_right_eq)
  with n show ?thesis by (simp add: mod_mod_cancel)
qed

lemma mod_window_inj:
  assumes "(a + i) mod n = (a + j) mod (n :: nat)" and "i < n" and "j < n"
  shows "i = j"
proof (rule ccontr)
  assume "i \<noteq> j"
  then consider "i < j" | "j < i" by linarith
  then show False
  proof cases
    case 1
    with assms(1) have "n dvd j - i" using mod_eq_dvd_iff_nat[of "a + i" "a + j" n] by simp
    with 1 assms(3) show False by (auto dest: dvd_imp_le)
  next
    case 2
    with assms(1) have "n dvd i - j" using mod_eq_dvd_iff_nat[of "a + j" "a + i" n] by simp
    with 2 assms(2) show False by (auto dest: dvd_imp_le)
  qed
qed

definition cell_index :: "LLConfig \<Rightarrow> u64 \<Rightarrow> nat" where
  "cell_index c k = unat k mod unat (cfg_command_slots c)"

lemma cell_index_lt: "config_valid c \<Longrightarrow> cell_index c k < unat (cfg_command_slots c)"
  using config_valid_command_slots(1)[of c] by (simp add: cell_index_def)

lemma cell_addr_region:
  assumes "config_valid c"
  shows "cell_addr c d k = region_addr c (CmdHeader d (cell_index c k))"
    and "cmd_payload (cell_addr c d k) = region_addr c (CmdPayload d (cell_index c k))"
proof -
  have "(k AND ucast (cfg_command_slots c - 1)) = (of_nat (cell_index c k) :: u64)"
    unfolding cell_index_def unat_slot_index[OF assms, of k, symmetric] by simp
  then show "cell_addr c d k = region_addr c (CmdHeader d (cell_index c k))"
    and "cmd_payload (cell_addr c d k) = region_addr c (CmdPayload d (cell_index c k))"
    by (simp_all add: cell_addr_def)
qed

text \<open>Counter values less than a ring apart name different slots.\<close>

lemma cell_index_window:
  assumes "config_valid c" and "i < unat (cfg_command_slots c)" and "j < unat (cfg_command_slots c)"
  shows "cell_index c (t + of_nat i) = cell_index c (t + of_nat j) \<longleftrightarrow> i = j"
  using counter_mod[OF slots_dvd[OF assms(1)], of t] mod_window_inj[OF _ assms(2,3), of "unat t"]
  by (auto simp: cell_index_def)

lemma region_addr_neq:
  assumes "config_valid c" "region_exists c r" "region_exists c r'" "r \<noteq> r'"
    "0 < region_len c r" "0 < region_len c r'"
  shows "region_addr c r \<noteq> region_addr c r'"
  using region_disjI[OF assms(1-4)] assms(5,6) by (auto simp: region_disj_def range_disj_def)

section \<open>One operation at a time\<close>

text \<open>The command \<open>push\<close> stores: the payload is what the caller passed, cut to \<open>sz\<close> bytes.\<close>

definition mk_command :: "u32 \<Rightarrow> u8 list \<Rightarrow> u64 \<Rightarrow> u64 \<Rightarrow> u64 \<Rightarrow> LLShmCommand" where
  "mk_command ty data cid reply_to ts =
     \<lparr>cmd_id = cid, cmd_reply_to = reply_to, cmd_timestamp_ns = ts, cmd_type = ty, cmd_data = data\<rparr>"

text \<open>The memory after the slot of counter value \<open>k\<close> has been filled.\<close>

definition fill_cell :: "LLConfig \<Rightarrow> ring_dir \<Rightarrow> u64 \<Rightarrow> LLCmdHeader \<Rightarrow> u8 list \<Rightarrow> smem \<Rightarrow> smem" where
  "fill_cell c d k h bs sm =
     sm\<lparr>m_cmds := (m_cmds sm)(cell_addr c d k := h),
        m_bytes := write_bytes (m_bytes sm) (cmd_payload (cell_addr c d k)) bs\<rparr>"

lemma cell_fill_same:
  assumes "config_valid c" and "c_size h = of_nat (length bs)"
    and "length bs \<le> unat (cfg_max_command_bytes c)"
  shows "cell c d (fill_cell c d k h bs sm) k =
     mk_command (c_type h) bs (c_id h) (c_reply_to h) (c_timestamp_ns h)"
proof -
  have lt: "length bs < 2 ^ 32" using assms(3) unat_lt32[of "cfg_max_command_bytes c"] by linarith
  then have "\<not> cfg_max_command_bytes c < c_size h" "unat (c_size h) = length bs"
    using assms(2,3) by (simp_all add: word_less_unat unat_of_nat32)
  with lt show ?thesis
    by (simp add: cell_def Let_def fill_cell_def mk_command_def read_write_bytes)
qed

lemma read_fill_other:
  assumes "config_valid c" and "cell_index c k \<noteq> cell_index c k' \<or> d \<noteq> d'"
    and "length bs \<le> unat (cfg_max_command_bytes c)" and "n \<le> unat (cfg_max_command_bytes c)"
  shows "read_bytes (write_bytes m (cmd_payload (cell_addr c d k)) bs) (cmd_payload (cell_addr c d' k')) n =
     read_bytes m (cmd_payload (cell_addr c d' k')) n"
proof -
  let ?r = "CmdPayload d (cell_index c k)" and ?r' = "CmdPayload d' (cell_index c k')"
  have ex: "region_exists c ?r" "region_exists c ?r'"
    using assms(1) by (simp_all add: cell_index_lt)
  have "region_disj c ?r ?r'" using assms(1,2) ex by (intro region_disjI) auto
  with assms(3,4) region_no_wrap[OF assms(1) ex(1)] region_no_wrap[OF assms(1) ex(2)]
  show ?thesis
    unfolding cell_addr_region(2)[OF assms(1)]
    by (intro read_write_bytes_disj) (auto simp: region_disj_def range_disj_def)
qed

lemma cell_addr_neq:
  assumes "config_valid c" and "cell_index c k \<noteq> cell_index c k' \<or> d \<noteq> d'"
  shows "cell_addr c d k \<noteq> cell_addr c d' k'"
  unfolding cell_addr_region(1)[OF assms(1)]
  using assms by (intro region_addr_neq) (auto simp: cell_index_lt)

lemma cell_fill_other:
  assumes "config_valid c" and "cell_index c k \<noteq> cell_index c k' \<or> d \<noteq> d'"
    and "length bs \<le> unat (cfg_max_command_bytes c)"
  shows "cell c d' (fill_cell c d k h bs sm) k' = cell c d' sm k'"
  using cell_addr_neq[OF assms(1,2)] read_fill_other[OF assms]
  by (simp add: cell_def Let_def fill_cell_def word_less_unat)

text \<open>Moving a counter does not touch the cells.\<close>

definition set_ring :: "LLConfig \<Rightarrow> ring_dir \<Rightarrow> LLRingHeader \<Rightarrow> smem \<Rightarrow> smem" where
  "set_ring c d h sm = sm\<lparr>m_rings := (m_rings sm)(ring_offset (compute_layout c) d := h)\<rparr>"

lemma cell_set_ring [simp]: "cell c d (set_ring c' d' h sm) k = cell c d sm k"
  by (simp add: cell_def set_ring_def Let_def)

lemma ring_hd_tl_set_ring [simp]:
  "ring_hd c d (set_ring c d h sm) = r_head h" "ring_tl c d (set_ring c d h sm) = r_tail h"
  by (simp_all add: ring_hd_def ring_tl_def set_ring_def)

lemma ring_offset_neq:
  "config_valid c \<Longrightarrow> d \<noteq> d' \<Longrightarrow> ring_offset (compute_layout c) d \<noteq> ring_offset (compute_layout c) d'"
  using region_addr_neq[of c "RingHeader d" "RingHeader d'"] by (simp add: ring_at_def)

lemma ring_hd_tl_set_ring_other [simp]:
  assumes "config_valid c" and "d \<noteq> d'"
  shows "ring_hd c d (set_ring c d' h sm) = ring_hd c d sm"
    and "ring_tl c d (set_ring c d' h sm) = ring_tl c d sm"
  using ring_offset_neq[OF assms] by (simp_all add: ring_hd_def ring_tl_def set_ring_def)

lemma ring_hd_tl_fill [simp]:
  "ring_hd c d (fill_cell c' d' k h bs sm) = ring_hd c d sm"
  "ring_tl c d (fill_cell c' d' k h bs sm) = ring_tl c d sm"
  by (simp_all add: ring_hd_def ring_tl_def fill_cell_def)

lemma push_mk_ring:
  assumes "config_valid c"
  shows "push (mk_ring c d b) ty (Some data) sz cid reply_to ts hp =
     (if sz > cfg_max_command_bytes c \<or> ring_used c d (hp b) \<ge> unat (cfg_command_slots c)
      then (False, hp)
      else (True, hp(b := set_ring c d \<lparr>r_head = ring_hd c d (hp b) + 1, r_tail = ring_tl c d (hp b)\<rparr>
             (fill_cell c d (ring_hd c d (hp b))
               \<lparr>c_id = cid, c_reply_to = reply_to, c_timestamp_ns = ts, c_type = ty, c_size = sz\<rparr>
               (take (unat sz) data) (hp b)))))"
proof -
  have full: "ucast (cfg_command_slots c) \<le> ring_hd c d (hp b) - ring_tl c d (hp b) \<longleftrightarrow>
      unat (cfg_command_slots c) \<le> ring_used c d (hp b)"
    by (simp add: word_le_unat ring_used_def)
  have upd: "h\<lparr>r_head := x\<rparr> = \<lparr>r_head = x, r_tail = r_tail h\<rparr>" for h :: LLRingHeader and x
    by (cases h) simp
  show ?thesis
    using full
    by (cases "sz = 0") (simp_all add: push_def Let_def ring_at_def ring_hd_def ring_tl_def
        cell_addr_def set_ring_def fill_cell_def upd)
qed

lemma pop_mk_ring:
  shows "pop (mk_ring c d b) hp =
     (if ring_tl c d (hp b) = ring_hd c d (hp b) then (None, hp)
      else (Some (cell c d (hp b) (ring_tl c d (hp b))),
            hp(b := set_ring c d \<lparr>r_head = ring_hd c d (hp b), r_tail = ring_tl c d (hp b) + 1\<rparr> (hp b))))"
proof -
  have upd: "h\<lparr>r_tail := x\<rparr> = \<lparr>r_head = r_head h, r_tail = x\<rparr>" for h :: LLRingHeader and x
    by (cases h) simp
  show ?thesis
    by (simp add: pop_def Let_def ring_at_def ring_hd_def ring_tl_def cell_def cell_addr_def
        set_ring_def upd)
qed

section \<open>The ring is a bounded queue\<close>

text \<open>Publishing a filled cell appends to the queue; advancing the tail removes its head.\<close>

definition push_mem :: "LLConfig \<Rightarrow> ring_dir \<Rightarrow> LLCmdHeader \<Rightarrow> u8 list \<Rightarrow> smem \<Rightarrow> smem" where
  "push_mem c d h bs sm = set_ring c d \<lparr>r_head = ring_hd c d sm + 1, r_tail = ring_tl c d sm\<rparr>
     (fill_cell c d (ring_hd c d sm) h bs sm)"

definition pop_mem :: "LLConfig \<Rightarrow> ring_dir \<Rightarrow> smem \<Rightarrow> smem" where
  "pop_mem c d sm = set_ring c d \<lparr>r_head = ring_hd c d sm, r_tail = ring_tl c d sm + 1\<rparr> sm"

lemma head_of_used: "ring_tl c d sm + of_nat (ring_used c d sm) = ring_hd c d sm"
  by (simp add: ring_used_def)

lemma used_push_mem:
  assumes "config_valid c" and "ring_used c d sm < unat (cfg_command_slots c)"
  shows "ring_used c d (push_mem c d h bs sm) = Suc (ring_used c d sm)"
proof -
  have eq: "ring_hd c d sm + 1 - ring_tl c d sm = (ring_hd c d sm - ring_tl c d sm) + 1"
    by (simp add: algebra_simps)
  have "unat (ring_hd c d sm + 1 - ring_tl c d sm) = unat (ring_hd c d sm - ring_tl c d sm) + 1"
    unfolding eq using assms(2) config_valid_command_slots(2)[OF assms(1)]
    by (subst unat_add64) (simp_all add: ring_used_def)
  then show ?thesis by (simp add: ring_used_def push_mem_def)
qed

lemma queue_push_mem:
  assumes "config_valid c" and "ring_used c d sm < unat (cfg_command_slots c)"
    and "c_size h = of_nat (length bs)" and "length bs \<le> unat (cfg_max_command_bytes c)"
  shows "ring_queue c d (push_mem c d h bs sm) =
    ring_queue c d sm @ [mk_command (c_type h) bs (c_id h) (c_reply_to h) (c_timestamp_ns h)]"
proof -
  let ?u = "ring_used c d sm" and ?t = "ring_tl c d sm"
  have t: "ring_tl c d (push_mem c d h bs sm) = ?t" by (simp add: push_mem_def)
  have old: "cell c d (push_mem c d h bs sm) (?t + of_nat i) = cell c d sm (?t + of_nat i)"
    if "i < ?u" for i
  proof -
    have "cell_index c (?t + of_nat ?u) \<noteq> cell_index c (?t + of_nat i)"
      using cell_index_window[OF assms(1), of ?u i ?t] that assms(2) by simp
    then show ?thesis
      unfolding push_mem_def using assms(1,4) by (simp add: cell_fill_other head_of_used)
  qed
  have new: "cell c d (push_mem c d h bs sm) (?t + of_nat ?u) =
      mk_command (c_type h) bs (c_id h) (c_reply_to h) (c_timestamp_ns h)"
    unfolding push_mem_def using assms by (simp add: head_of_used cell_fill_same)
  show ?thesis
    unfolding ring_queue_def used_push_mem[OF assms(1,2)] t
    using old new by simp
qed

lemma queue_pop_mem:
  assumes "ring_used c d sm = Suc n"
  shows "ring_used c d (pop_mem c d sm) = n"
    and "ring_queue c d sm = cell c d sm (ring_tl c d sm) # ring_queue c d (pop_mem c d sm)"
proof -
  let ?t = "ring_tl c d sm"
  have eq: "ring_hd c d sm - (?t + 1) = (ring_hd c d sm - ?t) - 1" by (simp add: algebra_simps)
  have "ring_hd c d sm - ?t \<noteq> 0" using assms by (auto simp: ring_used_def)
  then have "unat (ring_hd c d sm - (?t + 1)) = n"
    unfolding eq using assms by (simp add: unat_minus_one ring_used_def)
  then show u: "ring_used c d (pop_mem c d sm) = n"
    by (simp add: ring_used_def pop_mem_def)
  have "[0..<Suc n] = 0 # map Suc [0..<n]" by (simp add: map_Suc_upt upt_conv_Cons del: upt_Suc)
  then show "ring_queue c d sm = cell c d sm ?t # ring_queue c d (pop_mem c d sm)"
    unfolding ring_queue_def u assms by (simp add: pop_mem_def comp_def add.assoc del: upt_Suc)
qed

text \<open>Traffic in one direction leaves the other direction alone.\<close>

lemma other_dir:
  assumes "config_valid c" and "d \<noteq> d'" and "length bs \<le> unat (cfg_max_command_bytes c)"
  shows "ring_queue c d' (push_mem c d h bs sm) = ring_queue c d' sm"
    and "ring_used c d' (push_mem c d h bs sm) = ring_used c d' sm"
    and "ring_queue c d' (pop_mem c d sm) = ring_queue c d' sm"
    and "ring_used c d' (pop_mem c d sm) = ring_used c d' sm"
  using assms
  by (simp_all add: ring_queue_def ring_used_def push_mem_def pop_mem_def cell_fill_other)

lemma push_mk_ring_mem:
  assumes "config_valid c"
  shows "push (mk_ring c d b) ty (Some data) sz cid reply_to ts hp =
     (if sz > cfg_max_command_bytes c \<or> ring_used c d (hp b) \<ge> unat (cfg_command_slots c)
      then (False, hp)
      else (True, hp(b := push_mem c d
               \<lparr>c_id = cid, c_reply_to = reply_to, c_timestamp_ns = ts, c_type = ty, c_size = sz\<rparr>
               (take (unat sz) data) (hp b))))"
  by (simp add: push_mk_ring[OF assms] push_mem_def)

lemma pop_mk_ring_mem:
  "pop (mk_ring c d b) hp =
     (if ring_used c d (hp b) = 0 then (None, hp)
      else (Some (cell c d (hp b) (ring_tl c d (hp b))), hp(b := pop_mem c d (hp b))))"
  by (auto simp: pop_mk_ring pop_mem_def ring_used_def unat_eq_zero)

text \<open>
  A command as the public API sends it: the size argument is the length of the payload.
\<close>

definition push_cmd :: "LLRing \<Rightarrow> LLShmCommand \<Rightarrow> heap \<Rightarrow> bool \<times> heap" where
  "push_cmd r x = push r (cmd_type x) (Some (cmd_data x)) (of_nat (length (cmd_data x)))
     (cmd_id x) (cmd_reply_to x) (cmd_timestamp_ns x)"

lemma mk_command_of [simp]:
  "mk_command (cmd_type x) (cmd_data x) (cmd_id x) (cmd_reply_to x) (cmd_timestamp_ns x) = x"
  by (simp add: mk_command_def)

interpretation spsc: bounded_fifo
  "\<lambda>hp. ring_inv c d (hp b)" "\<lambda>hp. ring_queue c d (hp b)" "unat (cfg_command_slots c)"
  "\<lambda>x. length (cmd_data x) \<le> unat (cfg_max_command_bytes c)"
  "\<lambda>x. length (cmd_data x) < 2 ^ 32"
  "push_cmd (mk_ring c d b)" "pop (mk_ring c d b)" for c d b
proof (unfold_locales, goal_cases)
  case (1 hp x)
  then have v: "config_valid c" by (simp add: ring_inv_def)
  from 1 v show ?case
    by (auto simp: push_cmd_def push_mk_ring_mem word_less_unat unat_of_nat32 ring_inv_def
        used_push_mem queue_push_mem)
next
  case (2 hp x)
  then have v: "config_valid c" by (simp add: ring_inv_def)
  from 2 v show ?case
    by (auto simp: push_cmd_def push_mk_ring_mem word_less_unat unat_of_nat32)
next
  case (3 hp)
  then have "ring_used c d (hp b) = 0" by (metis length_ring_queue list.size(3))
  then show ?case by (simp add: pop_mk_ring_mem)
next
  case (4 hp x xs)
  then have "ring_used c d (hp b) = Suc (length xs)" by (metis length_ring_queue length_Cons)
  with 4 queue_pop_mem[OF this] show ?case
    by (auto simp: pop_mk_ring_mem ring_inv_def)
qed

lemma pending_mk_ring:
  assumes "ring_inv c d (hp b)"
  shows "unat (pending (mk_ring c d b) hp) = length (ring_queue c d (hp b))"
proof -
  have "ring_used c d (hp b) < 2 ^ 32"
    using assms unat_lt32[of "cfg_command_slots c"] by (simp add: ring_inv_def)
  then show ?thesis
    by (simp add: pending_def Let_def ring_at_def ring_used_def ring_hd_def ring_tl_def
        unat_ucast_64_32)
qed

section \<open>Properties\<close>

text \<open>A small ring whose counters are one step before the wrap-around.\<close>

definition wrap_mem :: smem where
  "wrap_mem = smem_zero\<lparr>m_rings := (\<lambda>_. \<lparr>r_head = -1, r_tail = -1\<rparr>)\<rparr>"

definition demo_command :: LLShmCommand where
  "demo_command = mk_command 7 [1, 2, 3] 1 0 99"

text \<open>
  C7.  Any sequence of \<open>push\<close> and \<open>pop\<close> calls on a ring returns what the same sequence returns on
  a first-in first-out queue of \<open>command_slots\<close> entries that refuses oversized and surplus commands,
  and leaves the ring holding that queue; so nothing accepted is lost, changed or reordered,
  wherever the 64-bit counters stand.
\<close>

theorem ring_refines_queue:
  assumes "ring_inv c d (hp b)" and "\<forall>x. Enq x \<in> set ops \<longrightarrow> length (cmd_data x) < 2 ^ 32"
    and "impl_run (push_cmd (mk_ring c d b)) (pop (mk_ring c d b)) hp ops = (rs, hp')"
  shows "spec_run (unat (cfg_command_slots c)) (\<lambda>x. length (cmd_data x) \<le> unat (cfg_max_command_bytes c))
      (ring_queue c d (hp b)) ops = (rs, ring_queue c d (hp' b)) \<and>
    ring_inv c d (hp' b) \<and>
    ring_queue c d (hp b) @ accepted ops rs = delivered rs @ ring_queue c d (hp' b)"
  using spsc.run_refines[where c = c and d = d and b = b, OF assms(1) _ assms(3)]
    spsc.fifo_lossless[where c = c and d = d and b = b, OF assms(1) _ assms(3)] assms(2) by blast

theorem ring_refines_queue_witness:
  "\<exists>hp'. impl_run (push_cmd (mk_ring demo_config Upstream 2)) (pop (mk_ring demo_config Upstream 2)) (\<lambda>_. wrap_mem)
      [Enq demo_command, Enq demo_command, Enq demo_command, Deq, Deq, Deq] =
    ([Accepted, Accepted, Refused, Got demo_command, Got demo_command, Nothing], hp')"
proof -
  let ?ops = "[Enq demo_command, Enq demo_command, Enq demo_command, Deq, Deq, Deq]"
  obtain rs hp' where r: "impl_run (push_cmd (mk_ring demo_config Upstream 2)) (pop (mk_ring demo_config Upstream 2))
      (\<lambda>_. wrap_mem) ?ops = (rs, hp')" by force
  have i: "ring_inv demo_config Upstream wrap_mem" and q: "ring_queue demo_config Upstream wrap_mem = []"
    by (simp_all add: ring_inv_def demo_config_valid ring_used_def ring_queue_def ring_hd_def ring_tl_def wrap_mem_def)
  have l: "\<forall>x. Enq x \<in> set ?ops \<longrightarrow> length (cmd_data x) < 2 ^ 32"
    by (simp add: demo_command_def mk_command_def)
  have "length (cmd_data demo_command) = 3" by (simp add: demo_command_def mk_command_def)
  with ring_refines_queue[of demo_config Upstream "\<lambda>_. wrap_mem" 2, OF i l r] q r show ?thesis by auto
qed

end
