(* ===== verification/Util.thy ===== *)
theory Util
  imports Complex_Main Prelude
begin

text \<open>
  \<open>src/llutil.cpp\<close> and the status types of \<open>include/shmframe/llshmframe.h\<close>: result codes,
  session ids, the conversion between rates and intervals, and the 24-bit BMP writer.
\<close>

section \<open>Result codes\<close>

datatype LLStatus = LLStatus_Ok | InvalidConfig | AlreadyExists | VersionMismatch | MappingFailure | Internal

datatype LLReadResult = Read_Ok | NoNewFrame | Contended | Throttled | BufferTooSmall | Disconnected

fun to_string :: "LLStatus \<Rightarrow> string" where
  "to_string LLStatus_Ok = ''ok''"
| "to_string InvalidConfig = ''invalid config''"
| "to_string AlreadyExists = ''a publisher already owns this name''"
| "to_string VersionMismatch = ''incompatible segment layout''"
| "to_string MappingFailure = ''mapping failed''"
| "to_string Internal = ''internal error''"

section \<open>Session ids\<close>

definition make_session_id :: "u64 \<Rightarrow> u64 \<Rightarrow> u64" where
  "make_session_id wall now =
     (let h = wall * 0x9E3779B97F4A7C15;
          h1 = h XOR (now + 0x632BE59BD9B4E019);
          h2 = h1 XOR drop_bit 31 h1
      in if h2 \<noteq> 0 then h2 else 1)"

text \<open>0 stands for "no session" in the accessors, so no session is numbered 0.\<close>

lemma make_session_id_nonzero [simp]: "make_session_id wall now \<noteq> 0"
  by (simp add: make_session_id_def Let_def)

section \<open>Rates\<close>

text \<open>
  \<open>hz\<close> is the value of a finite \<open>double\<close> and \<open>rnd\<close> rounds a quotient to \<open>double\<close>.  The
  conversion to \<open>uint64_t\<close> truncates, and is undefined for a value of \<open>2^64\<close> or more.
\<close>

definition hz_interval :: "(rat \<Rightarrow> rat) \<Rightarrow> rat \<Rightarrow> u64 option" where
  "hz_interval rnd hz =
     (if hz > 0 then let q = rnd (10 ^ 9 / hz) in if q < 2 ^ 64 then Some (of_int \<lfloor>q\<rfloor>) else None
      else Some 0)"

definition interval_hz :: "(rat \<Rightarrow> rat) \<Rightarrow> u64 \<Rightarrow> rat" where
  "interval_hz rnd i = (if i \<noteq> 0 then rnd (10 ^ 9 / rnd (of_nat (unat i))) else 0)"

end
