(* ===== verification/Frames.thy ===== *)
theory Frames
  imports Ring Util
begin

text \<open>
  The frame slots of a segment as the endpoints see them: the frame a slot holds, the effect of
  writing a header or a payload, and the independence of the frame path and the command path,
  which share one byte memory.  \<open>hdr_describes\<close> and \<open>seg_inv\<close> are the part of the invariant
  that both endpoints rely on.
\<close>

section \<open>The frame in a slot\<close>

record LLFrameInfo =
  fi_frame_id :: u64
  fi_timestamp_ns :: u64
  fi_width :: u32
  fi_height :: u32
  fi_stride :: u32
  fi_payload_bytes :: u32

definition LLFrameInfo_zero :: LLFrameInfo where
  "LLFrameInfo_zero = \<lparr>fi_frame_id = 0, fi_timestamp_ns = 0, fi_width = 0, fi_height = 0,
     fi_stride = 0, fi_payload_bytes = 0\<rparr>"

definition slot_info :: "LLSlotHeader \<Rightarrow> LLFrameInfo" where
  "slot_info s = \<lparr>fi_frame_id = s_frame_id s, fi_timestamp_ns = s_timestamp_ns s,
     fi_width = s_width s, fi_height = s_height s, fi_stride = s_stride s,
     fi_payload_bytes = s_payload_bytes s\<rparr>"

definition slot_of :: "LLConfig \<Rightarrow> smem \<Rightarrow> u32 \<Rightarrow> LLSlotHeader" where
  "slot_of c sm i = m_slots sm (slot_at (compute_layout c) i)"

definition slot_bytes :: "LLConfig \<Rightarrow> smem \<Rightarrow> u32 \<Rightarrow> u8 list" where
  "slot_bytes c sm i =
     read_bytes (m_bytes sm) (slot_payload (compute_layout c) i) (unat (s_payload_bytes (slot_of c sm i)))"

definition slot_frame :: "LLConfig \<Rightarrow> smem \<Rightarrow> u32 \<Rightarrow> LLFrameInfo \<times> u8 list" where
  "slot_frame c sm i = (slot_info (slot_of c sm i), slot_bytes c sm i)"

definition set_slot :: "addr \<Rightarrow> LLSlotHeader \<Rightarrow> smem \<Rightarrow> smem" where
  "set_slot a s sm = sm\<lparr>m_slots := (m_slots sm)(a := s)\<rparr>"

lemma slot_region:
  assumes "config_valid c" and "i < cfg_slot_count c"
  shows "slot_at (compute_layout c) i = region_addr c (SlotHeader (unat i))"
    and "slot_payload (compute_layout c) i = region_addr c (SlotPayload (unat i))"
    and "region_exists c (SlotHeader (unat i))" and "region_exists c (SlotPayload (unat i))"
  using assms(2) by (simp_all add: word_less_unat)

lemma slot_at_eq_iff:
  assumes "config_valid c" and "i < cfg_slot_count c" and "j < cfg_slot_count c"
  shows "slot_at (compute_layout c) i = slot_at (compute_layout c) j \<longleftrightarrow> i = j"
proof
  note I = slot_region[OF assms(1,2)] and J = slot_region[OF assms(1,3)]
  assume eq: "slot_at (compute_layout c) i = slot_at (compute_layout c) j"
  show "i = j"
  proof (rule ccontr)
    assume "i \<noteq> j"
    then have "unat i \<noteq> unat j" using word_unat_eq_iff by blast
    then have "SlotHeader (unat i) \<noteq> SlotHeader (unat j)" by simp
    from region_addr_neq[OF assms(1) I(3) J(3) this] have
      "region_addr c (SlotHeader (unat i)) \<noteq> region_addr c (SlotHeader (unat j))" by simp
    then show False using eq I(1) J(1) by argo
  qed
qed simp

section \<open>Copying an image\<close>

text \<open>The bytes of an image whose rows of \<open>rb\<close> bytes start \<open>st\<close> bytes apart.\<close>

definition image_rows :: "u8 list \<Rightarrow> nat \<Rightarrow> nat \<Rightarrow> nat \<Rightarrow> u8 list" where
  "image_rows src rb st h = concat (map (\<lambda>y. take rb (drop (y * st) src)) [0..<h])"

lemma image_rows_0 [simp]: "image_rows src rb st 0 = []"
  by (simp add: image_rows_def)

lemma image_rows_Suc:
  "image_rows src rb st (Suc h) = image_rows src rb st h @ take rb (drop (h * st) src)"
  by (simp add: image_rows_def)

lemma length_image_rows:
  "0 < h \<Longrightarrow> (h - 1) * st + rb \<le> length src \<Longrightarrow> length (image_rows src rb st h) = rb * h"
proof (induction h)
  case (Suc h)
  show ?case
  proof (cases "h = 0")
    case False
    have "(h - 1) * st \<le> h * st" by simp
    moreover have "h * st + rb \<le> length src" using Suc.prems(2) by simp
    ultimately have "(h - 1) * st + rb \<le> length src" "h * st + rb \<le> length src" by linarith+
    with Suc.IH False show ?thesis by (simp add: image_rows_Suc)
  qed (use Suc.prems in \<open>simp add: image_rows_Suc\<close>)
qed simp

text \<open>A tightly packed image is its own first \<open>rb * h\<close> bytes.\<close>

lemma image_rows_tight: "image_rows src rb rb h = take (rb * h) src"
proof (induction h)
  case (Suc h)
  have e: "rb * Suc h = h * rb + rb" by (simp add: mult.commute)
  show ?case unfolding e take_add image_rows_Suc Suc by (simp add: mult.commute)
qed simp

lemma write_bytes_append:
  "write_bytes m a (xs @ ys) = write_bytes (write_bytes m a xs) (a + of_nat (length xs)) ys"
  by (induction xs arbitrary: m a) (simp_all add: add.assoc)

section \<open>Frames and commands do not interfere\<close>

lemma read_region_write:
  assumes "config_valid c" and "region_exists c r" "region_exists c r'" and "r \<noteq> r'"
    and "length xs \<le> region_len c r" and "n \<le> region_len c r'"
  shows "read_bytes (write_bytes m (region_addr c r) xs) (region_addr c r') n =
    read_bytes m (region_addr c r') n"
  using region_disjI[OF assms(1-4)] region_no_wrap[OF assms(1,2)] region_no_wrap[OF assms(1,3)] assms(5,6)
  by (intro read_write_bytes_disj) (auto simp: region_disj_def range_disj_def)

definition write_payload :: "LLConfig \<Rightarrow> u32 \<Rightarrow> u8 list \<Rightarrow> smem \<Rightarrow> smem" where
  "write_payload c i bs sm = sm\<lparr>m_bytes := write_bytes (m_bytes sm) (slot_payload (compute_layout c) i) bs\<rparr>"

lemma cell_write_payload:
  assumes "config_valid c" and "i < cfg_slot_count c" and "length bs \<le> unat (max_payload c)"
  shows "cell c d (write_payload c i bs sm) k = cell c d sm k"
proof -
  have "read_bytes (write_bytes m (slot_payload (compute_layout c) i) bs)
      (cmd_payload (cell_addr c d k)) n = read_bytes m (cmd_payload (cell_addr c d k)) n"
    if "n \<le> unat (cfg_max_command_bytes c)" for m n
    unfolding cell_addr_region(2)[OF assms(1)] slot_region(2)[OF assms(1,2)]
    using assms that slot_region(4)[OF assms(1,2)]
    by (intro read_region_write) (simp_all add: cell_index_lt)
  then show ?thesis
    by (simp add: cell_def Let_def write_payload_def word_less_unat)
qed

lemma ring_hd_tl_write_payload [simp]:
  "ring_hd c d (write_payload c i bs sm) = ring_hd c d sm"
  "ring_tl c d (write_payload c i bs sm) = ring_tl c d sm"
  by (simp_all add: ring_hd_def ring_tl_def write_payload_def)

lemma ring_write_payload [simp]:
  assumes "config_valid c" and "i < cfg_slot_count c" and "length bs \<le> unat (max_payload c)"
  shows "ring_queue c d (write_payload c i bs sm) = ring_queue c d sm"
    and "ring_used c d (write_payload c i bs sm) = ring_used c d sm"
  by (simp_all add: ring_queue_def ring_used_def cell_write_payload[OF assms])

lemma ring_only:
  assumes "m_rings sm' = m_rings sm" "m_cmds sm' = m_cmds sm" "m_bytes sm' = m_bytes sm"
  shows "ring_queue c d sm' = ring_queue c d sm" and "ring_used c d sm' = ring_used c d sm"
  using assms by (simp_all add: ring_queue_def ring_used_def ring_hd_def ring_tl_def cell_def Let_def)

lemma ring_set_slot [simp]:
  "ring_queue c d (set_slot a s sm) = ring_queue c d sm" "ring_used c d (set_slot a s sm) = ring_used c d sm"
  by (rule ring_only; simp add: set_slot_def)+

lemma ring_set_hdr [simp]:
  "ring_queue c d (sm\<lparr>m_hdr := h\<rparr>) = ring_queue c d sm" "ring_used c d (sm\<lparr>m_hdr := h\<rparr>) = ring_used c d sm"
  by (rule ring_only; simp)+

lemma slot_of_only: "m_slots sm' = m_slots sm \<Longrightarrow> slot_of c sm' i = slot_of c sm i"
  by (simp add: slot_of_def)

lemma m_slots_ring_ops [simp]:
  "m_slots (push_mem c d h bs sm) = m_slots sm" "m_slots (pop_mem c d sm) = m_slots sm"
  "m_hdr (push_mem c d h bs sm) = m_hdr sm" "m_hdr (pop_mem c d sm) = m_hdr sm"
  "m_bytes (pop_mem c d sm) = m_bytes sm"
  by (simp_all add: push_mem_def pop_mem_def set_ring_def fill_cell_def)

text \<open>A push leaves every frame alone: the bytes it writes lie in a command slot.\<close>

lemma slot_frame_push_mem:
  assumes "config_valid c" and "i < cfg_slot_count c" and "length bs \<le> unat (cfg_max_command_bytes c)"
    and "unat (s_payload_bytes (slot_of c sm i)) \<le> unat (max_payload c)"
  shows "slot_frame c (push_mem c d h bs sm) i = slot_frame c sm i"
proof -
  have "read_bytes (write_bytes m (cmd_payload (cell_addr c d k)) bs) (slot_payload (compute_layout c) i)
      (unat (s_payload_bytes (slot_of c sm i))) =
      read_bytes m (slot_payload (compute_layout c) i) (unat (s_payload_bytes (slot_of c sm i)))" for m k
    unfolding cell_addr_region(2)[OF assms(1)] slot_region(2)[OF assms(1,2)]
    using assms slot_region(4)[OF assms(1,2)]
    by (intro read_region_write) (simp_all add: cell_index_lt)
  then show ?thesis
    by (simp add: slot_frame_def slot_bytes_def slot_of_def push_mem_def fill_cell_def set_ring_def)
qed

lemma slot_frame_pop_mem [simp]: "slot_frame c (pop_mem c d sm) i = slot_frame c sm i"
  by (simp add: slot_frame_def slot_bytes_def slot_of_def)

section \<open>A segment that describes itself\<close>

definition hdr_describes :: "LLConfig \<Rightarrow> LLHeader \<Rightarrow> bool" where
  "hdr_describes c h \<longleftrightarrow> (let L = compute_layout c in
     h_magic h = kMagic \<and> h_version h = kVersion \<and> h_total_size h = L_total_size L \<and>
     h_max_width h = cfg_max_width c \<and> h_max_height h = cfg_max_height c \<and>
     h_bytes_per_pixel h = cfg_bytes_per_pixel c \<and> h_slot_count h = cfg_slot_count c \<and>
     h_command_slots h = cfg_command_slots c \<and> h_max_command_bytes h = cfg_max_command_bytes c \<and>
     h_slots_offset h = L_slots_offset L \<and> h_slot_stride h = L_slot_stride L \<and>
     h_downstream_offset h = L_downstream_offset L \<and> h_upstream_offset h = L_upstream_offset L \<and>
     h_ring_stride h = L_ring_stride L \<and> h_cmd_stride h = L_cmd_stride L)"

lemma hdr_describes_init: "hdr_describes c (m_hdr (init_segment c s t sm))"
  by (simp add: hdr_describes_def init_segment_def Let_def)

lemma hdr_describes_upd [simp]:
  "hdr_describes c (h\<lparr>h_latest := x\<rparr>) = hdr_describes c h"
  "hdr_describes c (h\<lparr>h_shutdown := y\<rparr>) = hdr_describes c h"
  "hdr_describes c (h\<lparr>h_last_heartbeat_ns := x\<rparr>) = hdr_describes c h"
  "hdr_describes c (h\<lparr>h_command_owner_gen := x\<rparr>) = hdr_describes c h"
  "hdr_describes c (h\<lparr>h_command_owner_heartbeat_ns := x\<rparr>) = hdr_describes c h"
  by (simp_all add: hdr_describes_def Let_def)

lemma validate_describes:
  assumes "config_valid c" and "hdr_describes c (m_hdr (hp b))" and "L_total_size (compute_layout c) \<le> sz"
  shows "validate_header (Some b) sz hp = Some (compute_layout c)"
proof -
  have lay: "compute_layout (header_config ''x'' (m_hdr (hp b))) = compute_layout c"
    using assms(2) by (intro compute_layout_geometry) (simp_all add: header_config_def hdr_describes_def Let_def)
  have "config_valid (header_config ''x'' (m_hdr (hp b)))"
    using assms(1,2) by (simp add: config_valid_def header_config_def hdr_describes_def Let_def
        split: if_splits)
  moreover have "sizeof_LLHeader \<le> sz" using header_fits[OF assms(1)] assms(3) by (rule order_trans)
  ultimately show ?thesis
    using assms lay by (simp add: validate_header_Some hdr_describes_def Let_def)
qed

text \<open>The configuration a subscriber rebuilds from the header has the publisher's geometry.\<close>

definition same_geometry :: "LLConfig \<Rightarrow> LLConfig \<Rightarrow> bool" where
  "same_geometry c c' \<longleftrightarrow> cfg_max_width c = cfg_max_width c' \<and> cfg_max_height c = cfg_max_height c' \<and>
     cfg_bytes_per_pixel c = cfg_bytes_per_pixel c' \<and> cfg_slot_count c = cfg_slot_count c' \<and>
     cfg_command_slots c = cfg_command_slots c' \<and> cfg_max_command_bytes c = cfg_max_command_bytes c'"

lemma same_geometry_header: "hdr_describes c h \<Longrightarrow> same_geometry (header_config nm h) c"
  by (simp add: same_geometry_def header_config_def hdr_describes_def Let_def)

lemma same_geometry_layout: "same_geometry c c' \<Longrightarrow> compute_layout c = compute_layout c'"
  by (rule compute_layout_geometry) (simp_all add: same_geometry_def)

lemma same_geometry_payload: "same_geometry c c' \<Longrightarrow> max_payload c = max_payload c'"
  by (simp add: same_geometry_def max_payload_def)

lemma same_geometry_ring: "same_geometry c c' \<Longrightarrow> mk_ring c d b = mk_ring c' d b"
  by (simp add: mk_ring_def same_geometry_layout) (simp add: same_geometry_def)

definition seg_inv :: "LLConfig \<Rightarrow> smem \<Rightarrow> bool" where
  "seg_inv c sm \<longleftrightarrow> config_valid c \<and> L_total_size (compute_layout c) \<le> kMaxSegment \<and>
     hdr_describes c (m_hdr sm) \<and> ring_inv c Downstream sm \<and> ring_inv c Upstream sm"

lemma seg_inv_valid: "seg_inv c sm \<Longrightarrow> config_valid c"
  by (simp add: seg_inv_def)

lemma seg_inv_ring: "seg_inv c sm \<Longrightarrow> ring_inv c d sm"
  by (cases d) (simp_all add: seg_inv_def)

lemma seg_inv_hdr: "hdr_describes c h \<Longrightarrow> seg_inv c sm \<Longrightarrow> seg_inv c (sm\<lparr>m_hdr := h\<rparr>)"
  by (simp add: seg_inv_def ring_inv_def)

lemma seg_inv_describes: "seg_inv c sm \<Longrightarrow> hdr_describes c (m_hdr sm)"
  by (simp add: seg_inv_def)

lemma slot_of_simps [simp]:
  "slot_of c (sm\<lparr>m_hdr := h\<rparr>) i = slot_of c sm i" "slot_of c (write_payload c' j bs sm) i = slot_of c sm i"
  "slot_of c (sm\<lparr>m_bytes := bm\<rparr>) i = slot_of c sm i"
  by (simp_all add: slot_of_def write_payload_def)

text \<open>
  A segment of at most 2 GB has frames of less than \<open>2^30\<close> bytes, so that the 32-bit fields of a
  slot header hold the sizes of a frame exactly.
\<close>

lemma payload_small:
  assumes "config_valid c" and "L_total_size (compute_layout c) \<le> kMaxSegment"
  shows "unat (max_payload c) < 2 ^ 30"
proof -
  have m: "unat (L_total_size (compute_layout c)) \<le> 2147483648"
    using assms(2) by (simp add: word_le_unat k_defs)
  have s: "3 * slot_stride_nat c \<le> unat (cfg_slot_count c) * slot_stride_nat c"
    using config_validD(9)[OF assms(1)] by (rule mult_le_mono1)
  have "448 + unat (cfg_slot_count c) * slot_stride_nat c \<le> unat (L_total_size (compute_layout c))"
    using unat_total_size(1)[OF assms(1)] by simp
  moreover have "64 + unat (max_payload c) \<le> slot_stride_nat c"
    by (simp add: slot_stride_nat_def align64_bounds)
  ultimately have "unat (max_payload c) < 1073741824" using m s by linarith
  then show ?thesis by simp
qed

lemma seg_inv_init:
  assumes "config_valid c" and "L_total_size (compute_layout c) \<le> kMaxSegment"
  shows "seg_inv c (init_segment c s t sm)" and "ring_queue c d (init_segment c s t sm) = []"
proof -
  have u: "ring_used c d (init_segment c s t sm) = 0" for d
    using init_segment_ring[of c s t sm d]
    by (simp add: ring_used_def ring_hd_def ring_tl_def LLRingHeader_zero_def)
  then show "seg_inv c (init_segment c s t sm)" "ring_queue c d (init_segment c s t sm) = []"
    using assms by (simp_all add: seg_inv_def ring_inv_def hdr_describes_init ring_queue_def)
qed

section \<open>Commands on a well-formed segment\<close>

text \<open>The bytes a send hands to the ring; none when the pointer is null.\<close>

definition send_data :: "u8 list option \<Rightarrow> u32 \<Rightarrow> u8 list" where
  "send_data data sz = (case data of Some d \<Rightarrow> take (unat sz) d | None \<Rightarrow> [])"

lemma push_mk_ring_opt:
  assumes "config_valid c"
  shows "push (mk_ring c d b) ty data sz cid reply_to ts hp =
     (if sz > cfg_max_command_bytes c \<or> ring_used c d (hp b) \<ge> unat (cfg_command_slots c)
      then (False, hp)
      else (True, hp(b := push_mem c d
               \<lparr>c_id = cid, c_reply_to = reply_to, c_timestamp_ns = ts, c_type = ty, c_size = sz\<rparr>
               (send_data data sz) (hp b))))"
proof (cases data)
  case (Some x)
  then show ?thesis by (simp add: push_mk_ring_mem[OF assms] send_data_def)
next
  case None
  have full: "ucast (cfg_command_slots c) \<le> ring_hd c d (hp b) - ring_tl c d (hp b) \<longleftrightarrow>
      unat (cfg_command_slots c) \<le> ring_used c d (hp b)"
    by (simp add: word_le_unat ring_used_def)
  have upd: "h\<lparr>r_head := x\<rparr> = \<lparr>r_head = x, r_tail = r_tail h\<rparr>" for h :: LLRingHeader and x
    by (cases h) simp
  from None full show ?thesis
    by (simp add: push_def Let_def ring_at_def ring_hd_def ring_tl_def cell_addr_def push_mem_def
        set_ring_def fill_cell_def upd send_data_def)
qed

text \<open>
  What a command operation may do to a segment: one queue becomes \<open>q\<close>, and the header, the
  other queue and every frame stay as they are.
\<close>

definition cmd_effect :: "LLConfig \<Rightarrow> ring_dir \<Rightarrow> LLShmCommand list \<Rightarrow> smem \<Rightarrow> smem \<Rightarrow> bool" where
  "cmd_effect c d q sm sm' \<longleftrightarrow>
     seg_inv c sm' \<and> m_hdr sm' = m_hdr sm \<and> m_slots sm' = m_slots sm \<and> ring_queue c d sm' = q \<and>
     (\<forall>d'. d' \<noteq> d \<longrightarrow> ring_queue c d' sm' = ring_queue c d' sm) \<and>
     (\<forall>i<cfg_slot_count c. unat (s_payload_bytes (slot_of c sm i)) \<le> unat (max_payload c) \<longrightarrow>
        slot_frame c sm' i = slot_frame c sm i)"

lemma seg_inv_push_mem:
  assumes "seg_inv c sm" and "ring_used c d sm < unat (cfg_command_slots c)"
    and "length bs \<le> unat (cfg_max_command_bytes c)"
  shows "seg_inv c (push_mem c d h bs sm)"
proof -
  note v = seg_inv_valid[OF assms(1)]
  have "ring_inv c d' (push_mem c d h bs sm)" for d'
    using seg_inv_ring[OF assms(1), of d'] used_push_mem[OF v assms(2), of h bs] assms(2)
      other_dir(2)[OF v _ assms(3), of d d' h sm]
    by (cases "d' = d") (auto simp: ring_inv_def)
  then show ?thesis using assms(1) by (simp add: seg_inv_def)
qed

lemma push_seg:
  assumes "seg_inv c (hp b)" and "length (send_data data sz) = unat sz"
    and "sz \<le> cfg_max_command_bytes c"
    and "length (ring_queue c d (hp b)) < unat (cfg_command_slots c)"
  shows "\<exists>sm'. push (mk_ring c d b) ty data sz cid reply_to ts hp = (True, hp(b := sm')) \<and>
    cmd_effect c d (ring_queue c d (hp b) @ [mk_command ty (send_data data sz) cid reply_to ts]) (hp b) sm'"
proof -
  note v = seg_inv_valid[OF assms(1)]
  have len: "length (send_data data sz) \<le> unat (cfg_max_command_bytes c)"
    using assms(2,3) by (simp add: word_le_unat)
  let ?h = "\<lparr>c_id = cid, c_reply_to = reply_to, c_timestamp_ns = ts, c_type = ty, c_size = sz\<rparr>"
  let ?sm = "push_mem c d ?h (send_data data sz) (hp b)"
  have "push (mk_ring c d b) ty data sz cid reply_to ts hp = (True, hp(b := ?sm))"
    using assms(3,4) by (simp add: push_mk_ring_opt[OF v] not_less)
  moreover have "ring_queue c d ?sm = ring_queue c d (hp b) @ [mk_command ty (send_data data sz) cid reply_to ts]"
    using queue_push_mem[OF v _ _ len, of d "hp b" ?h] assms(2,4) by simp
  moreover have "seg_inv c ?sm"
    using assms(1,4) len by (intro seg_inv_push_mem) simp_all
  ultimately show ?thesis
    using other_dir(1)[OF v _ len] slot_frame_push_mem[OF v _ len]
    by (auto simp: cmd_effect_def)
qed

lemma push_refused:
  assumes "seg_inv c (hp b)"
    and "sz > cfg_max_command_bytes c \<or> length (ring_queue c d (hp b)) = unat (cfg_command_slots c)"
  shows "push (mk_ring c d b) ty data sz cid reply_to ts hp = (False, hp)"
  using assms(2) by (auto simp: push_mk_ring_opt[OF seg_inv_valid[OF assms(1)]])

lemma queue_bounded: "seg_inv c sm \<Longrightarrow> length (ring_queue c d sm) \<le> unat (cfg_command_slots c)"
  using seg_inv_ring[of c sm d] by (simp add: ring_inv_def)

lemma pop_seg:
  assumes "seg_inv c (hp b)"
  shows "(case ring_queue c d (hp b) of
      [] \<Rightarrow> pop (mk_ring c d b) hp = (None, hp)
    | x # q \<Rightarrow> \<exists>sm'. pop (mk_ring c d b) hp = (Some x, hp(b := sm')) \<and> cmd_effect c d q (hp b) sm')"
proof (cases "ring_used c d (hp b)")
  case 0
  then have "ring_queue c d (hp b) = []" by (metis length_ring_queue length_0_conv)
  with 0 show ?thesis by (simp add: pop_mk_ring_mem)
next
  case (Suc n)
  note v = seg_inv_valid[OF assms]
  have "ring_inv c d' (pop_mem c d (hp b))" for d'
    using seg_inv_ring[OF assms, of d'] queue_pop_mem(1)[OF Suc] Suc
      other_dir(4)[OF v, of d d' "[]" "hp b"]
    by (cases "d' = d") (auto simp: ring_inv_def)
  then have "seg_inv c (pop_mem c d (hp b))" using assms by (simp add: seg_inv_def)
  then have "cmd_effect c d (ring_queue c d (pop_mem c d (hp b))) (hp b) (pop_mem c d (hp b))"
    using other_dir(3)[OF v, of d _ "[]"] by (auto simp: cmd_effect_def)
  then show ?thesis
    using queue_pop_mem(2)[OF Suc] Suc by (auto simp: pop_mk_ring_mem)
qed

end
