(* ===== verification/Segment.thy ===== *)
theory Segment
  imports Segment_Memory
begin

text \<open>
  \<open>LLSegment\<close> (\<open>src/llsegment.h\<close>, \<open>src/llsegment.cpp\<close>): creating, opening and unlinking a
  named segment.  The Boost objects it drives, and the kernel behind them, are the parameter
  \<open>ops\<close>: one function per constructor or member the source calls, each of which may throw.
  The locale \<open>segment_store\<close> states what the endpoints rely on, \<open>unlinking_store\<close> adds what
  POSIX adds to it and \<open>pinned_store\<close> what Windows does instead.  They are interpreted on
  \<open>LLSegment\<close> over the two documented kernel behaviours.
\<close>

section \<open>What LLSegment calls\<close>

datatype platform = Posix | Windows

datatype bip_error = already_exists_error | other_error

datatype exn = Interprocess_exception bip_error | Std_exception

record 'k bip_ops =
  op_create_only :: "string \<Rightarrow> 'k \<Rightarrow> (exn + nat) \<times> 'k"
  op_create_sized :: "string \<Rightarrow> u64 \<Rightarrow> 'k \<Rightarrow> (exn + nat) \<times> 'k"
  op_open_only :: "string \<Rightarrow> 'k \<Rightarrow> (exn + nat) \<times> 'k"
  op_truncate :: "nat \<Rightarrow> u64 \<Rightarrow> 'k \<Rightarrow> (exn + unit) \<times> 'k"
  op_map :: "nat \<Rightarrow> 'k \<Rightarrow> (exn + (oid option \<times> u64)) \<times> 'k"
  op_remove :: "string \<Rightarrow> 'k \<Rightarrow> (exn + unit) \<times> 'k"
  op_close :: "nat \<Rightarrow> 'k \<Rightarrow> 'k"

section \<open>LLSegment\<close>

text \<open>The object and the region it maps: the address (none for a null pointer) and the size.\<close>

record LLSegment =
  sg_obj :: nat
  sg_region :: "oid option \<times> u64"

definition is_already_exists :: "exn \<Rightarrow> bool" where
  "is_already_exists e \<longleftrightarrow> e = Interprocess_exception already_exists_error"

definition LLSegment_create :: "platform \<Rightarrow> 'k bip_ops \<Rightarrow> string \<Rightarrow> u64 \<Rightarrow> 'k
    \<Rightarrow> (LLSegment option \<times> bool) \<times> 'k" where
  "LLSegment_create pf ops name bytes k =
     (case (case pf of Windows \<Rightarrow> op_create_sized ops name bytes k
                     | Posix \<Rightarrow> op_create_only ops name k) of
        (Inl e, k1) \<Rightarrow> ((None, is_already_exists e), k1)
      | (Inr obj, k1) \<Rightarrow>
          (case (case pf of Windows \<Rightarrow> (Inr (), k1) | Posix \<Rightarrow> op_truncate ops obj bytes k1) of
             (Inl e, k2) \<Rightarrow> ((None, is_already_exists e), op_close ops obj k2)
           | (Inr _, k2) \<Rightarrow>
               (case op_map ops obj k2 of
                  (Inl e, k3) \<Rightarrow> ((None, is_already_exists e), op_close ops obj k3)
                | (Inr (address, sz), k3) \<Rightarrow>
                    if address = None \<or> sz < bytes then ((None, False), op_close ops obj k3)
                    else ((Some \<lparr>sg_obj = obj, sg_region = (address, sz)\<rparr>, False), k3))))"

definition LLSegment_open :: "'k bip_ops \<Rightarrow> string \<Rightarrow> 'k \<Rightarrow> LLSegment option \<times> 'k" where
  "LLSegment_open ops name k =
     (case op_open_only ops name k of
        (Inl e, k1) \<Rightarrow> (None, k1)
      | (Inr obj, k1) \<Rightarrow>
          (case op_map ops obj k1 of
             (Inl e, k2) \<Rightarrow> (None, op_close ops obj k2)
           | (Inr (address, sz), k2) \<Rightarrow>
               if address = None \<or> sz = 0 then (None, op_close ops obj k2)
               else (Some \<lparr>sg_obj = obj, sg_region = (address, sz)\<rparr>, k2)))"

definition LLSegment_unlink :: "platform \<Rightarrow> 'k bip_ops \<Rightarrow> string \<Rightarrow> 'k \<Rightarrow> 'k" where
  "LLSegment_unlink pf ops name k =
     (case pf of Windows \<Rightarrow> k | Posix \<Rightarrow> snd (op_remove ops name k))"

definition seg_address :: "LLSegment \<Rightarrow> oid option" where
  "seg_address s = fst (sg_region s)"

definition seg_size :: "LLSegment \<Rightarrow> u64" where
  "seg_size s = snd (sg_region s)"

text \<open>The destructor: the region and the handle are released.\<close>

definition LLSegment_destroy :: "'k bip_ops \<Rightarrow> LLSegment option \<Rightarrow> 'k \<Rightarrow> 'k" where
  "LLSegment_destroy ops s k = (case s of None \<Rightarrow> k | Some sg \<Rightarrow> op_close ops (sg_obj sg) k)"

lemma LLSegment_create_Some:
  "LLSegment_create pf ops name bytes k = ((Some sg, ex), k') \<Longrightarrow>
   (\<exists>b. seg_address sg = Some b) \<and> bytes \<le> seg_size sg \<and> \<not> ex"
  by (auto simp: LLSegment_create_def seg_address_def seg_size_def not_less
      split: prod.splits sum.splits if_splits option.splits)

lemma LLSegment_open_Some:
  "LLSegment_open ops name k = (Some sg, k') \<Longrightarrow> (\<exists>b. seg_address sg = Some b) \<and> seg_size sg \<noteq> 0"
  by (auto simp: LLSegment_open_def seg_address_def seg_size_def
      split: prod.splits sum.splits if_splits option.splits)

section \<open>What the endpoints rely on\<close>

text \<open>
  \<open>bound k n\<close> is the object the name \<open>n\<close> denotes, with its size; \<open>alloc k\<close> are the objects
  that some process may have mapped.  A fresh object is never one of those.
\<close>

locale segment_store =
  fixes ok :: "'k \<Rightarrow> bool" and bound :: "'k \<Rightarrow> string \<Rightarrow> (oid \<times> u64) option"
    and alloc :: "'k \<Rightarrow> oid set" and pf :: platform and ops :: "'k bip_ops"
  assumes bound_alloc: "ok k \<Longrightarrow> bound k n = Some (b, sz) \<Longrightarrow> b \<in> alloc k"
    and create_free: "ok k \<Longrightarrow> bound k n = None \<Longrightarrow> bytes \<noteq> 0 \<Longrightarrow>
      \<exists>sg b k'. LLSegment_create pf ops n bytes k = ((Some sg, False), k') \<and> ok k' \<and>
        sg_region sg = (Some b, bytes) \<and> bound k' = (bound k)(n \<mapsto> (b, bytes)) \<and>
        b \<notin> alloc k \<and> alloc k' = insert b (alloc k)"
    and create_taken: "ok k \<Longrightarrow> bound k n \<noteq> None \<Longrightarrow>
      \<exists>k'. LLSegment_create pf ops n bytes k = ((None, True), k') \<and> ok k' \<and> bound k' = bound k \<and>
        alloc k' = alloc k"
    and open_bound: "ok k \<Longrightarrow> bound k n = Some (b, sz) \<Longrightarrow>
      \<exists>sg k'. LLSegment_open ops n k = (Some sg, k') \<and> ok k' \<and> bound k' = bound k \<and> alloc k' = alloc k \<and>
        sg_region sg = (Some b, sz) \<and>
        (\<forall>k2. op_close ops (sg_obj sg) k' = k2 \<longrightarrow> ok k2 \<and> bound k2 = bound k \<and> alloc k2 = alloc k)"
    and open_free: "ok k \<Longrightarrow> bound k n = None \<Longrightarrow>
      \<exists>k'. LLSegment_open ops n k = (None, k') \<and> ok k' \<and> bound k' = bound k \<and> alloc k' = alloc k"

text \<open>POSIX: unlinking frees the name whoever still has the object mapped, closing does not.\<close>

locale unlinking_store = segment_store +
  assumes unlink_frees: "ok k \<Longrightarrow> ok (LLSegment_unlink pf ops n k) \<and>
      bound (LLSegment_unlink pf ops n k) = (bound k)(n := None) \<and> alloc (LLSegment_unlink pf ops n k) = alloc k"
    and close_keeps: "ok k \<Longrightarrow> ok (op_close ops obj k) \<and> bound (op_close ops obj k) = bound k \<and>
      alloc (op_close ops obj k) = alloc k"

text \<open>Windows: a name stays bound for as long as the object lives.\<close>

locale pinned_store = segment_store +
  assumes unlink_keeps: "LLSegment_unlink pf ops n k = k"

context unlinking_store
begin

lemma recreate_after_unlink:
  assumes "ok k" and "bytes \<noteq> 0"
  shows "\<exists>sg b k'. LLSegment_create pf ops n bytes (LLSegment_unlink pf ops n k) = ((Some sg, False), k') \<and>
    ok k' \<and> sg_region sg = (Some b, bytes) \<and> bound k' = (bound k)(n \<mapsto> (b, bytes)) \<and>
    b \<notin> alloc k \<and> alloc k' = insert b (alloc k)"
  using create_free[of "LLSegment_unlink pf ops n k" n bytes] unlink_frees[OF assms(1), of n] assms(2)
  by auto

end

context pinned_store
begin

lemma recreate_refused:
  assumes "ok k" and "bound k n \<noteq> None"
  shows "\<exists>k'. LLSegment_create pf ops n bytes (LLSegment_unlink pf ops n k) = ((None, True), k') \<and>
    ok k' \<and> bound k' = bound k \<and> alloc k' = alloc k"
  using create_taken[OF assms] by (simp add: unlink_keeps)

end

section \<open>The POSIX name space\<close>

text \<open>
  \<open>shm_open\<close> with \<open>O_CREAT | O_EXCL\<close> fails when the name exists, \<open>ftruncate\<close> gives the
  object its size, an empty object cannot be mapped, and \<open>shm_unlink\<close> removes the name only.
\<close>

record posix_kernel =
  pk_names :: "string \<Rightarrow> oid option"
  pk_size :: "oid \<Rightarrow> u64"
  pk_next :: oid

definition posix_ops :: "posix_kernel bip_ops" where
  "posix_ops =
     \<lparr>op_create_only = (\<lambda>n k. case pk_names k n of
          Some _ \<Rightarrow> (Inl (Interprocess_exception already_exists_error), k)
        | None \<Rightarrow> (Inr (pk_next k), k\<lparr>pk_names := (pk_names k)(n \<mapsto> pk_next k),
                    pk_size := (pk_size k)(pk_next k := 0), pk_next := Suc (pk_next k)\<rparr>)),
      op_create_sized = (\<lambda>n sz k. (Inl Std_exception, k)),
      op_open_only = (\<lambda>n k. case pk_names k n of
          Some b \<Rightarrow> (Inr b, k)
        | None \<Rightarrow> (Inl (Interprocess_exception other_error), k)),
      op_truncate = (\<lambda>b sz k. (Inr (), k\<lparr>pk_size := (pk_size k)(b := sz)\<rparr>)),
      op_map = (\<lambda>b k. if pk_size k b = 0 then (Inl (Interprocess_exception other_error), k)
                      else (Inr (Some b, pk_size k b), k)),
      op_remove = (\<lambda>n k. (Inr (), k\<lparr>pk_names := (pk_names k)(n := None)\<rparr>)),
      op_close = (\<lambda>b k. k)\<rparr>"

definition posix_ok :: "posix_kernel \<Rightarrow> bool" where
  "posix_ok k \<longleftrightarrow> (\<forall>n b. pk_names k n = Some b \<longrightarrow> b < pk_next k \<and> pk_size k b \<noteq> 0)"

definition posix_bound :: "posix_kernel \<Rightarrow> string \<Rightarrow> (oid \<times> u64) option" where
  "posix_bound k n = map_option (\<lambda>b. (b, pk_size k b)) (pk_names k n)"

definition posix_alloc :: "posix_kernel \<Rightarrow> oid set" where
  "posix_alloc k = {..<pk_next k}"

definition posix_empty :: posix_kernel where
  "posix_empty = \<lparr>pk_names = (\<lambda>_. None), pk_size = (\<lambda>_. 0), pk_next = 1\<rparr>"

lemma posix_empty_ok: "posix_ok posix_empty" and posix_empty_bound: "posix_bound posix_empty n = None"
  by (simp_all add: posix_ok_def posix_empty_def posix_bound_def)

interpretation posix: unlinking_store posix_ok posix_bound posix_alloc Posix posix_ops
proof (unfold_locales, goal_cases)
  case (1 k n b sz)
  then show ?case by (auto simp: posix_bound_def posix_ok_def posix_alloc_def)
next
  case (2 k n bytes)
  then have free: "pk_names k n = None" and fresh: "\<And>m. pk_names k m \<noteq> Some (pk_next k)"
    by (auto simp: posix_bound_def posix_ok_def)
  let ?k = "k\<lparr>pk_names := (pk_names k)(n \<mapsto> pk_next k),
      pk_size := (pk_size k)(pk_next k := bytes), pk_next := Suc (pk_next k)\<rparr>"
  have "posix_bound ?k = (posix_bound k)(n \<mapsto> (pk_next k, bytes))"
    using fresh by (auto simp: posix_bound_def fun_eq_iff map_option_case split: option.splits)
  moreover have "posix_ok ?k"
    using 2 fresh by (auto simp: posix_ok_def less_Suc_eq)
  moreover have "LLSegment_create Posix posix_ops n bytes k =
      ((Some \<lparr>sg_obj = pk_next k, sg_region = (Some (pk_next k), bytes)\<rparr>, False), ?k)"
    using 2 free by (simp add: LLSegment_create_def posix_ops_def)
  ultimately show ?case by (auto simp: posix_alloc_def)
next
  case (3 k n bytes)
  then show ?case
    by (auto simp: LLSegment_create_def posix_ops_def posix_bound_def is_already_exists_def)
next
  case (4 k n b sz)
  then show ?case
    by (auto simp: LLSegment_open_def posix_ops_def posix_bound_def posix_ok_def)
next
  case (5 k n)
  then show ?case
    by (auto simp: LLSegment_open_def posix_ops_def posix_bound_def)
next
  case (6 k n)
  then show ?case
    by (auto simp: LLSegment_unlink_def posix_ops_def posix_bound_def posix_ok_def posix_alloc_def)
next
  case (7 k obj)
  then show ?case by (simp add: posix_ops_def)
qed

section \<open>The Windows name space\<close>

text \<open>
  A section object is created with its size, every open makes a handle of its own, and the name
  disappears with the last handle.
\<close>

record win_kernel =
  wk_names :: "string \<Rightarrow> oid option"
  wk_size :: "oid \<Rightarrow> u64"
  wk_handle :: "nat \<Rightarrow> oid option"
  wk_refs :: "oid \<Rightarrow> nat"
  wk_next :: oid
  wk_next_handle :: nat

definition win_attach :: "oid \<Rightarrow> win_kernel \<Rightarrow> (exn + nat) \<times> win_kernel" where
  "win_attach b k = (Inr (wk_next_handle k), k\<lparr>wk_handle := (wk_handle k)(wk_next_handle k \<mapsto> b),
     wk_refs := (wk_refs k)(b := Suc (wk_refs k b)), wk_next_handle := Suc (wk_next_handle k)\<rparr>)"

definition win_close :: "nat \<Rightarrow> win_kernel \<Rightarrow> win_kernel" where
  "win_close h k = (case wk_handle k h of None \<Rightarrow> k
     | Some b \<Rightarrow> k\<lparr>wk_handle := (wk_handle k)(h := None), wk_refs := (wk_refs k)(b := wk_refs k b - 1),
         wk_names := (if wk_refs k b \<le> 1 then (\<lambda>n. if wk_names k n = Some b then None else wk_names k n)
                      else wk_names k)\<rparr>)"

definition windows_ops :: "win_kernel bip_ops" where
  "windows_ops =
     \<lparr>op_create_only = (\<lambda>n k. (Inl Std_exception, k)),
      op_create_sized = (\<lambda>n sz k. case wk_names k n of
          Some _ \<Rightarrow> (Inl (Interprocess_exception already_exists_error), k)
        | None \<Rightarrow> win_attach (wk_next k) (k\<lparr>wk_names := (wk_names k)(n \<mapsto> wk_next k),
                    wk_size := (wk_size k)(wk_next k := sz),
                    wk_refs := (wk_refs k)(wk_next k := 0), wk_next := Suc (wk_next k)\<rparr>)),
      op_open_only = (\<lambda>n k. case wk_names k n of
          Some b \<Rightarrow> win_attach b k
        | None \<Rightarrow> (Inl (Interprocess_exception other_error), k)),
      op_truncate = (\<lambda>h sz k. (Inl Std_exception, k)),
      op_map = (\<lambda>h k. case wk_handle k h of
          Some b \<Rightarrow> (Inr (Some b, wk_size k b), k)
        | None \<Rightarrow> (Inl (Interprocess_exception other_error), k)),
      op_remove = (\<lambda>n k. (Inl Std_exception, k)),
      op_close = win_close\<rparr>"

definition windows_ok :: "win_kernel \<Rightarrow> bool" where
  "windows_ok k \<longleftrightarrow> (\<forall>n b. wk_names k n = Some b \<longrightarrow> b < wk_next k \<and> wk_size k b \<noteq> 0 \<and> 0 < wk_refs k b) \<and>
     (\<forall>h b. wk_handle k h = Some b \<longrightarrow> h < wk_next_handle k)"

definition windows_bound :: "win_kernel \<Rightarrow> string \<Rightarrow> (oid \<times> u64) option" where
  "windows_bound k n = map_option (\<lambda>b. (b, wk_size k b)) (wk_names k n)"

definition windows_alloc :: "win_kernel \<Rightarrow> oid set" where
  "windows_alloc k = {..<wk_next k}"

definition windows_empty :: win_kernel where
  "windows_empty = \<lparr>wk_names = (\<lambda>_. None), wk_size = (\<lambda>_. 0), wk_handle = (\<lambda>_. None),
     wk_refs = (\<lambda>_. 0), wk_next = 1, wk_next_handle = 1\<rparr>"

interpretation windows: pinned_store windows_ok windows_bound windows_alloc Windows windows_ops
proof (unfold_locales, goal_cases)
  case (1 k n b sz)
  then show ?case by (auto simp: windows_bound_def windows_ok_def windows_alloc_def)
next
  case (2 k n bytes)
  then have free: "wk_names k n = None" and fresh: "\<And>m. wk_names k m \<noteq> Some (wk_next k)"
    by (auto simp: windows_bound_def windows_ok_def)
  let ?k = "k\<lparr>wk_names := (wk_names k)(n \<mapsto> wk_next k), wk_size := (wk_size k)(wk_next k := bytes),
      wk_refs := (wk_refs k)(wk_next k := 0), wk_next := Suc (wk_next k)\<rparr>"
  have "windows_bound (snd (win_attach (wk_next k) ?k)) = (windows_bound k)(n \<mapsto> (wk_next k, bytes))"
    using fresh by (auto simp: windows_bound_def win_attach_def fun_eq_iff map_option_case
        split: option.splits)
  moreover have "windows_ok (snd (win_attach (wk_next k) ?k))"
    using 2 fresh by (auto simp: windows_ok_def win_attach_def less_Suc_eq)
  ultimately show ?case
    using 2 free
    by (auto simp: LLSegment_create_def windows_ops_def windows_bound_def win_attach_def windows_alloc_def)
next
  case (3 k n bytes)
  then show ?case
    by (auto simp: LLSegment_create_def windows_ops_def windows_bound_def is_already_exists_def)
next
  case (4 k n b sz)
  then have n: "wk_names k n = Some b" and sz: "sz = wk_size k b" "sz \<noteq> 0"
    by (auto simp: windows_bound_def windows_ok_def)
  let ?k = "snd (win_attach b k)"
  have "LLSegment_open windows_ops n k =
      (Some \<lparr>sg_obj = wk_next_handle k, sg_region = (Some b, sz)\<rparr>, ?k)"
    using n sz by (simp add: LLSegment_open_def windows_ops_def win_attach_def)
  moreover have "windows_ok ?k \<and> windows_bound ?k = windows_bound k"
    using 4 by (auto simp: windows_ok_def windows_bound_def win_attach_def less_Suc_eq fun_eq_iff)
  moreover have "windows_ok (win_close (wk_next_handle k) ?k) \<and>
      windows_bound (win_close (wk_next_handle k) ?k) = windows_bound k"
    using 4 n by (fastforce simp: windows_ok_def windows_bound_def win_attach_def win_close_def
        less_Suc_eq fun_eq_iff split: if_splits)
  moreover have "wk_next ?k = wk_next k" "wk_next (win_close (wk_next_handle k) ?k) = wk_next k"
    by (simp_all add: win_attach_def win_close_def)
  ultimately show ?case by (auto simp: windows_ops_def windows_alloc_def)
next
  case (5 k n)
  then show ?case
    by (auto simp: LLSegment_open_def windows_ops_def windows_bound_def)
next
  case (6 n k)
  then show ?case by (simp add: LLSegment_unlink_def)
qed

end
