(* ===== verification/Publisher.thy ===== *)
theory Publisher
  imports Frames Segment
begin

text \<open>
  \<open>LLPublisher\<close> (\<open>src/llpublisher.cpp\<close>): creating a segment, with the reclaim of an abandoned
  one, the frame path \<open>begin_write\<close> / \<open>commit\<close> / \<open>cancel_write\<close> / \<open>publish\<close>, the two command
  rings, the rate gate and the accessors.  An operation takes the publisher and the heap of
  mapped objects and returns both; \<open>clk\<close> gives the readings of \<open>now_ns()\<close> inside one call, by
  the position of the call in the source.
\<close>

section \<open>State\<close>

text \<open>
  \<open>p_hdr\<close> is the mapped object: \<open>hdr\<close> and \<open>base\<close> are set together and \<open>hdr\<close> lies at the
  start of the mapping.  \<open>p_pending\<close> is the address of the slot header being written.
\<close>

record LLPublisher =
  p_cfg :: LLConfig
  p_L :: LLLayout
  p_seg :: "LLSegment option"
  p_hdr :: "oid option"
  p_tx :: LLRing
  p_rx :: LLRing
  p_pending :: "addr option"
  p_write_slot :: u32
  p_frame_id :: u64
  p_next_cmd :: u64
  p_sent :: u64
  p_recvd :: u64
  p_dropped :: u64
  p_min_interval_ns :: u64
  p_last_publish_ns :: u64
  p_throttled :: u64

definition LLPublisher_new :: LLPublisher where
  "LLPublisher_new = \<lparr>p_cfg = LLConfig_default, p_L = LLLayout_zero, p_seg = None, p_hdr = None,
     p_tx = LLRing_null, p_rx = LLRing_null, p_pending = None, p_write_slot = 0, p_frame_id = 0,
     p_next_cmd = 1, p_sent = 0, p_recvd = 0, p_dropped = 0, p_min_interval_ns = 0,
     p_last_publish_ns = 0, p_throttled = 0\<rparr>"

section \<open>Creation and destruction\<close>

text \<open>
  Whether the segment that holds the name may be reclaimed, and the name space after the probe
  has been closed again.  A segment that cannot be opened, or does not parse, is reclaimable.
\<close>

definition reclaimable :: "'k bip_ops \<Rightarrow> LLConfig \<Rightarrow> u64 \<Rightarrow> 'k \<Rightarrow> heap \<Rightarrow> bool \<times> 'k" where
  "reclaimable ops cfg now k hp =
     (case LLSegment_open ops (cfg_name cfg) k of
        (None, k1) \<Rightarrow> (True, k1)
      | (Some existing, k1) \<Rightarrow>
          (case (seg_address existing, validate_header (seg_address existing) (seg_size existing) hp) of
             (Some b, Some existing_layout) \<Rightarrow>
               let eh = m_hdr (hp b);
                   shut = h_shutdown eh \<noteq> 0;
                   age_ns = now - h_last_heartbeat_ns eh;
                   stale_ns = ucast (cfg_stale_producer_ms cfg) * 1000000
               in shut \<or> age_ns \<ge> stale_ns
           | _ \<Rightarrow> True,
           LLSegment_destroy ops (Some existing) k1))"

text \<open>The first creation attempt, and the second one when the name was taken and reclaimed.\<close>

definition acquire_segment :: "platform \<Rightarrow> 'k bip_ops \<Rightarrow> LLConfig \<Rightarrow> u64 \<Rightarrow> 'k \<Rightarrow> heap
    \<Rightarrow> (LLStatus + LLSegment) \<times> 'k" where
  "acquire_segment pf ops cfg now k hp =
     (let total = L_total_size (compute_layout cfg);
          finish = (\<lambda>seg exists k'. case seg of
              Some s \<Rightarrow> (Inr s, k')
            | None \<Rightarrow> (Inl (if exists then AlreadyExists else MappingFailure), k'))
      in case LLSegment_create pf ops (cfg_name cfg) total k of
           ((seg, exists), k1) \<Rightarrow>
             if seg = None \<and> exists then
               case reclaimable ops cfg now k1 hp of
                 (reclaim, k2) \<Rightarrow>
                   if \<not> reclaim then (Inl AlreadyExists, k2)
                   else case LLSegment_create pf ops (cfg_name cfg) total
                               (LLSegment_unlink pf ops (cfg_name cfg) k2) of
                          ((seg', exists'), k3) \<Rightarrow> finish seg' exists' k3
             else finish seg exists k1)"

text \<open>
  \<open>LLPublisher::create\<close>.  The readings are \<open>clk 0\<close> for the age of the incumbent, \<open>clk 1\<close> in
  \<open>make_session_id\<close> and \<open>clk 2\<close> for the first heartbeat.
\<close>

definition publisher_create :: "platform \<Rightarrow> 'k bip_ops \<Rightarrow> LLConfig \<Rightarrow> clock \<Rightarrow> u64 \<Rightarrow> 'k \<Rightarrow> heap
    \<Rightarrow> (LLPublisher option \<times> LLStatus) \<times> 'k \<times> heap" where
  "publisher_create pf ops cfg clk wall k hp =
     (if \<not> config_valid cfg then ((None, InvalidConfig), k, hp)
      else let L = compute_layout cfg in
        if L_total_size L = 0 \<or> L_total_size L > kMaxSegment then ((None, InvalidConfig), k, hp)
        else case acquire_segment pf ops cfg (clk 0) k hp of
          (Inl s, k1) \<Rightarrow> ((None, s), k1, hp)
        | (Inr seg, k1) \<Rightarrow>
            (case seg_address seg of
               None \<Rightarrow> ((None, Internal), k1, hp)
             | Some b \<Rightarrow>
                 let hp1 = hp(b := init_segment cfg (make_session_id wall (clk 1)) (clk 2) (hp b));
                     p = LLPublisher_new\<lparr>p_cfg := cfg, p_L := L, p_seg := Some seg, p_hdr := Some b,
                           p_tx := \<lparr>rg_base = Some b, rg_offset = L_downstream_offset L, rg_L = L,
                                    rg_slots = cfg_command_slots cfg,
                                    rg_max_bytes = cfg_max_command_bytes cfg\<rparr>,
                           p_rx := \<lparr>rg_base = Some b, rg_offset = L_upstream_offset L, rg_L = L,
                                    rg_slots = cfg_command_slots cfg,
                                    rg_max_bytes = cfg_max_command_bytes cfg\<rparr>\<rparr>
                 in ((Some p, LLStatus_Ok), k1, hp1)))"

text \<open>\<open>~LLPublisher\<close>: say goodbye, unlink the name, then release the mapping.\<close>

definition publisher_destroy :: "platform \<Rightarrow> 'k bip_ops \<Rightarrow> LLPublisher \<Rightarrow> 'k \<Rightarrow> heap \<Rightarrow> 'k \<times> heap" where
  "publisher_destroy pf ops p k hp =
     (case p_hdr p of
        None \<Rightarrow> (LLSegment_destroy ops (p_seg p) k, hp)
      | Some b \<Rightarrow>
          (LLSegment_destroy ops (p_seg p) (LLSegment_unlink pf ops (cfg_name (p_cfg p)) k),
           hp(b := (hp b)\<lparr>m_hdr := (m_hdr (hp b))\<lparr>h_shutdown := 1\<rparr>\<rparr>)))"

section \<open>Frames\<close>

definition begin_write :: "u32 \<Rightarrow> u32 \<Rightarrow> clock \<Rightarrow> LLPublisher \<Rightarrow> heap
    \<Rightarrow> addr option \<times> LLPublisher \<times> heap" where
  "begin_write width height clk m hp =
     (case p_hdr m of
        None \<Rightarrow> (None, m, hp)
      | Some b \<Rightarrow>
          if p_pending m \<noteq> None then (None, m, hp)
          else if width = 0 \<or> height = 0 then (None, m, hp)
          else if p_min_interval_ns m \<noteq> 0 \<and> p_last_publish_ns m \<noteq> 0 \<and>
                  clk 0 - p_last_publish_ns m < p_min_interval_ns m
          then (None, m\<lparr>p_throttled := p_throttled m + 1\<rparr>, hp)
          else let bpp = cfg_bytes_per_pixel (p_cfg m);
                   bytes = ucast width * ucast height * ucast bpp :: u64
            in if bytes > max_payload (p_cfg m) then (None, m, hp)
               else let ws = (p_write_slot m + 1) mod cfg_slot_count (p_cfg m);
                        s = slot_at (p_L m) ws;
                        sh = m_slots (hp b) s;
                        sh1 = sh\<lparr>s_seq := s_seq sh + 1, s_width := width, s_height := height,
                                 s_stride := width * bpp, s_payload_bytes := ucast bytes\<rparr>
                 in (Some (slot_payload (p_L m) ws), m\<lparr>p_write_slot := ws, p_pending := Some s\<rparr>,
                     hp(b := set_slot s sh1 (hp b))))"

text \<open>
  \<open>pending\<close> is only ever set with \<open>hdr\<close> set; the branch with a pending slot and no header is
  the null dereference the source cannot reach.
\<close>

definition cancel_write :: "LLPublisher \<Rightarrow> heap \<Rightarrow> LLPublisher \<times> heap" where
  "cancel_write m hp =
     (case (p_pending m, p_hdr m) of
        (Some s, Some b) \<Rightarrow>
          (m\<lparr>p_pending := None\<rparr>,
           hp(b := set_slot s ((m_slots (hp b) s)\<lparr>s_seq := s_seq (m_slots (hp b) s) + 1\<rparr>) (hp b)))
      | _ \<Rightarrow> (m, hp))"

definition commit :: "u64 \<Rightarrow> clock \<Rightarrow> LLPublisher \<Rightarrow> heap \<Rightarrow> LLPublisher \<times> heap" where
  "commit timestamp_ns clk m hp =
     (case (p_pending m, p_hdr m) of
        (Some s, Some b) \<Rightarrow>
          let fid = p_frame_id m + 1;
              sh = m_slots (hp b) s;
              sh1 = sh\<lparr>s_frame_id := fid,
                       s_timestamp_ns := (if timestamp_ns \<noteq> 0 then timestamp_ns else clk 0),
                       s_seq := s_seq sh + 1\<rparr>;
              sm1 = set_slot s sh1 (hp b);
              now = clk 1;
              sm2 = sm1\<lparr>m_hdr := (m_hdr sm1)\<lparr>h_latest := push_bit 2 fid OR ucast (p_write_slot m),
                                              h_last_heartbeat_ns := now\<rparr>\<rparr>
          in (m\<lparr>p_frame_id := fid, p_pending := None, p_last_publish_ns := now\<rparr>, hp(b := sm2))
      | _ \<Rightarrow> (m, hp))"

text \<open>The row-by-row copy of \<open>publish\<close>, for a source that is not tightly packed.\<close>

fun copy_rows :: "bytemem \<Rightarrow> addr \<Rightarrow> u8 list \<Rightarrow> u32 \<Rightarrow> u32 \<Rightarrow> u32 \<Rightarrow> nat \<Rightarrow> bytemem" where
  "copy_rows bm dst src dst_stride src_stride y 0 = bm"
| "copy_rows bm dst src dst_stride src_stride y (Suc n) =
     copy_rows
       (write_bytes bm (dst + ucast y * ucast dst_stride)
          (take (unat dst_stride) (drop (unat (ucast y * ucast src_stride :: u64)) src)))
       dst src dst_stride src_stride (y + 1) n"

definition copy_in :: "bytemem \<Rightarrow> addr \<Rightarrow> u8 list \<Rightarrow> u32 \<Rightarrow> u32 \<Rightarrow> u32 \<Rightarrow> bytemem" where
  "copy_in bm dst src height dst_stride src_stride =
     (if src_stride = dst_stride
      then write_bytes bm dst (take (unat (ucast dst_stride * ucast height :: u64)) src)
      else copy_rows bm dst src dst_stride src_stride 0 (unat height))"

text \<open>
  \<open>publish\<close>: \<open>src\<close> is the caller's buffer, or nothing for a null pointer.  \<open>begin_write\<close> reads
  the clock first, \<open>commit\<close> after it.
\<close>

definition publish :: "u8 list option \<Rightarrow> u32 \<Rightarrow> u32 \<Rightarrow> u32 \<Rightarrow> clock \<Rightarrow> LLPublisher \<Rightarrow> heap
    \<Rightarrow> bool \<times> LLPublisher \<times> heap" where
  "publish src width height src_stride clk m hp =
     (case src of
        None \<Rightarrow> (False, m, hp)
      | Some s \<Rightarrow>
          (case begin_write width height clk m hp of
             (None, m1, hp1) \<Rightarrow> (False, m1, hp1)
           | (Some dst, m1, hp1) \<Rightarrow>
               (case p_hdr m1 of
                  None \<Rightarrow> (False, m1, hp1)
                | Some b \<Rightarrow>
                    let dst_stride = width * cfg_bytes_per_pixel (p_cfg m1);
                        st = (if src_stride = 0 then dst_stride else src_stride);
                        hp2 = hp1(b := (hp1 b)\<lparr>m_bytes :=
                                copy_in (m_bytes (hp1 b)) dst s height dst_stride st\<rparr>)
                    in case commit 0 (\<lambda>i. clk (Suc i)) m1 hp2 of (m2, hp3) \<Rightarrow> (True, m2, hp3))))"

definition heartbeat :: "clock \<Rightarrow> LLPublisher \<Rightarrow> heap \<Rightarrow> heap" where
  "heartbeat clk m hp =
     (case p_hdr m of
        None \<Rightarrow> hp
      | Some b \<Rightarrow> hp(b := (hp b)\<lparr>m_hdr := (m_hdr (hp b))\<lparr>h_last_heartbeat_ns := clk 0\<rparr>\<rparr>))"

section \<open>Commands\<close>

text \<open>The result is the id stored through \<open>out_id\<close>, or nothing when the call returns false.\<close>

definition pub_send :: "u32 \<Rightarrow> u8 list option \<Rightarrow> u32 \<Rightarrow> u64 \<Rightarrow> clock \<Rightarrow> LLPublisher \<Rightarrow> heap
    \<Rightarrow> u64 option \<times> LLPublisher \<times> heap" where
  "pub_send ty data sz reply_to clk m hp =
     (if p_hdr m = None then (None, m, hp)
      else let cid = p_next_cmd m in
        case push (p_tx m) ty data sz cid reply_to (clk 0) hp of
          (False, hp1) \<Rightarrow> (None, m\<lparr>p_dropped := p_dropped m + 1\<rparr>, hp1)
        | (True, hp1) \<Rightarrow> (Some cid, m\<lparr>p_next_cmd := p_next_cmd m + 1, p_sent := p_sent m + 1\<rparr>, hp1))"

text \<open>\<open>send_text\<close> narrows \<open>text.size()\<close> to 32 bits.\<close>

definition pub_send_text :: "u32 \<Rightarrow> u8 list \<Rightarrow> u64 \<Rightarrow> clock \<Rightarrow> LLPublisher \<Rightarrow> heap
    \<Rightarrow> u64 option \<times> LLPublisher \<times> heap" where
  "pub_send_text ty txt reply_to clk m hp =
     pub_send ty (Some txt) (of_nat (length txt)) reply_to clk m hp"

definition pub_receive :: "LLPublisher \<Rightarrow> heap \<Rightarrow> LLShmCommand option \<times> LLPublisher \<times> heap" where
  "pub_receive m hp =
     (if p_hdr m = None then (None, m, hp)
      else case pop (p_rx m) hp of
             (None, hp1) \<Rightarrow> (None, m, hp1)
           | (Some out, hp1) \<Rightarrow> (Some out, m\<lparr>p_recvd := p_recvd m + 1\<rparr>, hp1))"

section \<open>Rate cap and accessors\<close>

definition set_max_publish_hz :: "(rat \<Rightarrow> rat) \<Rightarrow> rat \<Rightarrow> LLPublisher \<Rightarrow> LLPublisher option" where
  "set_max_publish_hz rnd hz m = map_option (\<lambda>i. m\<lparr>p_min_interval_ns := i\<rparr>) (hz_interval rnd hz)"

definition max_publish_hz :: "(rat \<Rightarrow> rat) \<Rightarrow> LLPublisher \<Rightarrow> rat" where
  "max_publish_hz rnd m = interval_hz rnd (p_min_interval_ns m)"

definition publish_due :: "clock \<Rightarrow> LLPublisher \<Rightarrow> bool" where
  "publish_due clk m =
     (if p_min_interval_ns m = 0 \<or> p_last_publish_ns m = 0 then True
      else clk 0 - p_last_publish_ns m \<ge> p_min_interval_ns m)"

definition pub_session_id :: "LLPublisher \<Rightarrow> heap \<Rightarrow> u64" where
  "pub_session_id m hp = (case p_hdr m of Some b \<Rightarrow> h_session_id (m_hdr (hp b)) | None \<Rightarrow> 0)"

definition outbound_pending :: "LLPublisher \<Rightarrow> heap \<Rightarrow> u32" where
  "outbound_pending m hp = pending (p_tx m) hp"

definition has_subscriber :: "LLPublisher \<Rightarrow> heap \<Rightarrow> bool" where
  "has_subscriber m hp =
     (case p_hdr m of None \<Rightarrow> False | Some b \<Rightarrow> h_command_owner_gen (m_hdr (hp b)) \<noteq> 0)"

definition command_owner_stale :: "clock \<Rightarrow> LLPublisher \<Rightarrow> heap \<Rightarrow> bool" where
  "command_owner_stale clk m hp =
     (case p_hdr m of
        None \<Rightarrow> False
      | Some b \<Rightarrow>
          if h_command_owner_gen (m_hdr (hp b)) = 0 then False
          else let age = clk 0 - h_command_owner_heartbeat_ns (m_hdr (hp b))
               in age \<ge> kCommandOwnerStaleNs)"

section \<open>Invariant\<close>

text \<open>
  Between calls: the write cursor names a slot; at most the slot under the cursor is being
  written; a slot's counter is odd exactly while it is being written; no slot claims more than
  its payload area; and \<open>latest\<close> packs the id of the last committed frame with a slot that
  carries that id.
\<close>

definition frames_inv :: "LLConfig \<Rightarrow> u32 \<Rightarrow> addr option \<Rightarrow> u64 \<Rightarrow> smem \<Rightarrow> bool" where
  "frames_inv c ws pend fid sm \<longleftrightarrow>
     ws < cfg_slot_count c \<and> (pend = None \<or> pend = Some (slot_at (compute_layout c) ws)) \<and>
     (\<forall>i<cfg_slot_count c. odd (s_seq (slot_of c sm i)) \<longleftrightarrow> pend = Some (slot_at (compute_layout c) i)) \<and>
     (\<forall>i<cfg_slot_count c. unat (s_payload_bytes (slot_of c sm i)) \<le> unat (max_payload c)) \<and>
     (\<exists>j<cfg_slot_count c. h_latest (m_hdr sm) = push_bit 2 fid OR ucast j \<and>
        (fid \<noteq> 0 \<longrightarrow> s_frame_id (slot_of c sm j) = fid))"

definition pub_at :: "oid \<Rightarrow> LLPublisher \<Rightarrow> heap \<Rightarrow> bool" where
  "pub_at b m hp \<longleftrightarrow>
     seg_inv (p_cfg m) (hp b) \<and> p_L m = compute_layout (p_cfg m) \<and> p_hdr m = Some b \<and>
     p_tx m = mk_ring (p_cfg m) Downstream b \<and> p_rx m = mk_ring (p_cfg m) Upstream b \<and>
     frames_inv (p_cfg m) (p_write_slot m) (p_pending m) (p_frame_id m) (hp b)"

text \<open>The parts of the segment an operation of the frame path keeps: both command queues.\<close>

definition same_queues :: "LLConfig \<Rightarrow> smem \<Rightarrow> smem \<Rightarrow> bool" where
  "same_queues c sm sm' \<longleftrightarrow> (\<forall>d. ring_queue c d sm' = ring_queue c d sm)"

lemma same_queues_refl [simp]: "same_queues c sm sm"
  by (simp add: same_queues_def)

lemma slot_of_set_slot:
  assumes "config_valid c" and "i < cfg_slot_count c" and "j < cfg_slot_count c"
  shows "slot_of c (set_slot (slot_at (compute_layout c) j) s sm) i = (if i = j then s else slot_of c sm i)"
  using slot_at_eq_iff[OF assms] by (simp add: slot_of_def set_slot_def)

lemma seg_inv_set_slot [simp]: "seg_inv c (set_slot a s sm) = seg_inv c sm"
  by (simp add: seg_inv_def ring_inv_def) (simp add: set_slot_def)

lemma seg_inv_write_payload:
  "i < cfg_slot_count c \<Longrightarrow> length bs \<le> unat (max_payload c) \<Longrightarrow> seg_inv c sm \<Longrightarrow>
   seg_inv c (write_payload c i bs sm)"
  by (auto simp: seg_inv_def ring_inv_def) (simp_all add: write_payload_def)

lemma m_hdr_set_slot [simp]: "m_hdr (set_slot a s sm) = m_hdr sm" "m_bytes (set_slot a s sm) = m_bytes sm"
  by (simp_all add: set_slot_def)

lemma write_payload_hdr [simp]: "m_hdr (write_payload c j bs sm) = m_hdr sm"
  by (simp add: write_payload_def)

lemma slot_count_pos: "config_valid c \<Longrightarrow> 0 < cfg_slot_count c"
  using config_validD(9)[of c] by (simp add: word_less_unat)

lemma next_slot_lt: "config_valid c \<Longrightarrow> (ws + 1) mod cfg_slot_count c < cfg_slot_count c"
  by (simp add: word_mod_less_divisor slot_count_pos)

section \<open>One frame operation at a time\<close>

text \<open>The slot the next write goes to, and its header once the write has begun.\<close>

definition next_slot :: "LLPublisher \<Rightarrow> u32" where
  "next_slot m = (p_write_slot m + 1) mod cfg_slot_count (p_cfg m)"

definition frame_bytes :: "LLConfig \<Rightarrow> u32 \<Rightarrow> u32 \<Rightarrow> u64" where
  "frame_bytes c width height = ucast width * ucast height * ucast (cfg_bytes_per_pixel c)"

definition begun :: "LLConfig \<Rightarrow> u32 \<Rightarrow> u32 \<Rightarrow> LLSlotHeader \<Rightarrow> LLSlotHeader" where
  "begun c width height sh = sh\<lparr>s_seq := s_seq sh + 1, s_width := width, s_height := height,
     s_stride := width * cfg_bytes_per_pixel c, s_payload_bytes := ucast (frame_bytes c width height)\<rparr>"

definition throttle :: "clock \<Rightarrow> LLPublisher \<Rightarrow> bool" where
  "throttle clk m \<longleftrightarrow> \<not> publish_due clk m"

lemma begin_write_eq:
  assumes "pub_at b m hp"
  shows "begin_write width height clk m hp =
    (let c = p_cfg m; a = slot_at (compute_layout c) (next_slot m) in
     if p_pending m \<noteq> None \<or> width = 0 \<or> height = 0 then (None, m, hp)
     else if throttle clk m then (None, m\<lparr>p_throttled := p_throttled m + 1\<rparr>, hp)
     else if frame_bytes c width height > max_payload c then (None, m, hp)
     else (Some (slot_payload (compute_layout c) (next_slot m)),
           m\<lparr>p_write_slot := next_slot m, p_pending := Some a\<rparr>,
           hp(b := set_slot a (begun c width height (m_slots (hp b) a)) (hp b))))"
  using assms
  by (auto simp: begin_write_def pub_at_def Let_def next_slot_def frame_bytes_def begun_def
      throttle_def publish_due_def not_le)

lemma frames_inv_begin:
  assumes "config_valid c" and "L_total_size (compute_layout c) \<le> kMaxSegment"
    and "frames_inv c ws None fid sm" and "j < cfg_slot_count c"
    and "frame_bytes c width height \<le> max_payload c"
  shows "frames_inv c j (Some (slot_at (compute_layout c) j)) fid
    (set_slot (slot_at (compute_layout c) j)
      (begun c width height (m_slots sm (slot_at (compute_layout c) j))) sm)"
proof -
  have "unat (frame_bytes c width height) \<le> unat (max_payload c)"
    using assms(5) by (simp add: word_le_unat)
  then have sz: "unat (ucast (frame_bytes c width height) :: u32) \<le> unat (max_payload c)"
    using payload_small[OF assms(1,2)] by (simp add: unat_ucast_64_32)
  have sl: "m_slots sm (slot_at (compute_layout c) j) = slot_of c sm j" by (simp add: slot_of_def)
  have fid: "s_frame_id (begun c width height sh) = s_frame_id sh" for sh by (simp add: begun_def)
  show ?thesis
    using assms(1,3,4) sz unfolding frames_inv_def sl
    by (auto simp: slot_of_set_slot slot_at_eq_iff fid) (simp_all add: begun_def)
qed

lemma pub_atD:
  assumes "pub_at b m hp"
  shows "config_valid (p_cfg m)" "L_total_size (compute_layout (p_cfg m)) \<le> kMaxSegment"
    "seg_inv (p_cfg m) (hp b)" "p_hdr m = Some b"
    "frames_inv (p_cfg m) (p_write_slot m) (p_pending m) (p_frame_id m) (hp b)"
    "p_tx m = mk_ring (p_cfg m) Downstream b" "p_rx m = mk_ring (p_cfg m) Upstream b"
    "p_L m = compute_layout (p_cfg m)"
  using assms by (auto simp: pub_at_def seg_inv_def)

lemma begin_write_inv:
  assumes "pub_at b m hp" and "begin_write width height clk m hp = (r, m', hp')"
  shows "pub_at b m' hp' \<and> p_cfg m' = p_cfg m \<and> same_queues (p_cfg m) (hp b) (hp' b) \<and> (\<forall>x. x \<noteq> b \<longrightarrow> hp' x = hp x)"
proof -
  note d = pub_atD[OF assms(1)]
  have "frame_bytes (p_cfg m) width height \<le> max_payload (p_cfg m) \<Longrightarrow> p_pending m = None \<Longrightarrow>
    frames_inv (p_cfg m) (next_slot m) (Some (slot_at (compute_layout (p_cfg m)) (next_slot m)))
      (p_frame_id m) (set_slot (slot_at (compute_layout (p_cfg m)) (next_slot m))
      (begun (p_cfg m) width height (m_slots (hp b) (slot_at (compute_layout (p_cfg m)) (next_slot m)))) (hp b))"
    using frames_inv_begin[OF d(1,2), of _ "p_frame_id m" "hp b" "next_slot m" width height] d(5)
      next_slot_lt[OF d(1)] by (auto simp: next_slot_def)
  with assms d show ?thesis
    by (auto simp: begin_write_eq[OF assms(1)] Let_def pub_at_def not_less same_queues_def split: if_splits)
qed

lemma frames_inv_end:
  assumes "config_valid c" and "frames_inv c ws (Some a) fid sm"
    and "s_seq sh = s_seq (m_slots sm a) + 1"
    and "s_payload_bytes sh = s_payload_bytes (m_slots sm a)"
  shows "s_frame_id sh = s_frame_id (m_slots sm a) \<Longrightarrow> frames_inv c ws None fid (set_slot a sh sm)"
    and "s_frame_id sh = fid' \<Longrightarrow>
      frames_inv c ws None fid' ((set_slot a sh sm)\<lparr>m_hdr := h\<lparr>h_latest := push_bit 2 fid' OR ucast ws\<rparr>\<rparr>)"
proof -
  have a: "a = slot_at (compute_layout c) ws" and w: "ws < cfg_slot_count c"
    using assms(2) by (auto simp: frames_inv_def)
  have sl: "m_slots sm (slot_at (compute_layout c) ws) = slot_of c sm ws" by (simp add: slot_of_def)
  have at: "i < cfg_slot_count c \<Longrightarrow>
      slot_of c (set_slot (slot_at (compute_layout c) ws) sh sm) i = (if i = ws then sh else slot_of c sm i)" for i
    using slot_of_set_slot[OF assms(1) _ w] by simp
  show "s_frame_id sh = s_frame_id (m_slots sm a) \<Longrightarrow> frames_inv c ws None fid (set_slot a sh sm)"
    and "s_frame_id sh = fid' \<Longrightarrow>
      frames_inv c ws None fid' ((set_slot a sh sm)\<lparr>m_hdr := h\<lparr>h_latest := push_bit 2 fid' OR ucast ws\<rparr>\<rparr>)"
    using assms slot_at_eq_iff[OF assms(1) w] w unfolding a sl frames_inv_def
    by (auto simp: at)
qed

lemma cancel_write_inv:
  assumes "pub_at b m hp" and "cancel_write m hp = (m', hp')"
  shows "pub_at b m' hp' \<and> p_cfg m' = p_cfg m \<and> same_queues (p_cfg m) (hp b) (hp' b) \<and>
    (\<forall>x. x \<noteq> b \<longrightarrow> hp' x = hp x)"
proof (cases "p_pending m")
  case None
  with assms show ?thesis by (auto simp: cancel_write_def)
next
  case (Some a)
  note d = pub_atD[OF assms(1)]
  from frames_inv_end(1)[OF d(1), of "p_write_slot m" a "p_frame_id m" "hp b"
      "(m_slots (hp b) a)\<lparr>s_seq := s_seq (m_slots (hp b) a) + 1\<rparr>"] d(5) Some
  show ?thesis using assms d Some by (auto simp: cancel_write_def pub_at_def same_queues_def)
qed

definition committed :: "u64 \<Rightarrow> u64 \<Rightarrow> LLSlotHeader \<Rightarrow> LLSlotHeader" where
  "committed fid ts sh = sh\<lparr>s_frame_id := fid, s_timestamp_ns := ts, s_seq := s_seq sh + 1\<rparr>"

lemma commit_eq:
  assumes "pub_at b m hp" and "p_pending m = Some a"
  shows "commit ts clk m hp =
    (m\<lparr>p_frame_id := p_frame_id m + 1, p_pending := None, p_last_publish_ns := clk 1\<rparr>,
     hp(b := (set_slot a (committed (p_frame_id m + 1) (if ts \<noteq> 0 then ts else clk 0) (m_slots (hp b) a)) (hp b))
       \<lparr>m_hdr := (m_hdr (hp b))\<lparr>h_last_heartbeat_ns := clk 1\<rparr>
          \<lparr>h_latest := push_bit 2 (p_frame_id m + 1) OR ucast (p_write_slot m)\<rparr>\<rparr>))"
proof -
  have swap: "h\<lparr>h_latest := x, h_last_heartbeat_ns := y\<rparr> = h\<lparr>h_last_heartbeat_ns := y, h_latest := x\<rparr>"
    for h :: LLHeader and x y by (cases h) simp
  show ?thesis
    using assms pub_atD(4)[OF assms(1)] by (simp add: commit_def Let_def committed_def swap)
qed

lemma commit_inv:
  assumes "pub_at b m hp" and "commit ts clk m hp = (m', hp')"
  shows "pub_at b m' hp' \<and> p_cfg m' = p_cfg m \<and> same_queues (p_cfg m) (hp b) (hp' b) \<and>
    (\<forall>x. x \<noteq> b \<longrightarrow> hp' x = hp x)"
proof (cases "p_pending m")
  case None
  with assms show ?thesis by (auto simp: commit_def)
next
  case (Some a)
  note d = pub_atD[OF assms(1)]
  let ?sh = "committed (p_frame_id m + 1) (if ts \<noteq> 0 then ts else clk 0) (m_slots (hp b) a)"
  have "frames_inv (p_cfg m) (p_write_slot m) None (p_frame_id m + 1) ((set_slot a ?sh (hp b))
      \<lparr>m_hdr := (m_hdr (hp b))\<lparr>h_last_heartbeat_ns := clk 1\<rparr>
         \<lparr>h_latest := push_bit 2 (p_frame_id m + 1) OR ucast (p_write_slot m)\<rparr>\<rparr>)"
    using d(5) Some by (intro frames_inv_end(2)[OF d(1)]) (auto simp: committed_def)
  moreover have "seg_inv (p_cfg m) ((set_slot a ?sh (hp b))
      \<lparr>m_hdr := (m_hdr (hp b))\<lparr>h_last_heartbeat_ns := clk 1\<rparr>
         \<lparr>h_latest := push_bit 2 (p_frame_id m + 1) OR ucast (p_write_slot m)\<rparr>\<rparr>)"
    using d(3) seg_inv_describes[OF d(3)] by (intro seg_inv_hdr) auto
  ultimately show ?thesis
    using assms d Some by (auto simp: commit_eq[OF assms(1) Some] pub_at_def same_queues_def)
qed

text \<open>
  What the caller may do with the pointer \<open>begin_write\<close> returned: store into the payload area of
  the slot under the cursor.
\<close>

definition render :: "u8 list \<Rightarrow> LLPublisher \<Rightarrow> heap \<Rightarrow> heap" where
  "render bs m hp =
     (case (p_hdr m, p_pending m) of
        (Some b, Some a) \<Rightarrow>
          if length bs \<le> unat (max_payload (p_cfg m))
          then hp(b := write_payload (p_cfg m) (p_write_slot m) bs (hp b)) else hp
      | _ \<Rightarrow> hp)"

lemma frames_inv_write_payload [simp]:
  "frames_inv c ws pend fid (write_payload c' j bs sm) = frames_inv c ws pend fid sm"
  by (simp add: frames_inv_def)

lemma render_inv:
  assumes "pub_at b m hp"
  shows "pub_at b m (render bs m hp) \<and> same_queues (p_cfg m) (hp b) (render bs m hp b) \<and>
    (\<forall>x. x \<noteq> b \<longrightarrow> render bs m hp x = hp x)"
proof -
  note d = pub_atD[OF assms]
  have w: "p_write_slot m < cfg_slot_count (p_cfg m)" using d(5) by (simp add: frames_inv_def)
  show ?thesis
    using assms d w seg_inv_write_payload[OF w _ d(3)]
    by (auto simp: render_def pub_at_def same_queues_def split: option.splits)
qed

section \<open>Publishing an image\<close>

lemma copy_rows_eq:
  assumes "y + n < 2 ^ 32" and "\<And>i. y \<le> i \<Longrightarrow> i < y + n \<Longrightarrow> i * unat ss + unat ds \<le> length src"
  shows "copy_rows bm dst src ds ss (of_nat y) n =
    write_bytes bm (dst + of_nat (y * unat ds))
      (concat (map (\<lambda>i. take (unat ds) (drop (i * unat ss) src)) [y..<y + n]))"
  using assms
proof (induction n arbitrary: y bm)
  case 0
  then show ?case by simp
next
  case (Suc n)
  have y: "y < 2 ^ 32" using Suc.prems(1) by simp
  have uc: "(ucast (of_nat y :: u32) :: u64) * ucast s = of_nat (y * unat s)" for s :: u32
  proof -
    have "unat (ucast (of_nat y :: u32) :: u64) = unat (of_nat y :: u64)"
      using y by (simp add: unat_of_nat32 unat_of_nat64)
    then have "(ucast (of_nat y :: u32) :: u64) = of_nat y" using word_unat_eq_iff by blast
    then show ?thesis by simp
  qed
  have "y * unat ss \<le> (2 ^ 32 - 1) * (2 ^ 32 - 1)"
    using y unat_lt32[of ss] by (intro mult_le_mono) auto
  then have off: "unat (ucast (of_nat y :: u32) * ucast ss :: u64) = y * unat ss"
    unfolding uc by (intro unat_of_nat64) simp
  let ?row = "take (unat ds) (drop (y * unat ss) src)"
  have len: "length ?row = unat ds" using Suc.prems(2)[of y] by simp
  have "copy_rows bm dst src ds ss (of_nat y) (Suc n) =
      copy_rows (write_bytes bm (dst + of_nat (y * unat ds)) ?row) dst src ds ss (of_nat (Suc y)) n"
    by (simp add: off) (simp add: uc add.commute)
  also have "\<dots> = write_bytes (write_bytes bm (dst + of_nat (y * unat ds)) ?row)
      (dst + of_nat (Suc y * unat ds))
      (concat (map (\<lambda>i. take (unat ds) (drop (i * unat ss) src)) [Suc y..<Suc y + n]))"
    using Suc.prems by (intro Suc.IH) auto
  also have "\<dots> = write_bytes bm (dst + of_nat (y * unat ds))
      (?row @ concat (map (\<lambda>i. take (unat ds) (drop (i * unat ss) src)) [Suc y..<Suc y + n]))"
    unfolding write_bytes_append len by (simp add: algebra_simps)
  finally show ?case by (simp add: upt_conv_Cons del: upt_Suc)
qed

text \<open>Both branches of the copy store the rows of the image back to back.\<close>

lemma copy_in_eq:
  assumes "height \<noteq> 0" and "(unat height - 1) * unat ss + unat ds \<le> length src"
  shows "copy_in bm dst src height ds ss = write_bytes bm dst (image_rows src (unat ds) (unat ss) (unat height))"
proof (cases "ss = ds")
  case True
  have "unat ds * unat height \<le> (2 ^ 32 - 1) * (2 ^ 32 - 1)"
    using unat_lt32[of ds] unat_lt32[of height] by (intro mult_le_mono) auto
  then have "unat (ucast ds * ucast height :: u64) = unat ds * unat height"
    by (subst unat_mult64) simp_all
  with True show ?thesis by (simp add: copy_in_def image_rows_tight)
next
  case False
  have "i * unat ss + unat ds \<le> length src" if "i < unat height" for i
  proof -
    have "i * unat ss \<le> (unat height - 1) * unat ss" using that by (intro mult_le_mono1) simp
    with assms(2) show ?thesis by linarith
  qed
  then show ?thesis
    using copy_rows_eq[of 0 "unat height" ss ds src bm dst] unat_lt32[of height] False
    by (simp add: copy_in_def image_rows_def)
qed

text \<open>A frame that fits has its geometry stored without truncation.\<close>

definition fits :: "LLConfig \<Rightarrow> u32 \<Rightarrow> u32 \<Rightarrow> bool" where
  "fits c width height \<longleftrightarrow> width \<noteq> 0 \<and> height \<noteq> 0 \<and>
     unat width * unat height * unat (cfg_bytes_per_pixel c) \<le> unat (max_payload c)"

lemma fits_exact:
  assumes "config_valid c" and "L_total_size (compute_layout c) \<le> kMaxSegment" and "fits c width height"
  shows "unat (frame_bytes c width height) = unat width * unat height * unat (cfg_bytes_per_pixel c)"
    and "frame_bytes c width height \<le> max_payload c"
    and "unat (ucast (frame_bytes c width height) :: u32) =
      unat width * unat height * unat (cfg_bytes_per_pixel c)"
    and "unat (width * cfg_bytes_per_pixel c) = unat width * unat (cfg_bytes_per_pixel c)"
proof -
  let ?w = "unat width" and ?h = "unat height" and ?b = "unat (cfg_bytes_per_pixel c)"
  have le: "?w * ?h * ?b \<le> unat (max_payload c)" and h: "0 < ?h"
    using assms(3) by (simp_all add: fits_def unat_gt_0)
  have small: "unat (max_payload c) < 1073741824" using payload_small[OF assms(1,2)] by simp
  note bpp = config_validD(7)[OF assms(1)]
  have "?w * ?h * 1 \<le> ?w * ?h * ?b" using bpp by (intro mult_le_mono) auto
  then have "?w * ?h < 1073741824" using le small by linarith
  then have wh: "unat (ucast width * ucast height :: u64) = ?w * ?h"
    by (subst unat_mult64) simp_all
  show eq: "unat (frame_bytes c width height) = ?w * ?h * ?b"
    unfolding frame_bytes_def using wh le small by (subst unat_mult64) auto
  then show "frame_bytes c width height \<le> max_payload c" using le by (simp add: word_le_unat)
  show "unat (ucast (frame_bytes c width height) :: u32) = ?w * ?h * ?b"
    using eq le small by (simp add: unat_ucast_64_32)
  have "?w * ?b * 1 \<le> ?w * ?b * ?h" using h by (intro mult_le_mono) auto
  moreover have "?w * ?b * ?h = ?w * ?h * ?b" by (simp add: ac_simps)
  ultimately have "?w * ?b < 1073741824" using le small by linarith
  then show "unat (width * cfg_bytes_per_pixel c) = ?w * ?b"
    by (subst unat_mult32) simp_all
qed

lemma begin_write_ok:
  assumes "pub_at b m hp" and "p_pending m = None" and "publish_due clk m" and "fits (p_cfg m) width height"
  shows "begin_write width height clk m hp =
    (let c = p_cfg m; a = slot_at (compute_layout c) (next_slot m) in
     (Some (slot_payload (compute_layout c) (next_slot m)),
      m\<lparr>p_write_slot := next_slot m, p_pending := Some a\<rparr>,
      hp(b := set_slot a (begun c width height (m_slots (hp b) a)) (hp b))))"
  using assms fits_exact(2)[OF pub_atD(1,2)[OF assms(1)] assms(4)]
  by (simp add: begin_write_eq[OF assms(1)] Let_def throttle_def fits_def not_less)

definition published_info :: "LLConfig \<Rightarrow> u64 \<Rightarrow> u64 \<Rightarrow> u32 \<Rightarrow> u32 \<Rightarrow> LLFrameInfo" where
  "published_info c fid ts width height =
     \<lparr>fi_frame_id = fid, fi_timestamp_ns = ts, fi_width = width, fi_height = height,
      fi_stride = width * cfg_bytes_per_pixel c, fi_payload_bytes = ucast (frame_bytes c width height)\<rparr>"

lemma slot_info_published:
  "slot_info (committed fid ts (begun c width height sh)) = published_info c fid ts width height"
  "s_payload_bytes (committed fid ts (begun c width height sh)) = ucast (frame_bytes c width height)"
  "s_seq (committed fid ts (begun c width height sh)) = s_seq sh + 2"
  by (simp_all add: slot_info_def committed_def begun_def published_info_def)

text \<open>The memory \<open>publish\<close> leaves behind.\<close>

definition published_mem :: "LLConfig \<Rightarrow> u32 \<Rightarrow> u64 \<Rightarrow> u64 \<Rightarrow> u64 \<Rightarrow> u32 \<Rightarrow> u32 \<Rightarrow> u8 list \<Rightarrow> smem \<Rightarrow> smem" where
  "published_mem c j fid ts now width height bs sm =
     (let a = slot_at (compute_layout c) j in
      (set_slot a (committed fid ts (begun c width height (m_slots sm a))) (write_payload c j bs sm))
        \<lparr>m_hdr := (m_hdr sm)\<lparr>h_last_heartbeat_ns := now, h_latest := push_bit 2 fid OR ucast j\<rparr>\<rparr>)"

lemma publish_eq:
  assumes "pub_at b m hp" and "p_pending m = None" and "publish_due clk m" and "fits (p_cfg m) width height"
    and "st = (if src_stride = 0 then width * cfg_bytes_per_pixel (p_cfg m) else src_stride)"
    and "(unat height - 1) * unat st + unat width * unat (cfg_bytes_per_pixel (p_cfg m)) \<le> length src"
  shows "publish (Some src) width height src_stride clk m hp =
    (True, m\<lparr>p_write_slot := next_slot m, p_frame_id := p_frame_id m + 1, p_last_publish_ns := clk 2\<rparr>,
     hp(b := published_mem (p_cfg m) (next_slot m) (p_frame_id m + 1) (clk 1) (clk 2) width height
       (image_rows src (unat width * unat (cfg_bytes_per_pixel (p_cfg m))) (unat st) (unat height)) (hp b)))"
proof -
  let ?c = "p_cfg m" and ?a = "slot_at (compute_layout (p_cfg m)) (next_slot m)"
  note d = pub_atD[OF assms(1)]
  have h: "height \<noteq> 0" using assms(4) by (simp add: fits_def)
  note ds = fits_exact(4)[OF d(1,2) assms(4)]
  have copy: "copy_in bm dst src height (width * cfg_bytes_per_pixel ?c) st =
      write_bytes bm dst (image_rows src (unat width * unat (cfg_bytes_per_pixel ?c)) (unat st) (unat height))"
    for bm dst using copy_in_eq[OF h, of st "width * cfg_bytes_per_pixel ?c" src bm dst] assms(6) by (simp add: ds)
  have swap: "h\<lparr>h_latest := x, h_last_heartbeat_ns := y\<rparr> = h\<lparr>h_last_heartbeat_ns := y, h_latest := x\<rparr>"
    for h :: LLHeader and x y by (cases h) simp
  show ?thesis
    using d(4) assms(2)
    unfolding publish_def begin_write_ok[OF assms(1-4)]
    by (simp add: Let_def assms(5)[symmetric] copy commit_def published_mem_def committed_def swap
        set_slot_def write_payload_def numeral_2_eq_2)
qed

lemma published_mem_frames:
  assumes "config_valid c" and "L_total_size (compute_layout c) \<le> kMaxSegment" and "j < cfg_slot_count c"
    and "length bs = unat (ucast (frame_bytes c width height) :: u32)" and "length bs \<le> unat (max_payload c)"
    and "i < cfg_slot_count c" and "unat (s_payload_bytes (slot_of c sm i)) \<le> unat (max_payload c)"
  shows "slot_frame c (published_mem c j fid ts now width height bs sm) i =
    (if i = j then (published_info c fid ts width height, bs) else slot_frame c sm i)"
proof -
  have len: "length bs \<le> 2 ^ 64" using assms(4) unat_lt32[of "ucast (frame_bytes c width height)"] by simp
  have slot: "slot_of c (published_mem c j fid ts now width height bs sm) i =
      (if i = j then committed fid ts (begun c width height (slot_of c sm j)) else slot_of c sm i)"
    using slot_of_set_slot[OF assms(1) assms(6,3)]
    by (simp add: published_mem_def Let_def slot_of_def write_payload_def)
  have bytes: "m_bytes (published_mem c j fid ts now width height bs sm) =
      write_bytes (m_bytes sm) (slot_payload (compute_layout c) j) bs"
    by (simp add: published_mem_def Let_def write_payload_def)
  have other: "read_bytes (write_bytes (m_bytes sm) (slot_payload (compute_layout c) j) bs)
      (slot_payload (compute_layout c) i) (unat (s_payload_bytes (slot_of c sm i))) =
      read_bytes (m_bytes sm) (slot_payload (compute_layout c) i) (unat (s_payload_bytes (slot_of c sm i)))"
    if "i \<noteq> j"
  proof -
    have "unat i \<noteq> unat j" using that word_unat_eq_iff by blast
    then show ?thesis
      unfolding slot_region(2)[OF assms(1,6)] slot_region(2)[OF assms(1,3)]
      using assms(1,5,7) slot_region(4)[OF assms(1,6)] slot_region(4)[OF assms(1,3)]
      by (intro read_region_write) simp_all
  qed
  show ?thesis
    using len other assms(4) read_write_bytes[OF len]
    by (auto simp: slot_frame_def slot_bytes_def slot bytes slot_info_published)
qed

lemma frames_inv_payload:
  "frames_inv c ws pend fid sm \<Longrightarrow> i < cfg_slot_count c \<Longrightarrow>
   unat (s_payload_bytes (slot_of c sm i)) \<le> unat (max_payload c)"
  by (simp add: frames_inv_def)

text \<open>\<open>publish\<close> is \<open>begin_write\<close>, a store of the image and \<open>commit\<close>.\<close>

lemma publish_steps:
  assumes "pub_at b m hp" and "p_pending m = None" and "publish_due clk m" and "fits (p_cfg m) width height"
    and "st = (if src_stride = 0 then width * cfg_bytes_per_pixel (p_cfg m) else src_stride)"
    and "(unat height - 1) * unat st + unat width * unat (cfg_bytes_per_pixel (p_cfg m)) \<le> length src"
    and "begin_write width height clk m hp = (Some dst, m1, hp1)"
  shows "publish (Some src) width height src_stride clk m hp =
    (True, commit 0 (\<lambda>i. clk (Suc i)) m1 (render (image_rows src
       (unat width * unat (cfg_bytes_per_pixel (p_cfg m))) (unat st) (unat height)) m1 hp1))"
proof -
  note d = pub_atD[OF assms(1)]
  have h: "height \<noteq> 0" "0 < unat height" using assms(4) by (simp_all add: fits_def unat_gt_0)
  note ds = fits_exact(4)[OF d(1,2) assms(4)]
  have copy: "copy_in bm dst src height (width * cfg_bytes_per_pixel (p_cfg m)) st = write_bytes bm dst
      (image_rows src (unat width * unat (cfg_bytes_per_pixel (p_cfg m))) (unat st) (unat height))" for bm dst
    using copy_in_eq[OF h(1), of st "width * cfg_bytes_per_pixel (p_cfg m)" src bm dst] assms(6) by (simp add: ds)
  have "length (image_rows src (unat width * unat (cfg_bytes_per_pixel (p_cfg m))) (unat st) (unat height)) \<le>
      unat (max_payload (p_cfg m))"
    using length_image_rows[OF h(2) assms(6)] assms(4) by (simp add: fits_def ac_simps)
  then show ?thesis
    using assms(7) d(4) unfolding begin_write_ok[OF assms(1-4)]
    by (auto simp: publish_def begin_write_ok[OF assms(1-4)] Let_def assms(5)[symmetric] copy render_def
        write_payload_def)
qed

text \<open>
  What \<open>publish\<close> leaves to its caller: the size of the frame does not overflow 64 bits, and the
  buffer of a frame that fits holds its last row.
\<close>

definition source_ok :: "LLConfig \<Rightarrow> u32 \<Rightarrow> u32 \<Rightarrow> u32 \<Rightarrow> u8 list option \<Rightarrow> bool" where
  "source_ok c width height src_stride src \<longleftrightarrow>
     (\<forall>s. src = Some s \<longrightarrow>
        unat width * unat height * unat (cfg_bytes_per_pixel c) < 2 ^ 64 \<and>
        (fits c width height \<longrightarrow>
          (unat height - 1) * unat (if src_stride = 0 then width * cfg_bytes_per_pixel c else src_stride) +
          unat width * unat (cfg_bytes_per_pixel c) \<le> length s))"

text \<open>
  A frame whose size does not overflow 64 bits is accepted only when it fits its slot.
\<close>

lemma accepted_fits:
  assumes "pub_at b m hp" and "unat width * unat height * unat (cfg_bytes_per_pixel (p_cfg m)) < 2 ^ 64"
    and "begin_write width height clk m hp = (Some dst, m1, hp1)"
  shows "p_pending m = None \<and> publish_due clk m \<and> fits (p_cfg m) width height"
proof -
  let ?c = "p_cfg m"
  have r: "p_pending m = None" "width \<noteq> 0" "height \<noteq> 0" "publish_due clk m"
    "frame_bytes ?c width height \<le> max_payload ?c"
    using assms(3) by (auto simp: begin_write_eq[OF assms(1)] Let_def throttle_def not_less split: if_splits)
  have bpp: "0 < unat (cfg_bytes_per_pixel ?c)" using config_validD(7)[OF pub_atD(1)[OF assms(1)]] .
  have "unat width * unat height * 1 \<le> unat width * unat height * unat (cfg_bytes_per_pixel ?c)"
    using bpp by (intro mult_le_mono) auto
  then have "unat width * unat height < 2 ^ 64" using assms(2) by linarith
  then have "unat (frame_bytes ?c width height) = unat width * unat height * unat (cfg_bytes_per_pixel ?c)"
    using assms(2) by (simp add: frame_bytes_def unat_mult64)
  with r show ?thesis by (simp add: fits_def word_le_unat)
qed

lemma publish_inv:
  assumes "pub_at b m hp" and "source_ok (p_cfg m) width height src_stride src"
    and "publish src width height src_stride clk m hp = (r, m', hp')"
  shows "pub_at b m' hp' \<and> p_cfg m' = p_cfg m \<and> same_queues (p_cfg m) (hp b) (hp' b) \<and>
    (\<forall>x. x \<noteq> b \<longrightarrow> hp' x = hp x)"
proof (cases src)
  case None
  with assms show ?thesis by (simp add: publish_def)
next
  case (Some s)
  obtain dst m1 hp1 where bw: "begin_write width height clk m hp = (dst, m1, hp1)" by (metis prod_cases3)
  note i1 = begin_write_inv[OF assms(1) bw]
  show ?thesis
  proof (cases dst)
    case None
    with Some bw assms(3) i1 show ?thesis by (simp add: publish_def)
  next
    case (Some dst')
    note bw' = bw[unfolded Some]
    have ok: "p_pending m = None \<and> publish_due clk m \<and> fits (p_cfg m) width height"
      using accepted_fits[OF assms(1) _ bw'] assms(2) \<open>src = Some s\<close> by (simp add: source_ok_def)
    let ?st = "if src_stride = 0 then width * cfg_bytes_per_pixel (p_cfg m) else src_stride"
    let ?hp2 = "render (image_rows s (unat width * unat (cfg_bytes_per_pixel (p_cfg m))) (unat ?st)
        (unat height)) m1 hp1"
    have "publish src width height src_stride clk m hp = (True, commit 0 (\<lambda>i. clk (Suc i)) m1 ?hp2)"
      unfolding \<open>src = Some s\<close>
      by (rule publish_steps[OF assms(1) _ _ _ refl _ bw'])
        (use ok assms(2) \<open>src = Some s\<close> in \<open>auto simp: source_ok_def\<close>)
    with assms(3) have "commit 0 (\<lambda>i. clk (Suc i)) m1 ?hp2 = (m', hp')" by simp
    then obtain hp2 where "hp2 = ?hp2" and cm: "commit 0 (\<lambda>i. clk (Suc i)) m1 hp2 = (m', hp')" by simp
    moreover have "pub_at b m1 hp1" using i1 by simp
    ultimately have "pub_at b m1 hp2 \<and> same_queues (p_cfg m1) (hp1 b) (hp2 b) \<and> (\<forall>x. x \<noteq> b \<longrightarrow> hp2 x = hp1 x)"
      using render_inv by blast
    with commit_inv[OF _ cm, of b] i1 show ?thesis by (auto simp: same_queues_def)
  qed
qed

section \<open>Commands and housekeeping\<close>

lemma frames_inv_only:
  "m_hdr sm' = m_hdr sm \<Longrightarrow> m_slots sm' = m_slots sm \<Longrightarrow>
   frames_inv c ws pend fid sm' = frames_inv c ws pend fid sm"
  by (simp add: frames_inv_def slot_of_def)

lemma pub_at_cmd:
  assumes "pub_at b m hp" and "cmd_effect (p_cfg m) d q (hp b) sm'"
  shows "pub_at b m (hp(b := sm'))"
  using assms frames_inv_only[of sm' "hp b"] by (auto simp: pub_at_def cmd_effect_def)

lemma pub_at_counters [simp]:
  "pub_at b (m\<lparr>p_next_cmd := x, p_sent := y\<rparr>) hp = pub_at b m hp"
  "pub_at b (m\<lparr>p_dropped := x\<rparr>) hp = pub_at b m hp"
  "pub_at b (m\<lparr>p_recvd := x\<rparr>) hp = pub_at b m hp"
  "pub_at b (m\<lparr>p_min_interval_ns := x\<rparr>) hp = pub_at b m hp"
  by (simp_all add: pub_at_def)

lemma pub_send_accepted:
  assumes "pub_at b m hp" and "length (send_data data sz) = unat sz"
    and "sz \<le> cfg_max_command_bytes (p_cfg m)"
    and "length (ring_queue (p_cfg m) Downstream (hp b)) < unat (cfg_command_slots (p_cfg m))"
  shows "\<exists>sm'. pub_send ty data sz reply_to clk m hp =
      (Some (p_next_cmd m), m\<lparr>p_next_cmd := p_next_cmd m + 1, p_sent := p_sent m + 1\<rparr>, hp(b := sm')) \<and>
    cmd_effect (p_cfg m) Downstream (ring_queue (p_cfg m) Downstream (hp b) @
      [mk_command ty (send_data data sz) (p_next_cmd m) reply_to (clk 0)]) (hp b) sm'"
proof -
  note d = pub_atD[OF assms(1)]
  from push_seg[where hp = hp, OF d(3) assms(2-4), of ty "p_next_cmd m" reply_to "clk 0"] d(4,6)
  show ?thesis by (auto simp: pub_send_def Let_def)
qed

lemma pub_send_refused:
  assumes "pub_at b m hp"
    and "sz > cfg_max_command_bytes (p_cfg m) \<or>
      length (ring_queue (p_cfg m) Downstream (hp b)) = unat (cfg_command_slots (p_cfg m))"
  shows "pub_send ty data sz reply_to clk m hp = (None, m\<lparr>p_dropped := p_dropped m + 1\<rparr>, hp)"
  using push_refused[where hp = hp, OF pub_atD(3)[OF assms(1)] assms(2)] pub_atD(4,6)[OF assms(1)]
  by (simp add: pub_send_def Let_def)

lemma pub_receive_eq:
  assumes "pub_at b m hp"
  shows "(case ring_queue (p_cfg m) Upstream (hp b) of
      [] \<Rightarrow> pub_receive m hp = (None, m, hp)
    | x # q \<Rightarrow> \<exists>sm'. pub_receive m hp = (Some x, m\<lparr>p_recvd := p_recvd m + 1\<rparr>, hp(b := sm')) \<and>
        cmd_effect (p_cfg m) Upstream q (hp b) sm')"
  using pop_seg[where hp = hp, OF pub_atD(3)[OF assms], of Upstream] pub_atD(4,7)[OF assms]
  by (auto simp: pub_receive_def split: list.splits)

lemma pub_send_inv:
  assumes "pub_at b m hp" and "length (send_data data sz) = unat sz"
    and "pub_send ty data sz reply_to clk m hp = (r, m', hp')"
  shows "pub_at b m' hp' \<and> p_cfg m' = p_cfg m \<and> (\<forall>x. x \<noteq> b \<longrightarrow> hp' x = hp x)"
proof (cases "sz > cfg_max_command_bytes (p_cfg m) \<or>
    length (ring_queue (p_cfg m) Downstream (hp b)) = unat (cfg_command_slots (p_cfg m))")
  case True
  from pub_send_refused[OF assms(1) True, of ty data reply_to clk] assms(1,3) show ?thesis by auto
next
  case False
  then have "sz \<le> cfg_max_command_bytes (p_cfg m)"
    "length (ring_queue (p_cfg m) Downstream (hp b)) < unat (cfg_command_slots (p_cfg m))"
    using queue_bounded[OF pub_atD(3)[OF assms(1)], of Downstream] by auto
  from pub_send_accepted[OF assms(1,2) this, of ty reply_to clk] assms(1,3) pub_at_cmd[OF assms(1)]
  show ?thesis by auto
qed

lemma pub_receive_inv:
  assumes "pub_at b m hp" and "pub_receive m hp = (r, m', hp')"
  shows "pub_at b m' hp' \<and> p_cfg m' = p_cfg m \<and> (\<forall>x. x \<noteq> b \<longrightarrow> hp' x = hp x)"
  using pub_receive_eq[OF assms(1)] assms pub_at_cmd[OF assms(1)]
  by (auto split: list.splits)

lemma frames_inv_hdr:
  "h_latest h = h_latest (m_hdr sm) \<Longrightarrow> frames_inv c ws pend fid (sm\<lparr>m_hdr := h\<rparr>) = frames_inv c ws pend fid sm"
  by (simp add: frames_inv_def)

lemma heartbeat_inv:
  assumes "pub_at b m hp"
  shows "pub_at b m (heartbeat clk m hp) \<and> same_queues (p_cfg m) (hp b) (heartbeat clk m hp b) \<and>
    h_last_heartbeat_ns (m_hdr (heartbeat clk m hp b)) = clk 0 \<and> (\<forall>x. x \<noteq> b \<longrightarrow> heartbeat clk m hp x = hp x)"
proof -
  note d = pub_atD[OF assms]
  have "seg_inv (p_cfg m) ((hp b)\<lparr>m_hdr := (m_hdr (hp b))\<lparr>h_last_heartbeat_ns := clk 0\<rparr>\<rparr>)"
    using seg_inv_describes[OF d(3)] d(3) by (intro seg_inv_hdr) simp_all
  then show ?thesis using assms d by (simp add: heartbeat_def pub_at_def frames_inv_hdr same_queues_def)
qed

section \<open>Creation\<close>

lemma frames_inv_init:
  assumes "config_valid c"
  shows "frames_inv c 0 None 0 (init_segment c s t sm)"
proof -
  have "slot_of c (init_segment c s t sm) i = LLSlotHeader_zero" if "i < cfg_slot_count c" for i
    using init_segment_slot[of "unat i" c s t sm] that by (simp add: slot_of_def word_less_unat)
  moreover have "h_latest (m_hdr (init_segment c s t sm)) = 0"
    by (simp add: init_segment_def Let_def LLHeader_zero_def)
  ultimately show ?thesis
    using slot_count_pos[OF assms] by (auto simp: frames_inv_def LLSlotHeader_zero_def intro!: exI[of _ 0])
qed

lemma init_header [simp]:
  "h_latest (m_hdr (init_segment c s t sm)) = 0" "h_shutdown (m_hdr (init_segment c s t sm)) = 0"
  "h_command_owner_gen (m_hdr (init_segment c s t sm)) = 0"
  "h_session_id (m_hdr (init_segment c s t sm)) = s" "h_last_heartbeat_ns (m_hdr (init_segment c s t sm)) = t"
  by (simp_all add: init_segment_def Let_def LLHeader_zero_def)

text \<open>The publisher of a segment that has just been created.\<close>

definition new_publisher :: "LLConfig \<Rightarrow> LLSegment \<Rightarrow> oid \<Rightarrow> LLPublisher" where
  "new_publisher cfg seg b = LLPublisher_new\<lparr>p_cfg := cfg, p_L := compute_layout cfg, p_seg := Some seg,
     p_hdr := Some b, p_tx := mk_ring cfg Downstream b, p_rx := mk_ring cfg Upstream b\<rparr>"

lemma new_publisher_at:
  assumes "config_valid cfg" and "L_total_size (compute_layout cfg) \<le> kMaxSegment"
  shows "pub_at b (new_publisher cfg seg b) (hp(b := init_segment cfg s t sm))"
  using seg_inv_init(1)[OF assms] frames_inv_init[OF assms(1)]
  by (simp add: pub_at_def new_publisher_def LLPublisher_new_def)

lemma total_nonzero: "config_valid c \<Longrightarrow> L_total_size (compute_layout c) \<noteq> 0"
  using header_fits[of c] by (auto simp: word_le_unat)

lemma publisher_create_eq:
  assumes "config_valid cfg" and "L_total_size (compute_layout cfg) \<le> kMaxSegment"
  shows "publisher_create pf ops cfg clk wall k hp =
    (case acquire_segment pf ops cfg (clk 0) k hp of
       (Inl s, k1) \<Rightarrow> ((None, s), k1, hp)
     | (Inr seg, k1) \<Rightarrow>
         (case seg_address seg of
            None \<Rightarrow> ((None, Internal), k1, hp)
          | Some b \<Rightarrow> ((Some (new_publisher cfg seg b), LLStatus_Ok), k1,
              hp(b := init_segment cfg (make_session_id wall (clk 1)) (clk 2) (hp b)))))"
  using assms total_nonzero[OF assms(1)]
  by (auto simp: publisher_create_def Let_def new_publisher_def mk_ring_def not_less
      split: prod.splits sum.splits option.splits)

text \<open>Whatever the name space does, a publisher that is returned is well formed.\<close>

lemma acquire_segment_Inr:
  "acquire_segment pf ops cfg now k hp = (Inr seg, k') \<Longrightarrow>
   (\<exists>b. seg_address seg = Some b) \<and> L_total_size (compute_layout cfg) \<le> seg_size seg"
  by (auto simp: acquire_segment_def Let_def dest!: LLSegment_create_Some
      split: prod.splits option.splits if_splits)

lemma publisher_create_Some:
  assumes "publisher_create pf ops cfg clk wall k hp = ((Some p, st), k', hp')"
  shows "st = LLStatus_Ok \<and> config_valid cfg \<and> L_total_size (compute_layout cfg) \<le> kMaxSegment \<and>
    (\<exists>b seg. p = new_publisher cfg seg b \<and> seg_address seg = Some b \<and>
      hp' = hp(b := init_segment cfg (make_session_id wall (clk 1)) (clk 2) (hp b)))"
proof -
  have v: "config_valid cfg" and t: "L_total_size (compute_layout cfg) \<le> kMaxSegment"
    using assms by (auto simp: publisher_create_def Let_def not_less split: if_splits)
  then show ?thesis
    using assms by (auto simp: publisher_create_eq split: prod.splits sum.splits option.splits)
qed

context segment_store
begin

lemma create_fresh:
  assumes "ok k" and "bound k (cfg_name cfg) = None"
    and "config_valid cfg" and "L_total_size (compute_layout cfg) \<le> kMaxSegment"
  shows "\<exists>seg b k'. publisher_create pf ops cfg clk wall k hp = ((Some (new_publisher cfg seg b), LLStatus_Ok), k',
      hp(b := init_segment cfg (make_session_id wall (clk 1)) (clk 2) (hp b))) \<and> ok k' \<and>
    bound k' = (bound k)(cfg_name cfg \<mapsto> (b, L_total_size (compute_layout cfg))) \<and>
    b \<notin> alloc k \<and> alloc k' = insert b (alloc k)"
proof -
  from create_free[OF assms(1,2) total_nonzero[OF assms(3)]] obtain sg b k' where
    "LLSegment_create pf ops (cfg_name cfg) (L_total_size (compute_layout cfg)) k = ((Some sg, False), k')"
    and "ok k'" "sg_region sg = (Some b, L_total_size (compute_layout cfg))"
    "bound k' = (bound k)(cfg_name cfg \<mapsto> (b, L_total_size (compute_layout cfg)))"
    "b \<notin> alloc k" "alloc k' = insert b (alloc k)"
    by blast
  moreover from this have "acquire_segment pf ops cfg (clk 0) k hp = (Inr sg, k')"
    by (simp add: acquire_segment_def Let_def)
  ultimately show ?thesis
    using assms(3,4) by (auto simp: publisher_create_eq seg_address_def)
qed

lemma reclaimable_eq:
  assumes "ok k" and "bound k (cfg_name cfg) = Some (b, sz)"
  shows "\<exists>k'. reclaimable ops cfg now k hp =
      (case validate_header (Some b) sz hp of
         None \<Rightarrow> True
       | Some _ \<Rightarrow> h_shutdown (m_hdr (hp b)) \<noteq> 0 \<or>
           ucast (cfg_stale_producer_ms cfg) * 1000000 \<le> now - h_last_heartbeat_ns (m_hdr (hp b)), k') \<and>
    ok k' \<and> bound k' = bound k \<and> alloc k' = alloc k"
proof -
  from open_bound[OF assms] obtain sg k1 where
    "LLSegment_open ops (cfg_name cfg) k = (Some sg, k1)" "sg_region sg = (Some b, sz)"
    and cl: "ok (op_close ops (sg_obj sg) k1)" "bound (op_close ops (sg_obj sg) k1) = bound k"
      "alloc (op_close ops (sg_obj sg) k1) = alloc k"
    by blast
  then have "reclaimable ops cfg now k hp =
      (case validate_header (Some b) sz hp of
         None \<Rightarrow> True
       | Some _ \<Rightarrow> h_shutdown (m_hdr (hp b)) \<noteq> 0 \<or>
           ucast (cfg_stale_producer_ms cfg) * 1000000 \<le> now - h_last_heartbeat_ns (m_hdr (hp b)),
       op_close ops (sg_obj sg) k1)"
    by (simp add: reclaimable_def seg_address_def seg_size_def LLSegment_destroy_def Let_def split: option.splits)
  with cl show ?thesis by blast
qed

text \<open>A publisher that still answers is never displaced.\<close>

lemma create_live:
  assumes "ok k" and "bound k (cfg_name cfg) = Some (b, sz)"
    and "config_valid cfg" and "L_total_size (compute_layout cfg) \<le> kMaxSegment"
    and "validate_header (Some b) sz hp = Some L'" and "h_shutdown (m_hdr (hp b)) = 0"
    and "clk 0 - h_last_heartbeat_ns (m_hdr (hp b)) < ucast (cfg_stale_producer_ms cfg) * 1000000"
  shows "\<exists>k'. publisher_create pf ops cfg clk wall k hp = ((None, AlreadyExists), k', hp) \<and> ok k' \<and>
    bound k' = bound k \<and> alloc k' = alloc k"
proof -
  from create_taken[OF assms(1), of "cfg_name cfg" "L_total_size (compute_layout cfg)"] assms(2)
  obtain k1 where c: "LLSegment_create pf ops (cfg_name cfg) (L_total_size (compute_layout cfg)) k = ((None, True), k1)"
    and k1: "ok k1" "bound k1 = bound k" "alloc k1 = alloc k" by auto
  from reclaimable_eq[OF k1(1), of cfg b sz "clk 0" hp] k1 assms obtain k2 where
    r: "reclaimable ops cfg (clk 0) k1 hp = (False, k2)" and k2: "ok k2" "bound k2 = bound k" "alloc k2 = alloc k"
    by auto
  have "acquire_segment pf ops cfg (clk 0) k hp = (Inl AlreadyExists, k2)"
    by (simp add: acquire_segment_def Let_def c r)
  with k2 assms(3,4) show ?thesis by (simp add: publisher_create_eq)
qed

end

text \<open>What makes an incumbent segment reclaimable.\<close>

definition abandoned :: "LLConfig \<Rightarrow> u64 \<Rightarrow> oid \<Rightarrow> u64 \<Rightarrow> heap \<Rightarrow> bool" where
  "abandoned cfg now b sz hp \<longleftrightarrow>
     validate_header (Some b) sz hp = None \<or> h_shutdown (m_hdr (hp b)) \<noteq> 0 \<or>
     ucast (cfg_stale_producer_ms cfg) * 1000000 \<le> now - h_last_heartbeat_ns (m_hdr (hp b))"

context unlinking_store
begin

text \<open>
  An abandoned segment is replaced by a fresh object; the old one is left to whoever maps it.
\<close>

lemma create_reclaims:
  assumes "ok k" and "bound k (cfg_name cfg) = Some (b, sz)"
    and "config_valid cfg" and "L_total_size (compute_layout cfg) \<le> kMaxSegment"
    and "abandoned cfg (clk 0) b sz hp"
  shows "\<exists>seg b' k'. publisher_create pf ops cfg clk wall k hp =
      ((Some (new_publisher cfg seg b'), LLStatus_Ok), k',
       hp(b' := init_segment cfg (make_session_id wall (clk 1)) (clk 2) (hp b'))) \<and> ok k' \<and>
    bound k' = (bound k)(cfg_name cfg \<mapsto> (b', L_total_size (compute_layout cfg))) \<and>
    b' \<notin> alloc k \<and> b' \<noteq> b \<and> alloc k' = insert b' (alloc k)"
proof -
  from create_taken[OF assms(1), of "cfg_name cfg" "L_total_size (compute_layout cfg)"] assms(2)
  obtain k1 where c: "LLSegment_create pf ops (cfg_name cfg) (L_total_size (compute_layout cfg)) k = ((None, True), k1)"
    and k1: "ok k1" "bound k1 = bound k" "alloc k1 = alloc k" by auto
  from reclaimable_eq[OF k1(1), of cfg b sz "clk 0" hp] k1 assms(2,5) obtain k2 where
    r: "reclaimable ops cfg (clk 0) k1 hp = (True, k2)" and k2: "ok k2" "bound k2 = bound k" "alloc k2 = alloc k"
    by (auto simp: abandoned_def split: option.splits)
  from recreate_after_unlink[OF k2(1) total_nonzero[OF assms(3)], of "cfg_name cfg"] obtain sg b' k' where
    c2: "LLSegment_create pf ops (cfg_name cfg) (L_total_size (compute_layout cfg))
       (LLSegment_unlink pf ops (cfg_name cfg) k2) = ((Some sg, False), k')"
    and k': "ok k'" "sg_region sg = (Some b', L_total_size (compute_layout cfg))"
      "bound k' = (bound k2)(cfg_name cfg \<mapsto> (b', L_total_size (compute_layout cfg)))"
      "b' \<notin> alloc k2" "alloc k' = insert b' (alloc k2)"
    by blast
  have "acquire_segment pf ops cfg (clk 0) k hp = (Inr sg, k')"
    by (simp add: acquire_segment_def Let_def c r c2)
  moreover have "b' \<noteq> b" using bound_alloc[OF assms(1,2)] k'(4) k2(3) by auto
  ultimately show ?thesis
    using k' k2 assms(3,4) by (auto simp: publisher_create_eq seg_address_def)
qed

end

context pinned_store
begin

text \<open>
  Where names cannot be unlinked, a name that is still mapped is refused even when the
  publisher behind it is gone.
\<close>

lemma create_refused:
  assumes "ok k" and "bound k (cfg_name cfg) = Some (b, sz)"
    and "config_valid cfg" and "L_total_size (compute_layout cfg) \<le> kMaxSegment"
  shows "\<exists>k'. publisher_create pf ops cfg clk wall k hp = ((None, AlreadyExists), k', hp) \<and> ok k' \<and>
    bound k' = bound k"
proof -
  from create_taken[OF assms(1), of "cfg_name cfg" "L_total_size (compute_layout cfg)"] assms(2)
  obtain k1 where c: "LLSegment_create pf ops (cfg_name cfg) (L_total_size (compute_layout cfg)) k = ((None, True), k1)"
    and k1: "ok k1" "bound k1 = bound k" "alloc k1 = alloc k" by auto
  from reclaimable_eq[OF k1(1), of cfg b sz "clk 0" hp] k1 assms(2) obtain rc k2 where
    r: "reclaimable ops cfg (clk 0) k1 hp = (rc, k2)" and k2: "ok k2" "bound k2 = bound k"
    by auto
  from recreate_refused[OF k2(1), of "cfg_name cfg" "L_total_size (compute_layout cfg)"] k2(2) assms(2)
  obtain k3 where c2: "LLSegment_create pf ops (cfg_name cfg) (L_total_size (compute_layout cfg))
       (LLSegment_unlink pf ops (cfg_name cfg) k2) = ((None, True), k3)"
    and k3: "ok k3" "bound k3 = bound k2" by auto
  have "acquire_segment pf ops cfg (clk 0) k hp = (Inl AlreadyExists, if rc then k3 else k2)"
    by (simp add: acquire_segment_def Let_def c r c2)
  with k2 k3 assms(3,4) show ?thesis by (simp add: publisher_create_eq)
qed

end

section \<open>Runs of a publisher\<close>

datatype pub_op =
    OpBegin u32 u32
  | OpRender "u8 list"
  | OpCommit u64
  | OpCancel
  | OpPublish "u8 list option" u32 u32 u32
  | OpHeartbeat
  | OpSend u32 "u8 list option" u32 u64
  | OpReceive
  | OpSetHz rat

fun pub_step :: "(rat \<Rightarrow> rat) \<Rightarrow> pub_op \<Rightarrow> clock \<Rightarrow> LLPublisher \<times> heap \<Rightarrow> LLPublisher \<times> heap" where
  "pub_step rnd (OpBegin w h) clk (m, hp) = snd (begin_write w h clk m hp)"
| "pub_step rnd (OpRender bs) clk (m, hp) = (m, render bs m hp)"
| "pub_step rnd (OpCommit ts) clk (m, hp) = commit ts clk m hp"
| "pub_step rnd OpCancel clk (m, hp) = cancel_write m hp"
| "pub_step rnd (OpPublish src w h st) clk (m, hp) = snd (publish src w h st clk m hp)"
| "pub_step rnd OpHeartbeat clk (m, hp) = (m, heartbeat clk m hp)"
| "pub_step rnd (OpSend ty data sz rt) clk (m, hp) = snd (pub_send ty data sz rt clk m hp)"
| "pub_step rnd OpReceive clk (m, hp) = snd (pub_receive m hp)"
| "pub_step rnd (OpSetHz hz) clk (m, hp) = ((case set_max_publish_hz rnd hz m of Some m' \<Rightarrow> m' | None \<Rightarrow> m), hp)"

text \<open>
  What the calls leave to their caller: the buffers are as long as announced, and the size of a
  frame given to \<open>publish\<close> does not overflow 64 bits.
\<close>

fun op_ok :: "LLConfig \<Rightarrow> pub_op \<Rightarrow> bool" where
  "op_ok c (OpPublish src w h st) \<longleftrightarrow> source_ok c w h st src"
| "op_ok c (OpSend ty data sz rt) \<longleftrightarrow> length (send_data data sz) = unat sz"
| "op_ok c _ \<longleftrightarrow> True"

fun pub_run :: "(rat \<Rightarrow> rat) \<Rightarrow> (pub_op \<times> clock) list \<Rightarrow> LLPublisher \<times> heap \<Rightarrow> LLPublisher \<times> heap" where
  "pub_run rnd [] st = st"
| "pub_run rnd ((op, clk) # ops) st = pub_run rnd ops (pub_step rnd op clk st)"

lemma pub_step_inv:
  assumes "pub_at b m hp" and "op_ok (p_cfg m) op" and "pub_step rnd op clk (m, hp) = (m', hp')"
  shows "pub_at b m' hp' \<and> p_cfg m' = p_cfg m"
proof (cases op)
  case (OpBegin w h)
  then show ?thesis using assms begin_write_inv[OF assms(1)] by (metis pub_step.simps(1) prod.collapse)
next
  case (OpRender bs)
  then show ?thesis using assms render_inv[OF assms(1)] by auto
next
  case (OpCommit ts)
  then show ?thesis using assms commit_inv[OF assms(1)] by auto
next
  case OpCancel
  then show ?thesis using assms cancel_write_inv[OF assms(1)] by auto
next
  case (OpPublish src w h st)
  then show ?thesis
    using assms publish_inv[OF assms(1), of w h st src clk]
    by (metis op_ok.simps(1) pub_step.simps(5) prod.collapse)
next
  case OpHeartbeat
  then show ?thesis using assms heartbeat_inv[OF assms(1)] by auto
next
  case (OpSend ty data sz rt)
  then show ?thesis
    using assms pub_send_inv[OF assms(1), of data sz ty rt clk]
    by (metis op_ok.simps(2) pub_step.simps(7) prod.collapse)
next
  case OpReceive
  then show ?thesis
    using assms pub_receive_inv[OF assms(1)] by (metis pub_step.simps(8) prod.collapse)
next
  case (OpSetHz hz)
  then show ?thesis
    using assms by (auto simp: set_max_publish_hz_def split: option.splits)
qed

lemma pub_run_inv:
  assumes "pub_at b m hp" and "\<forall>(op, clk) \<in> set ops. op_ok (p_cfg m) op"
    and "pub_run rnd ops (m, hp) = (m', hp')"
  shows "pub_at b m' hp' \<and> p_cfg m' = p_cfg m"
  using assms
proof (induction ops arbitrary: m hp)
  case (Cons x ops)
  obtain op clk where x: "x = (op, clk)" by force
  obtain m1 hp1 where st: "pub_step rnd op clk (m, hp) = (m1, hp1)" by force
  have "pub_at b m1 hp1" "p_cfg m1 = p_cfg m"
    using pub_step_inv[OF Cons.prems(1) _ st] Cons.prems(2) x by auto
  then show ?case using Cons.IH[of m1 hp1] Cons.prems x st by auto
qed simp

lemma publish_facts:
  assumes "pub_at b m hp" and "p_pending m = None" and "publish_due clk m" and "fits (p_cfg m) width height"
    and "st = (if src_stride = 0 then width * cfg_bytes_per_pixel (p_cfg m) else src_stride)"
    and "(unat height - 1) * unat st + unat width * unat (cfg_bytes_per_pixel (p_cfg m)) \<le> length src"
  shows "\<exists>m' hp'. publish (Some src) width height src_stride clk m hp = (True, m', hp') \<and>
    pub_at b m' hp' \<and> p_cfg m' = p_cfg m \<and> p_frame_id m' = p_frame_id m + 1 \<and> p_pending m' = None \<and> p_last_publish_ns m' = clk 2 \<and>
    h_latest (m_hdr (hp' b)) = push_bit 2 (p_frame_id m + 1) OR ucast (next_slot m) \<and>
    (\<forall>i<cfg_slot_count (p_cfg m). slot_frame (p_cfg m) (hp' b) i =
       (if i = next_slot m
        then (published_info (p_cfg m) (p_frame_id m + 1) (clk 1) width height,
              image_rows src (unat width * unat (cfg_bytes_per_pixel (p_cfg m))) (unat st) (unat height))
        else slot_frame (p_cfg m) (hp b) i)) \<and>
    (\<forall>d. ring_queue (p_cfg m) d (hp' b) = ring_queue (p_cfg m) d (hp b))"
proof -
  let ?c = "p_cfg m" and ?bs = "image_rows src (unat width * unat (cfg_bytes_per_pixel (p_cfg m))) (unat st) (unat height)"
  note d = pub_atD[OF assms(1)] and eq = publish_eq[OF assms]
  have ns: "next_slot m < cfg_slot_count ?c" using next_slot_lt[OF d(1)] by (simp add: next_slot_def)
  have h: "0 < unat height" using assms(4) by (simp add: fits_def unat_gt_0)
  have len: "length ?bs = unat (ucast (frame_bytes ?c width height) :: u32)" "length ?bs \<le> unat (max_payload ?c)"
    using length_image_rows[OF h assms(6)] fits_exact(3)[OF d(1,2) assms(4)] assms(4)
    by (simp_all add: fits_def ac_simps)
  have fr: "slot_frame ?c (published_mem ?c (next_slot m) (p_frame_id m + 1) (clk 1) (clk 2) width height ?bs (hp b)) i =
      (if i = next_slot m then (published_info ?c (p_frame_id m + 1) (clk 1) width height, ?bs)
       else slot_frame ?c (hp b) i)" if "i < cfg_slot_count ?c" for i
    using published_mem_frames[OF d(1,2) ns len that frames_inv_payload[OF d(5) that]] .
  have "same_queues ?c (hp b)
      (published_mem ?c (next_slot m) (p_frame_id m + 1) (clk 1) (clk 2) width height ?bs (hp b))"
    using ring_write_payload(1)[OF d(1) ns len(2)] by (simp add: published_mem_def Let_def same_queues_def)
  moreover have "source_ok ?c width height src_stride (Some src)"
    using assms(4-6) payload_small[OF d(1,2)] by (auto simp: source_ok_def fits_def)
  ultimately show ?thesis
    using publish_inv[OF assms(1) _ eq] eq fr assms(2) by (simp add: same_queues_def published_mem_def Let_def)
qed

section \<open>Abandoned writes\<close>

text \<open>A write that is begun, rendered and cancelled.\<close>

definition abandon :: "u32 \<Rightarrow> u32 \<Rightarrow> clock \<Rightarrow> u8 list \<Rightarrow> LLPublisher \<Rightarrow> heap \<Rightarrow> LLPublisher \<times> heap" where
  "abandon width height clk bs m hp =
     (case begin_write width height clk m hp of (_, m1, hp1) \<Rightarrow> cancel_write m1 (render bs m1 hp1))"

lemma abandon_eq:
  assumes "pub_at b m hp" and "p_pending m = None" and "publish_due clk m" and "fits (p_cfg m) width height"
    and "length bs = unat width * unat height * unat (cfg_bytes_per_pixel (p_cfg m))"
  shows "abandon width height clk bs m hp =
    (let c = p_cfg m; j = next_slot m; a = slot_at (compute_layout c) j in
     (m\<lparr>p_write_slot := j\<rparr>,
      hp(b := set_slot a ((begun c width height (slot_of c (hp b) j))\<lparr>s_seq := s_seq (slot_of c (hp b) j) + 2\<rparr>)
               (write_payload c j bs (hp b)))))"
proof -
  note d = pub_atD[OF assms(1)]
  have len: "length bs \<le> unat (max_payload (p_cfg m))" using assms(4,5) by (simp add: fits_def)
  have pend: "m\<lparr>p_write_slot := x, p_pending := None\<rparr> = m\<lparr>p_write_slot := x\<rparr>" for x
    using assms(2) by (cases m) simp
  show ?thesis
    unfolding abandon_def begin_write_ok[OF assms(1-4)]
    using len d(4) by (simp add: Let_def cancel_write_def render_def begun_def slot_of_def pend)
      (simp add: set_slot_def write_payload_def add.commute)
qed

lemma abandon_at:
  assumes "pub_at b m hp" and "abandon width height clk bs m hp = (m', hp')"
  shows "pub_at b m' hp' \<and> p_cfg m' = p_cfg m"
proof -
  obtain r m1 hp1 where bw: "begin_write width height clk m hp = (r, m1, hp1)" by (metis prod_cases3)
  have i: "pub_at b m1 hp1" "p_cfg m1 = p_cfg m" using begin_write_inv[OF assms(1) bw] by auto
  have r: "pub_at b m1 (render bs m1 hp1)" using render_inv[OF i(1)] by blast
  have "cancel_write m1 (render bs m1 hp1) = (m', hp')" using assms(2) bw by (simp add: abandon_def)
  from cancel_write_inv[OF r this] i(2) show ?thesis by simp
qed

section \<open>A small publisher\<close>

definition demo_seg :: LLSegment where
  "demo_seg = \<lparr>sg_obj = 2, sg_region = (Some 2, L_total_size (compute_layout demo_config))\<rparr>"

definition demo_pub :: LLPublisher where
  "demo_pub = new_publisher demo_config demo_seg 2"

definition demo_heap :: heap where
  "demo_heap = (\<lambda>_. smem_zero)(2 := init_segment demo_config 7 1000 smem_zero)"

lemma demo_total: "L_total_size (compute_layout demo_config) \<le> kMaxSegment"
  by (simp add: compute_layout_def Let_def align_up_def k_defs)

lemma demo_pub_at: "pub_at 2 demo_pub demo_heap"
  unfolding demo_pub_def demo_heap_def by (rule new_publisher_at[OF demo_config_valid demo_total])

lemma demo_pub_simps [simp]:
  "p_cfg demo_pub = demo_config" "p_pending demo_pub = None" "p_min_interval_ns demo_pub = 0"
  "p_write_slot demo_pub = 0" "p_frame_id demo_pub = 0" "p_hdr demo_pub = Some 2"
  "p_last_publish_ns demo_pub = 0" "p_next_cmd demo_pub = 1"
  by (simp_all add: demo_pub_def new_publisher_def LLPublisher_new_def)

lemma demo_queue [simp]: "ring_queue demo_config d (demo_heap 2) = []"
  by (simp add: demo_heap_def seg_inv_init(2)[OF demo_config_valid demo_total])

text \<open>The small publisher after its first frame.\<close>

definition demo_publish :: "bool \<times> LLPublisher \<times> heap" where
  "demo_publish = publish (Some [1, 2, 3, 4]) 2 1 0 (\<lambda>_. 2000) demo_pub demo_heap"

definition demo_info :: LLFrameInfo where
  "demo_info = \<lparr>fi_frame_id = 1, fi_timestamp_ns = 2000, fi_width = 2, fi_height = 1, fi_stride = 4,
     fi_payload_bytes = 4\<rparr>"

lemma demo_slot_empty: "i < 3 \<Longrightarrow> slot_of demo_config (demo_heap 2) i = LLSlotHeader_zero"
  using init_segment_slot[of "unat i" demo_config 7 1000 smem_zero]
  by (simp add: slot_of_def demo_heap_def word_less_unat)

lemma demo_published:
  obtains m' hp' where "demo_publish = (True, m', hp')" "pub_at 2 m' hp'" "p_cfg m' = demo_config"
    "p_frame_id m' = 1" "p_pending m' = None" "h_latest (m_hdr (hp' 2)) = push_bit 2 1 OR ucast (1 :: u32)"
    "slot_frame demo_config (hp' 2) 1 = (demo_info, [1, 2, 3, 4])"
    "\<And>i. i < 3 \<Longrightarrow> i \<noteq> 1 \<Longrightarrow> slot_frame demo_config (hp' 2) i = (LLFrameInfo_zero, [])"
    "\<And>d. ring_queue demo_config d (hp' 2) = []"
proof -
  have z: "slot_frame demo_config (demo_heap 2) i = (LLFrameInfo_zero, [])" if "i < 3" for i
    using demo_slot_empty[OF that]
    by (simp add: slot_frame_def slot_bytes_def slot_info_def LLSlotHeader_zero_def LLFrameInfo_zero_def)
  from publish_facts[OF demo_pub_at, of "\<lambda>_. 2000" 2 1 4 0 "[1, 2, 3, 4]"] z that show ?thesis
    by (auto simp: demo_publish_def publish_due_def fits_def next_slot_def published_info_def frame_bytes_def
        image_rows_tight demo_info_def)
qed

lemma demo_published_seq:
  assumes "demo_publish = (True, m', hp')"
  shows "p_write_slot m' = 1" and "i < 3 \<Longrightarrow> unat (s_seq (slot_of demo_config (hp' 2) i)) \<le> 2"
proof -
  have ns: "next_slot demo_pub = 1" by (simp add: next_slot_def)
  note eq = publish_eq[OF demo_pub_at, of "\<lambda>_. 2000" 2 1 4 0 "[1, 2, 3, 4]"]
  then have e: "demo_publish = (True, demo_pub\<lparr>p_write_slot := 1, p_frame_id := 1, p_last_publish_ns := 2000\<rparr>,
     demo_heap(2 := published_mem demo_config 1 1 2000 2000 2 1 [1, 2, 3, 4] (demo_heap 2)))"
    by (simp add: demo_publish_def publish_due_def fits_def ns image_rows_tight)
  note r = trans[OF sym[OF e] assms]
  then show "p_write_slot m' = 1" by auto
  have "slot_of demo_config (published_mem demo_config 1 1 2000 2000 2 1 [1, 2, 3, 4] (demo_heap 2)) i =
      (if i = 1 then committed 1 2000 (begun demo_config 2 1 (slot_of demo_config (demo_heap 2) 1))
       else slot_of demo_config (demo_heap 2) i)" if "i < 3"
    using slot_of_set_slot[OF demo_config_valid, of i 1] that
    by (simp add: published_mem_def Let_def slot_of_def write_payload_def)
  then show "i < 3 \<Longrightarrow> unat (s_seq (slot_of demo_config (hp' 2) i)) \<le> 2"
    using r demo_slot_empty[of 1] demo_slot_empty[of i]
    by (auto simp: slot_info_published LLSlotHeader_zero_def)
qed

text \<open>A publisher with the default configuration, in an object of its own.\<close>

definition wide_heap :: heap where
  "wide_heap = (\<lambda>_. smem_zero)(2 := init_segment LLConfig_default 7 1000 smem_zero)"

lemma wide_at: "pub_at 2 (new_publisher LLConfig_default demo_seg 2) wide_heap"
proof -
  have "config_valid LLConfig_default" by (simp add: config_valid_def LLConfig_default_def k_defs)
  moreover have "L_total_size (compute_layout LLConfig_default) \<le> kMaxSegment"
    by (simp add: compute_layout_def Let_def align_up_def k_defs LLConfig_default_def max_payload_def)
  ultimately show ?thesis unfolding wide_heap_def by (rule new_publisher_at)
qed

section \<open>Properties\<close>

text \<open>
  C5.  Whatever the name space did to provide the segment, and whatever operations the publisher is
  then asked for, in any order: the segment keeps describing itself, both rings stay within their
  capacity, the write cursor names a slot, a slot's counter is odd exactly while that slot is being
  written, no slot claims more bytes than its payload area has, and \<open>latest\<close> names the last
  committed frame.  The caller keeps three duties (\<open>op_ok\<close>, and \<open>render\<close> for what is written
  through the pointer of \<open>begin_write\<close>): buffers are as long as announced, no more than a payload
  area is written through the pointer, and the size of a frame given to \<open>publish\<close> does not
  overflow 64 bits.  The last is not checked by the code: \<open>oversized_frame_accepted\<close> below.
\<close>

theorem publisher_invariant:
  assumes "publisher_create pf ops cfg clk wall k hp = ((Some p, st), k', hp')"
    and "\<forall>(op, clk) \<in> set todo. op_ok cfg op"
    and "pub_run rnd todo (p, hp') = (p'', hp'')"
  shows "\<exists>b. pub_at b p'' hp'' \<and> p_cfg p'' = cfg"
proof -
  from publisher_create_Some[OF assms(1)] obtain b seg where
    v: "config_valid cfg" "L_total_size (compute_layout cfg) \<le> kMaxSegment" and p: "p = new_publisher cfg seg b"
    and hp': "hp' = hp(b := init_segment cfg (make_session_id wall (clk 1)) (clk 2) (hp b))" by blast
  have "pub_at b p hp'" unfolding p hp' by (rule new_publisher_at[OF v])
  moreover have "p_cfg p = cfg" by (simp add: p new_publisher_def)
  ultimately show ?thesis using pub_run_inv[of b p hp' todo rnd] assms(2,3) by auto
qed

text \<open>
  \<open>publish\<close> with an open gate, a frame that fits and a buffer that holds it: the next slot
  holds exactly the rows of the source image (packed or strided), its header the geometry and
  the next frame id; \<open>latest\<close> points to it; every other slot and both command queues are as before.
\<close>

theorem publish_stores_frame:
  assumes "pub_at b m hp" and "p_pending m = None" and "publish_due clk m" and "fits (p_cfg m) width height"
    and "st = (if src_stride = 0 then width * cfg_bytes_per_pixel (p_cfg m) else src_stride)"
    and "(unat height - 1) * unat st + unat width * unat (cfg_bytes_per_pixel (p_cfg m)) \<le> length src"
  shows "\<exists>m' hp'. publish (Some src) width height src_stride clk m hp = (True, m', hp') \<and>
    pub_at b m' hp' \<and> p_cfg m' = p_cfg m \<and> p_frame_id m' = p_frame_id m + 1 \<and> p_pending m' = None \<and> p_last_publish_ns m' = clk 2 \<and>
    h_latest (m_hdr (hp' b)) = push_bit 2 (p_frame_id m + 1) OR ucast (next_slot m) \<and>
    (\<forall>i<cfg_slot_count (p_cfg m). slot_frame (p_cfg m) (hp' b) i =
       (if i = next_slot m
        then (published_info (p_cfg m) (p_frame_id m + 1) (clk 1) width height,
              image_rows src (unat width * unat (cfg_bytes_per_pixel (p_cfg m))) (unat st) (unat height))
        else slot_frame (p_cfg m) (hp b) i)) \<and>
    (\<forall>d. ring_queue (p_cfg m) d (hp' b) = ring_queue (p_cfg m) d (hp b))"
  using assms by (rule publish_facts)

theorem publish_stores_frame_witness:
  "\<exists>m' hp'. publish (Some [1, 2, 3, 4]) 2 1 0 (\<lambda>_. 2000) demo_pub demo_heap = (True, m', hp') \<and>
    slot_frame demo_config (hp' 2) 1 =
      (\<lparr>fi_frame_id = 1, fi_timestamp_ns = 2000, fi_width = 2, fi_height = 1, fi_stride = 4,
        fi_payload_bytes = 4\<rparr>, [1, 2, 3, 4])"
  using publish_stores_frame[OF demo_pub_at, of "\<lambda>_. 2000" 2 1 4 0 "[1, 2, 3, 4]"]
  by (auto simp: publish_due_def fits_def next_slot_def published_info_def frame_bytes_def
      image_rows_tight)

theorem publisher_invariant_witness:
  "\<exists>p k' hp' p'' hp'' b.
    publisher_create Posix posix_ops demo_config (\<lambda>_. 5) 9 posix_empty (\<lambda>_. smem_zero) =
      ((Some p, LLStatus_Ok), k', hp') \<and>
    pub_run (\<lambda>x. x) [(OpPublish (Some [1, 2, 3, 4]) 2 1 0, \<lambda>_. 6), (OpBegin 1 1, \<lambda>_. 7),
      (OpSend 3 (Some [9]) 1 0, \<lambda>_. 8), (OpCancel, \<lambda>_. 9)] (p, hp') = (p'', hp'') \<and>
    pub_at b p'' hp''"
proof -
  obtain p k' hp' where c: "publisher_create Posix posix_ops demo_config (\<lambda>_. 5) 9 posix_empty (\<lambda>_. smem_zero) =
      ((Some p, LLStatus_Ok), k', hp')"
    using posix.create_fresh[OF posix_empty_ok, of demo_config "\<lambda>_. 5" 9 "\<lambda>_. smem_zero"]
      posix_empty_bound demo_config_valid demo_total by auto
  let ?todo = "[(OpPublish (Some [1, 2, 3, 4]) 2 1 0, \<lambda>_. 6), (OpBegin 1 1, \<lambda>_. 7),
      (OpSend 3 (Some [9]) 1 0, \<lambda>_. 8), (OpCancel, \<lambda>_. 9)] :: (pub_op \<times> clock) list"
  obtain p'' hp'' where r: "pub_run (\<lambda>x. x) ?todo (p, hp') = (p'', hp'')" by force
  have "\<forall>(op, clk) \<in> set ?todo. op_ok demo_config op" by (simp add: source_ok_def send_data_def)
  from publisher_invariant[OF c this r] c r show ?thesis by blast
qed

text \<open>
  \<open>begin_write\<close> accepts a frame whose size does not overflow 64 bits exactly when nothing is
  pending, the gate is open and the frame is non-empty and fits its slot; a refusal leaves memory
  alone, and only a closed gate counts as throttled.
\<close>

theorem begin_write_accepts:
  assumes "pub_at b m hp" and "unat width * unat height * unat (cfg_bytes_per_pixel (p_cfg m)) < 2 ^ 64"
    and "begin_write width height clk m hp = (r, m', hp')"
  shows "(r \<noteq> None \<longleftrightarrow> p_pending m = None \<and> publish_due clk m \<and> fits (p_cfg m) width height) \<and>
    (r = None \<longrightarrow> hp' = hp \<and> (p_throttled m' = p_throttled m + 1 \<or> m' = m)) \<and>
    (r \<noteq> None \<longrightarrow> r = Some (slot_payload (compute_layout (p_cfg m)) (p_write_slot m')) \<and>
       p_write_slot m' = (p_write_slot m + 1) mod cfg_slot_count (p_cfg m))"
proof (cases r)
  case None
  have "\<not> (p_pending m = None \<and> publish_due clk m \<and> fits (p_cfg m) width height)"
    using begin_write_ok[OF assms(1)] assms(3) None by (auto simp: Let_def)
  moreover have "hp' = hp \<and> (p_throttled m' = p_throttled m + 1 \<or> m' = m)"
    using assms(3) None by (auto simp: begin_write_eq[OF assms(1)] Let_def split: if_splits)
  ultimately show ?thesis using None by simp
next
  case (Some dst)
  with accepted_fits[OF assms(1,2)] assms(3) have
    ok: "p_pending m = None" "publish_due clk m" "fits (p_cfg m) width height" by auto
  with begin_write_ok[OF assms(1) ok] assms(3) Some show ?thesis by (auto simp: Let_def next_slot_def)
qed

theorem begin_write_accepts_witness:
  "fst (begin_write 2 1 (\<lambda>_. 9) demo_pub demo_heap) \<noteq> None \<and> fst (begin_write 3 1 (\<lambda>_. 9) demo_pub demo_heap) = None"
proof -
  obtain r m hp where a: "begin_write 2 1 (\<lambda>_. 9) demo_pub demo_heap = (r, m, hp)" by (metis prod_cases3)
  obtain r' m' hp' where b: "begin_write 3 1 (\<lambda>_. 9) demo_pub demo_heap = (r', m', hp')" by (metis prod_cases3)
  show ?thesis
    using begin_write_accepts[OF demo_pub_at _ a] begin_write_accepts[OF demo_pub_at _ b]
    by (simp add: a b publish_due_def fits_def)
qed

text \<open>
  Without the overflow hypothesis the size check is void: with four bytes per pixel, a frame of
  \<open>2^31\<close> by \<open>2^31\<close> pixels passes as one of zero bytes, and its slot then announces that
  geometry with an empty payload.
\<close>

theorem oversized_frame_accepted:
  assumes "pub_at b m hp" and "p_pending m = None" and "publish_due clk m" and "cfg_bytes_per_pixel (p_cfg m) = 4"
  shows "\<exists>dst m' hp'. begin_write 0x80000000 0x80000000 clk m hp = (Some dst, m', hp') \<and>
    s_width (slot_of (p_cfg m) (hp' b) (next_slot m)) = 0x80000000 \<and>
    s_height (slot_of (p_cfg m) (hp' b) (next_slot m)) = 0x80000000 \<and>
    s_payload_bytes (slot_of (p_cfg m) (hp' b) (next_slot m)) = 0 \<and>
    cfg_max_width (p_cfg m) < 0x80000000"
proof -
  note d = pub_atD[OF assms(1)]
  have f: "frame_bytes (p_cfg m) 0x80000000 0x80000000 = 0" by (simp add: frame_bytes_def assms(4))
  have "cfg_max_width (p_cfg m) < 0x80000000" using config_validD(4)[OF d(1)] by (simp add: word_less_unat)
  then show ?thesis
    using assms(2,3) f by (simp add: begin_write_eq[OF assms(1)] Let_def throttle_def slot_of_def set_slot_def begun_def)
qed

theorem oversized_frame_accepted_witness:
  "\<exists>dst m' hp'. begin_write 0x80000000 0x80000000 (\<lambda>_. 9) (new_publisher LLConfig_default demo_seg 2) wide_heap =
     (Some dst, m', hp')"
  using oversized_frame_accepted[OF wide_at, of "\<lambda>_. 9"]
  by (auto simp: new_publisher_def LLPublisher_new_def publish_due_def LLConfig_default_def)

text \<open>
  The publish gate: with an interval set, two frames in a row are published only if the second
  write begins at least that interval after the first commit.
\<close>

theorem publish_interval_kept:
  assumes "publish src1 w1 h1 st1 clk1 m hp = (True, m1, hp1)" and "publish src2 w2 h2 st2 clk2 m1 hp1 = (True, m2, hp2)"
    and "pub_at b m hp" and "source_ok (p_cfg m) w1 h1 st1 src1" and "clk1 2 \<noteq> 0" and "p_min_interval_ns m \<noteq> 0"
  shows "p_min_interval_ns m \<le> clk2 0 - clk1 2"
proof -
  obtain s1 dst a1 g1 where s1: "src1 = Some s1" and b1: "begin_write w1 h1 clk1 m hp = (Some dst, a1, g1)"
    using assms(1) by (auto simp: publish_def split: option.splits prod.splits)
  have ok: "p_pending m = None" "publish_due clk1 m" "fits (p_cfg m) w1 h1"
    using accepted_fits[OF assms(3) _ b1] assms(4) by (auto simp: source_ok_def s1)
  have "p_last_publish_ns m1 = clk1 2 \<and> p_min_interval_ns m1 = p_min_interval_ns m"
    using publish_eq[OF assms(3) ok refl, of st1 s1] assms(1,4) ok(3) by (simp add: s1 source_ok_def)
  moreover have "publish_due clk2 m1"
    using assms(2) by (auto simp: publish_def begin_write_def publish_due_def Let_def not_less
        split: option.splits prod.splits if_splits)
  ultimately show ?thesis using assms(5,6) by (simp add: publish_due_def)
qed

theorem publish_interval_kept_witness:
  "\<exists>m1 hp1 m2 hp2. publish (Some [1, 2, 3, 4]) 2 1 0 (\<lambda>_. 1000) (demo_pub\<lparr>p_min_interval_ns := 500\<rparr>) demo_heap = (True, m1, hp1) \<and>
    publish (Some [5, 6, 7, 8]) 2 1 0 (\<lambda>_. 1700) m1 hp1 = (True, m2, hp2) \<and> (500 :: u64) \<le> 1700 - 1000"
proof -
  let ?m = "demo_pub\<lparr>p_min_interval_ns := 500\<rparr>"
  have at: "pub_at 2 ?m demo_heap" using demo_pub_at by simp
  from publish_facts[OF at, of "\<lambda>_. 1000" 2 1 4 0 "[1, 2, 3, 4]"] obtain m1 hp1 where
    p1: "publish (Some [1, 2, 3, 4]) 2 1 0 (\<lambda>_. 1000) ?m demo_heap = (True, m1, hp1)"
    and at1: "pub_at 2 m1 hp1" "p_cfg m1 = demo_config" "p_pending m1 = None" "p_last_publish_ns m1 = 1000"
    by (auto simp: publish_due_def fits_def)
  have "p_min_interval_ns m1 = 500"
    using publish_eq[OF at, of "\<lambda>_. 1000" 2 1 4 0 "[1, 2, 3, 4]"] p1 by (auto simp: publish_due_def fits_def)
  then have due: "publish_due (\<lambda>_. 1700) m1" using at1 by (simp add: publish_due_def)
  from publish_facts[OF at1(1) at1(3) due, of 2 1 4 0 "[5, 6, 7, 8]"] at1(2) obtain m2 hp2 where
    p2: "publish (Some [5, 6, 7, 8]) 2 1 0 (\<lambda>_. 1700) m1 hp1 = (True, m2, hp2)" by (auto simp: fits_def)
  have "(500 :: u64) \<le> 1700 - 1000"
    using publish_interval_kept[OF p1 p2 at] by (simp add: source_ok_def)
  with p1 p2 show ?thesis by blast
qed

text \<open>
  C19.  A cancelled write is not always invisible.  When the cursor has come round to the slot that
  \<open>latest\<close> points to, a write that is begun, rendered and cancelled leaves \<open>latest\<close> as it was, but that slot, stable again,
  holds the rejected pixels and geometry under the id and timestamp of the published frame.
\<close>

theorem cancelled_write_overwrites_latest:
  assumes "pub_at b m hp" and "p_pending m = None" and "publish_due clk m" and "fits (p_cfg m) width height"
    and "length bs = unat width * unat height * unat (cfg_bytes_per_pixel (p_cfg m))"
    and "h_latest (m_hdr (hp b)) = push_bit 2 (p_frame_id m) OR ucast (next_slot m)"
  shows "\<exists>m' hp'. abandon width height clk bs m hp = (m', hp') \<and> pub_at b m' hp' \<and>
    h_latest (m_hdr (hp' b)) = h_latest (m_hdr (hp b)) \<and>
    even (s_seq (slot_of (p_cfg m) (hp' b) (next_slot m))) \<and>
    slot_frame (p_cfg m) (hp' b) (next_slot m) =
      (published_info (p_cfg m) (s_frame_id (slot_of (p_cfg m) (hp b) (next_slot m)))
         (s_timestamp_ns (slot_of (p_cfg m) (hp b) (next_slot m))) width height, bs)"
proof -
  let ?c = "p_cfg m" and ?j = "next_slot m"
  note d = pub_atD[OF assms(1)] and eq = abandon_eq[OF assms(1-5)]
  let ?a = "slot_at (compute_layout ?c) ?j"
  let ?sh = "(begun ?c width height (slot_of ?c (hp b) ?j))\<lparr>s_seq := s_seq (slot_of ?c (hp b) ?j) + 2\<rparr>"
  have j: "?j < cfg_slot_count ?c" using next_slot_lt[OF d(1)] by (simp add: next_slot_def)
  have so: "slot_of ?c (set_slot ?a ?sh (write_payload ?c ?j bs (hp b))) ?j = ?sh"
    using slot_of_set_slot[OF d(1) j j] by simp
  have pb: "unat (s_payload_bytes ?sh) = length bs"
    using fits_exact(3)[OF d(1,2) assms(4)] assms(5) by (simp add: begun_def)
  have "length bs \<le> 2 ^ 64" using pb unat_lt32[of "s_payload_bytes ?sh"] by simp
  then have bt: "slot_bytes ?c (set_slot ?a ?sh (write_payload ?c ?j bs (hp b))) ?j = bs"
    unfolding slot_bytes_def so pb by (simp add: write_payload_def read_write_bytes)
  have info: "slot_info ?sh = published_info ?c (s_frame_id (slot_of ?c (hp b) ?j))
      (s_timestamp_ns (slot_of ?c (hp b) ?j)) width height"
    by (simp add: slot_info_def published_info_def begun_def)
  have ev: "even (s_seq ?sh)" using d(5) assms(2) j by (simp add: frames_inv_def)
  define sm where "sm = set_slot ?a ?sh (write_payload ?c ?j bs (hp b))"
  have ab: "abandon width height clk bs m hp = (m\<lparr>p_write_slot := ?j\<rparr>, hp(b := sm))"
    by (simp add: eq Let_def sm_def)
  have lat: "h_latest (m_hdr sm) = h_latest (m_hdr (hp b))" by (simp add: sm_def)
  from so bt info ev lat abandon_at[OF assms(1) ab] ab show ?thesis
    unfolding sm_def[symmetric] by (intro exI[of _ "m\<lparr>p_write_slot := ?j\<rparr>"] exI[of _ "hp(b := sm)"])
      (simp add: slot_frame_def)
qed

theorem cancelled_write_overwrites_latest_witness:
  "\<exists>m hp m1 hp1 m2 hp2 m3 hp3. demo_publish = (True, m, hp) \<and>
    abandon 1 1 (\<lambda>_. 3000) [8, 8] m hp = (m1, hp1) \<and> abandon 1 1 (\<lambda>_. 3000) [8, 8] m1 hp1 = (m2, hp2) \<and>
    abandon 2 1 (\<lambda>_. 3000) [9, 9, 9, 9] m2 hp2 = (m3, hp3) \<and>
    h_latest (m_hdr (hp3 2)) = push_bit 2 1 OR 1 \<and>
    slot_frame demo_config (hp3 2) 1 = (demo_info, [9, 9, 9, 9])"
proof -
  obtain m hp where p: "demo_publish = (True, m, hp)" "pub_at 2 m hp" "p_cfg m = demo_config" "p_frame_id m = 1"
    "p_pending m = None" "h_latest (m_hdr (hp 2)) = push_bit 2 1 OR ucast (1 :: u32)"
    "slot_frame demo_config (hp 2) 1 = (demo_info, [1, 2, 3, 4])"
    using demo_published by metis
  note ws = demo_published_seq(1)[OF p(1)]
  have mi: "p_min_interval_ns m = 0"
    using p(1) publish_eq[OF demo_pub_at, of "\<lambda>_. 2000" 2 1 4 0 "[1, 2, 3, 4]"]
    by (auto simp: demo_publish_def publish_due_def fits_def)
  obtain m1 hp1 where a1: "abandon 1 1 (\<lambda>_. 3000) [8, 8] m hp = (m1, hp1)" by force
  note e1 = abandon_eq[OF p(2,5), of "\<lambda>_. 3000" 1 1 "[8, 8]"]
  have f1: "pub_at 2 m1 hp1" "p_cfg m1 = demo_config" "p_frame_id m1 = 1" "p_pending m1 = None" "p_write_slot m1 = 2"
    "p_min_interval_ns m1 = 0" "h_latest (m_hdr (hp1 2)) = h_latest (m_hdr (hp 2))"
    "slot_of demo_config (hp1 2) 1 = slot_of demo_config (hp 2) 1"
    using abandon_at[OF p(2) a1] a1 e1 p(3-5) mi ws slot_of_set_slot[OF demo_config_valid, of 1 2]
    by (auto simp: publish_due_def fits_def next_slot_def Let_def)
  obtain m2 hp2 where a2: "abandon 1 1 (\<lambda>_. 3000) [8, 8] m1 hp1 = (m2, hp2)" by force
  note e2 = abandon_eq[OF f1(1,4), of "\<lambda>_. 3000" 1 1 "[8, 8]"]
  have f2: "pub_at 2 m2 hp2" "p_cfg m2 = demo_config" "p_frame_id m2 = 1" "p_pending m2 = None" "p_write_slot m2 = 0"
    "p_min_interval_ns m2 = 0" "h_latest (m_hdr (hp2 2)) = h_latest (m_hdr (hp 2))"
    "slot_of demo_config (hp2 2) 1 = slot_of demo_config (hp 2) 1"
    using abandon_at[OF f1(1) a2] a2 e2 f1 slot_of_set_slot[OF demo_config_valid, of 1 0]
    by (auto simp: publish_due_def fits_def next_slot_def Let_def)
  have ns: "next_slot m2 = 1" using f2 by (simp add: next_slot_def)
  have si: "s_frame_id (slot_of demo_config (hp 2) 1) = 1" "s_timestamp_ns (slot_of demo_config (hp 2) 1) = 2000"
    using p(7) by (simp_all add: slot_frame_def slot_info_def demo_info_def)
  obtain m3 hp3 where "abandon 2 1 (\<lambda>_. 3000) [9, 9, 9, 9] m2 hp2 = (m3, hp3)"
    "h_latest (m_hdr (hp3 2)) = h_latest (m_hdr (hp2 2))"
    "slot_frame demo_config (hp3 2) 1 = (published_info demo_config 1 2000 2 1, [9, 9, 9, 9])"
    using cancelled_write_overwrites_latest[OF f2(1,4), of "\<lambda>_. 3000" 2 1 "[9, 9, 9, 9]"] f2 p(6) ns si
    by (auto simp: publish_due_def fits_def)
  then show ?thesis
    using p(1,6) a1 a2 f2(7)
    by (intro exI[of _ m] exI[of _ hp] exI[of _ m1] exI[of _ hp1] exI[of _ m2] exI[of _ hp2] exI[of _ m3] exI[of _ hp3])
      (simp add: demo_info_def published_info_def frame_bytes_def)
qed

text \<open>
  C39.  The two ways of copying agree.  Publishing an image whose rows start \<open>stride\<close> bytes apart,
  which copies row by row, has the outcome of publishing the packed image of the same rows, which is
  one copy: the same answer, publisher and memory, whether the frame is accepted or refused.
\<close>

theorem strided_equals_packed:
  assumes "pub_at b m hp" and "source_ok (p_cfg m) width height stride (Some src)" and "stride \<noteq> 0"
    and "rb = unat width * unat (cfg_bytes_per_pixel (p_cfg m))"
  shows "publish (Some src) width height stride clk m hp =
    publish (Some (concat (map (\<lambda>y. take rb (drop (y * unat stride) src)) [0..<unat height]))) width height 0 clk m hp"
proof (cases "fst (begin_write width height clk m hp)")
  case None
  then obtain m1 hp1 where "begin_write width height clk m hp = (None, m1, hp1)" by (metis prod.collapse)
  then show ?thesis by (simp add: publish_def)
next
  case (Some dst)
  let ?rows = "image_rows src rb (unat stride) (unat height)"
  have ok: "p_pending m = None" "publish_due clk m" "fits (p_cfg m) width height"
    using accepted_fits[OF assms(1), of width height clk dst] Some assms(2)
    by (simp_all add: source_ok_def prod_eq_iff)
  have len: "(unat height - 1) * unat stride + rb \<le> length src"
    using assms(2-4) ok(3) by (simp add: source_ok_def)
  have h: "0 < unat height" using ok(3) by (simp add: fits_def unat_gt_0)
  note ds = fits_exact(4)[OF pub_atD(1,2)[OF assms(1)] ok(3)]
  have lr: "length ?rows = rb * unat height" by (rule length_image_rows[OF h len])
  then have "image_rows ?rows rb rb (unat height) = ?rows" by (simp add: image_rows_tight)
  moreover have "(unat height - 1) * rb + rb \<le> length ?rows"
    using h by (simp add: lr) (metis Suc_pred add.commute mult.commute mult_Suc order_refl)
  ultimately show ?thesis
    using publish_eq[OF assms(1) ok refl, of stride src] publish_eq[OF assms(1) ok refl, of 0 ?rows] len assms(3)
    by (simp add: ds assms(4)[symmetric] image_rows_def[symmetric])
qed

text \<open>Two rows of one pixel, five bytes apart, on a publisher with the default configuration.\<close>

theorem strided_equals_packed_witness:
  "\<exists>r. publish (Some [1, 2, 3, 4, 0, 5, 6, 7, 8]) 1 2 5 (\<lambda>_. 9) (new_publisher LLConfig_default demo_seg 2) wide_heap = (True, r) \<and>
    publish (Some [1, 2, 3, 4, 5, 6, 7, 8]) 1 2 0 (\<lambda>_. 9) (new_publisher LLConfig_default demo_seg 2) wide_heap = (True, r)"
proof -
  let ?m = "new_publisher LLConfig_default demo_seg 2"
  have c: "p_cfg ?m = LLConfig_default" "cfg_bytes_per_pixel LLConfig_default = 4" "p_pending ?m = None" "publish_due (\<lambda>_. 9) ?m"
    by (simp_all add: new_publisher_def LLPublisher_new_def LLConfig_default_def publish_due_def)
  have f: "fits LLConfig_default 1 2" by (simp add: fits_def max_payload_def LLConfig_default_def)
  have so: "source_ok (p_cfg ?m) 1 2 5 (Some [1, 2, 3, 4, 0, 5, 6, 7, 8])" by (simp add: source_ok_def c)
  have acc: "fst (publish (Some [1, 2, 3, 4, 0, 5, 6, 7, 8]) 1 2 5 (\<lambda>_. 9) ?m wide_heap)"
    using publish_eq[OF wide_at c(3,4), of 1 2 5 5 "[1, 2, 3, 4, 0, 5, 6, 7, 8]"] f by (simp add: c)
  have rows: "concat (map (\<lambda>y. take 4 (drop (y * unat (5 :: u32)) [1, 2, 3, 4, 0, 5, 6, 7, 8])) [0..<unat (2 :: u32)]) =
      [1, 2, 3, 4, 5, 6, 7, 8 :: u8]"
    by (simp add: upt_rec)
  have "(4 :: nat) = unat (1 :: u32) * unat (cfg_bytes_per_pixel (p_cfg ?m))" by (simp add: c)
  from strided_equals_packed[OF wide_at so _ this, of "\<lambda>_. 9", unfolded rows] acc
  show ?thesis by (intro exI[of _ "snd (publish (Some [1, 2, 3, 4, 0, 5, 6, 7, 8]) 1 2 5 (\<lambda>_. 9) ?m wide_heap)"])
    (simp only: prod_eq_iff fst_conv snd_conv, simp)
qed

end
