(* ===== verification/Subscriber.thy ===== *)
theory Subscriber
  imports Frames Segment
begin

text \<open>
  \<open>LLSubscriber\<close> (\<open>src/llsubscriber.cpp\<close>): attaching to a named segment and claiming its
  command channel, the reconnection logic of \<open>poll\<close>, the seqlock read of the newest frame, the
  command channel, the rate gate and the accessors.  Where another process may interfere inside
  one call, the interference is an argument: the contention on the owner word in the claim
  loop, and the memory seen by each single access in the read loop.
\<close>

section \<open>State\<close>

text \<open>\<open>u_hdr\<close> stands for \<open>hdr\<close> and \<open>base\<close>, which are set together.\<close>

record LLSubscriber =
  u_name :: string
  u_remote :: LLConfig
  u_L :: LLLayout
  u_seg :: "LLSegment option"
  u_hdr :: "oid option"
  u_tx :: LLRing
  u_rx :: LLRing
  u_session :: u64
  u_sessions :: u64
  u_last_frame :: u64
  u_received :: u64
  u_dropped :: u64
  u_next_cmd :: u64
  u_sent :: u64
  u_recvd :: u64
  u_cmd_dropped :: u64
  u_peer_shutdown :: bool
  u_owns_commands :: bool
  u_owner_gen :: u64
  u_stale_ns :: u64
  u_retry_ns :: u64
  u_last_progress :: u64
  u_last_attempt :: u64
  u_min_read_ns :: u64
  u_last_read_ns :: u64
  u_throttled :: u64

definition LLSubscriber_new :: LLSubscriber where
  "LLSubscriber_new = \<lparr>u_name = [], u_remote = LLConfig_default, u_L = LLLayout_zero, u_seg = None,
     u_hdr = None, u_tx = LLRing_null, u_rx = LLRing_null, u_session = 0, u_sessions = 0,
     u_last_frame = 0, u_received = 0, u_dropped = 0, u_next_cmd = 1, u_sent = 0, u_recvd = 0,
     u_cmd_dropped = 0, u_peer_shutdown = False, u_owns_commands = False, u_owner_gen = 0,
     u_stale_ns = 500 * 1000 * 1000, u_retry_ns = 250 * 1000 * 1000, u_last_progress = 0,
     u_last_attempt = 0, u_min_read_ns = 0, u_last_read_ns = 0, u_throttled = 0\<rparr>"

definition detach :: "LLSubscriber \<Rightarrow> LLSubscriber" where
  "detach m = m\<lparr>u_hdr := None, u_tx := LLRing_null, u_rx := LLRing_null, u_owns_commands := False,
     u_owner_gen := 0\<rparr>"

definition upd_hdr :: "oid \<Rightarrow> (LLHeader \<Rightarrow> LLHeader) \<Rightarrow> heap \<Rightarrow> heap" where
  "upd_hdr b f hp = hp(b := (hp b)\<lparr>m_hdr := f (m_hdr (hp b))\<rparr>)"

section \<open>Ownership of the command channel\<close>

definition still_owns_commands :: "u64 \<Rightarrow> LLSubscriber \<Rightarrow> heap \<Rightarrow> bool \<times> LLSubscriber \<times> heap" where
  "still_owns_commands now m hp =
     (if \<not> u_owns_commands m then (False, m, hp)
      else case u_hdr m of
        None \<Rightarrow> (False, m, hp)
      | Some b \<Rightarrow>
          if h_command_owner_gen (m_hdr (hp b)) \<noteq> u_owner_gen m
          then (False, m\<lparr>u_owns_commands := False\<rparr>, hp)
          else (True, m, upd_hdr b (\<lambda>h. h\<lparr>h_command_owner_heartbeat_ns := now\<rparr>) hp))"

text \<open>
  What other processes do during one iteration of the claim loop: what they make of the owner
  word and its heartbeat between our load of the owner word and our load of the heartbeat, between
  that and our compare-exchange, and between a compare-exchange that succeeds and our store of the
  first heartbeat; and whether the weak compare-exchange fails spuriously.
\<close>

record contention =
  ev_load :: "(u64 \<times> u64) option"
  ev_cas :: "(u64 \<times> u64) option"
  ev_spurious :: bool
  ev_store :: "(u64 \<times> u64) option"

definition undisturbed :: contention where
  "undisturbed = \<lparr>ev_load = None, ev_cas = None, ev_spurious = False, ev_store = None\<rparr>"

fun interfere :: "(u64 \<times> u64) option \<Rightarrow> LLHeader \<Rightarrow> LLHeader" where
  "interfere None h = h"
| "interfere (Some (gen, hb)) h = h\<lparr>h_command_owner_gen := gen, h_command_owner_heartbeat_ns := hb\<rparr>"

text \<open>The event the next iteration meets; when the list is used up the channel is quiet.\<close>

fun met :: "contention list \<Rightarrow> contention" where
  "met [] = undisturbed"
| "met (ev # _) = ev"

text \<open>
  The claim loop of \<open>try_connect\<close>.  Iteration \<open>i\<close> reads the clock for the age, the claim and the
  first heartbeat.  The compare-exchange stores the claim alone; the heartbeat is a store of its
  own, whatever happened in between.  The result is the claim taken, if any, and the header.
\<close>

function claim_loop :: "contention list \<Rightarrow> nat \<Rightarrow> clock \<Rightarrow> u64 \<Rightarrow> LLHeader \<Rightarrow> u64 option \<times> LLHeader" where
  "claim_loop evs i clk existing_gen h =
     (let ev = met evs; h0 = interfere (ev_load ev) h in
      if existing_gen \<noteq> 0 \<and> clk (3 * i) - h_command_owner_heartbeat_ns h0 < kCommandOwnerStaleNs
      then (None, h0)
      else let claim = (if clk (3 * i + 1) = 0 then 1 else clk (3 * i + 1));
               h1 = interfere (ev_cas ev) h0 in
        if h_command_owner_gen h1 = existing_gen \<and> \<not> ev_spurious ev
        then let h2 = interfere (ev_store ev) (h1\<lparr>h_command_owner_gen := claim\<rparr>) in
          (Some claim, h2\<lparr>h_command_owner_heartbeat_ns := clk (3 * i + 2)\<rparr>)
        else claim_loop (tl evs) (Suc i) clk (h_command_owner_gen h1) h1)"
  by pat_completeness auto

termination
proof (relation "measure (\<lambda>(evs, i, clk, gen, h). 2 * length evs + (if h_command_owner_gen h = gen then 0 else 1))",
    goal_cases)
  case (2 evs i clk existing_gen h)
  then show ?case by (cases evs) (auto simp: undisturbed_def)
qed simp

declare claim_loop.simps [simp del]

text \<open>\<open>LLSubscriber::Impl::try_connect\<close>.\<close>

definition try_connect :: "'k bip_ops \<Rightarrow> contention list \<Rightarrow> clock \<Rightarrow> LLSubscriber \<Rightarrow> 'k \<Rightarrow> heap
    \<Rightarrow> bool \<times> LLSubscriber \<times> 'k \<times> heap" where
  "try_connect ops evs clk m k hp =
     (case LLSegment_open ops (u_name m) k of
        (None, k1) \<Rightarrow> (False, m, k1, hp)
      | (Some candidate, k1) \<Rightarrow>
          (case (seg_address candidate, validate_header (seg_address candidate) (seg_size candidate) hp) of
             (Some b, Some cl) \<Rightarrow>
               let h = m_hdr (hp b) in
               if u_hdr m \<noteq> None \<and> h_session_id h = u_session m
               then (True, m, LLSegment_destroy ops (Some candidate) k1, hp)
               else
                 let c = header_config (u_name m) h;
                     k2 = LLSegment_destroy ops (u_seg m) k1;
                     (claimed, h1) = claim_loop evs 0 clk (h_command_owner_gen h) h;
                     m1 = m\<lparr>u_seg := Some candidate, u_hdr := Some b, u_remote := c, u_L := cl,
                            u_session := h_session_id h, u_sessions := u_sessions m + 1,
                            u_last_frame := 0, u_next_cmd := 1, u_peer_shutdown := False,
                            u_owns_commands := (claimed \<noteq> None),
                            u_owner_gen := (case claimed of Some g \<Rightarrow> g | None \<Rightarrow> u_owner_gen m),
                            u_tx := \<lparr>rg_base = Some b, rg_offset = L_upstream_offset cl, rg_L = cl,
                                     rg_slots = cfg_command_slots c, rg_max_bytes = cfg_max_command_bytes c\<rparr>,
                            u_rx := \<lparr>rg_base = Some b, rg_offset = L_downstream_offset cl, rg_L = cl,
                                     rg_slots = cfg_command_slots c, rg_max_bytes = cfg_max_command_bytes c\<rparr>\<rparr>
                 in (True, m1, k2, upd_hdr b (\<lambda>_. h1) hp)
           | _ \<Rightarrow> (False, m, LLSegment_destroy ops (Some candidate) k1, hp)))"

text \<open>\<open>~LLSubscriber\<close>: give the channel back unless it was stolen, then release the mapping.\<close>

definition subscriber_destroy :: "'k bip_ops \<Rightarrow> LLSubscriber \<Rightarrow> 'k \<Rightarrow> heap \<Rightarrow> 'k \<times> heap" where
  "subscriber_destroy ops m k hp =
     (LLSegment_destroy ops (u_seg m) k,
      case u_hdr m of
        None \<Rightarrow> hp
      | Some b \<Rightarrow>
          if u_owns_commands m \<and> h_command_owner_gen (m_hdr (hp b)) = u_owner_gen m
          then upd_hdr b (\<lambda>h. h\<lparr>h_command_owner_gen := 0\<rparr>) hp else hp)"

definition subscriber_open :: "'k bip_ops \<Rightarrow> contention list \<Rightarrow> string \<Rightarrow> clock \<Rightarrow> 'k \<Rightarrow> heap
    \<Rightarrow> LLSubscriber \<times> 'k \<times> heap" where
  "subscriber_open ops evs name clk k hp =
     snd (try_connect ops evs (\<lambda>i. clk (Suc i))
            (LLSubscriber_new\<lparr>u_name := name, u_last_progress := clk 0\<rparr>) k hp)"

section \<open>Liveness and reconnection\<close>

definition connected :: "LLSubscriber \<Rightarrow> bool" where
  "connected m \<longleftrightarrow> u_hdr m \<noteq> None"

definition producer_responsive :: "u64 \<Rightarrow> LLSubscriber \<Rightarrow> heap \<Rightarrow> bool" where
  "producer_responsive now m hp =
     (case u_hdr m of None \<Rightarrow> False
      | Some b \<Rightarrow> now - h_last_heartbeat_ns (m_hdr (hp b)) < u_stale_ns m)"

text \<open>
  \<open>poll\<close>: the readings are \<open>clk 0\<close> on entry, \<open>clk 1\<close> for the owner heartbeat, \<open>clk 2\<close> and \<open>clk 3\<close> in
  the two calls of \<open>producer_responsive\<close>, and \<open>clk 4\<close> onwards in \<open>try_connect\<close>.
\<close>

definition poll :: "'k bip_ops \<Rightarrow> contention list \<Rightarrow> clock \<Rightarrow> LLSubscriber \<Rightarrow> 'k \<Rightarrow> heap
    \<Rightarrow> bool \<times> LLSubscriber \<times> 'k \<times> heap" where
  "poll ops evs clk m0 k hp0 =
     (let now = clk 0;
          (m, hp) = (if u_hdr m0 \<noteq> None then snd (still_owns_commands (clk 1) m0 hp0) else (m0, hp0))
      in if u_hdr m \<noteq> None \<and> now - u_last_progress m < u_stale_ns m then (True, m, k, hp)
         else if producer_responsive (clk 2) m hp then (True, m, k, hp)
         else if now - u_last_attempt m < u_retry_ns m then (False, m, k, hp)
         else case try_connect ops evs (\<lambda>i. clk (4 + i)) (m\<lparr>u_last_attempt := now\<rparr>) k hp of
                (_, m1, k1, hp1) \<Rightarrow>
                  let m2 = m1\<lparr>u_last_progress := now\<rparr>
                  in (producer_responsive (clk 3) m2 hp1, m2, k1, hp1))"

section \<open>Reading the newest frame\<close>

text \<open>
  \<open>v i\<close> is the memory at the \<open>i\<close>-th access of an attempt: the load of \<open>latest\<close>, the load of the
  counter (or of \<open>shutdown\<close>), six header fields, the payload byte by byte, and the second load
  of the counter.
\<close>

definition copy_out :: "(nat \<Rightarrow> smem) \<Rightarrow> addr \<Rightarrow> nat \<Rightarrow> u8 list" where
  "copy_out v a n = map (\<lambda>j. m_bytes (v (8 + j)) (a + of_nat j)) [0..<n]"

definition load_info :: "(nat \<Rightarrow> smem) \<Rightarrow> addr \<Rightarrow> LLFrameInfo" where
  "load_info v s = \<lparr>fi_frame_id = s_frame_id (m_slots (v 2) s), fi_timestamp_ns = s_timestamp_ns (m_slots (v 3) s),
     fi_width = s_width (m_slots (v 4) s), fi_height = s_height (m_slots (v 5) s),
     fi_stride = s_stride (m_slots (v 6) s), fi_payload_bytes = s_payload_bytes (m_slots (v 7) s)\<rparr>"

text \<open>
  The retry loop, with \<open>n\<close> attempts left; \<open>v a\<close> is the view of attempt \<open>a\<close>.  \<open>dst\<close> is the
  destination buffer; an attempt that is overtaken may leave bytes in it.
\<close>

fun read_attempts :: "nat \<Rightarrow> nat \<Rightarrow> (nat \<Rightarrow> nat \<Rightarrow> smem) \<Rightarrow> u64 \<Rightarrow> LLSubscriber \<Rightarrow> u8 list
    \<Rightarrow> LLReadResult \<times> u8 list \<times> LLFrameInfo option \<times> LLSubscriber" where
  "read_attempts 0 a v now m dst = (Contended, dst, None, m)"
| "read_attempts (Suc n) a v now m dst =
     (let packed = h_latest (m_hdr (v a 0)) in
      if packed = 0 \<or> drop_bit 2 packed = u_last_frame m then
        (if h_shutdown (m_hdr (v a 1)) \<noteq> 0
         then (Disconnected, dst, None, m\<lparr>u_peer_shutdown := True\<rparr>)
         else (NoNewFrame, dst, None, m))
      else let slot = ucast (packed AND 3) :: u32 in
        if slot \<ge> cfg_slot_count (u_remote m) then (Contended, dst, None, m)
        else let s = slot_at (u_L m) slot;
                 before = s_seq (m_slots (v a 1) s)
          in if before AND 1 \<noteq> 0 then read_attempts n (Suc a) v now m dst
             else let fi = load_info (v a) s;
                      bytes = ucast (fi_payload_bytes fi) :: u64
               in if bytes = 0 \<or> bytes > max_payload (u_remote m) then
                    (if s_seq (m_slots (v a 8) s) \<noteq> before then read_attempts n (Suc a) v now m dst
                     else (Contended, dst, None, m))
                  else if bytes > of_nat (length dst) then
                    (if s_seq (m_slots (v a 8) s) \<noteq> before then read_attempts n (Suc a) v now m dst
                     else (BufferTooSmall, dst, Some fi, m))
                  else let dst1 = copy_out (v a) (slot_payload (u_L m) slot) (unat bytes) @ drop (unat bytes) dst
                    in if s_seq (m_slots (v a (8 + unat bytes)) s) \<noteq> before
                       then read_attempts n (Suc a) v now m dst1
                       else (Read_Ok, dst1, Some fi,
                             m\<lparr>u_dropped := (if u_last_frame m \<noteq> 0 \<and> fi_frame_id fi > u_last_frame m
                                             then u_dropped m + (fi_frame_id fi - u_last_frame m - 1)
                                             else u_dropped m),
                               u_last_frame := fi_frame_id fi, u_last_progress := now,
                               u_received := u_received m + 1\<rparr>))"

text \<open>A memory nobody else writes to during the call.\<close>

definition calm :: "smem \<Rightarrow> nat \<Rightarrow> nat \<Rightarrow> smem" where
  "calm sm a i = sm"

text \<open>
  \<open>read_latest\<close> into a buffer of the caller: \<open>pclk\<close> are the readings of \<open>poll\<close>, \<open>clk 0\<close> the reading at
  the gate and \<open>clk 1\<close> the one after a successful read; \<open>view\<close> gives the memory each access of
  the loop sees, from the memory \<open>poll\<close> left.
\<close>

definition read_latest :: "'k bip_ops \<Rightarrow> contention list \<Rightarrow> clock \<Rightarrow> clock \<Rightarrow> (smem \<Rightarrow> nat \<Rightarrow> nat \<Rightarrow> smem)
    \<Rightarrow> u8 list \<Rightarrow> LLSubscriber \<Rightarrow> 'k \<Rightarrow> heap
    \<Rightarrow> (LLReadResult \<times> u8 list \<times> LLFrameInfo option) \<times> LLSubscriber \<times> 'k \<times> heap" where
  "read_latest ops evs pclk clk view dst m0 k0 hp0 =
     (case poll ops evs pclk m0 k0 hp0 of
        (False, m, k, hp) \<Rightarrow> ((Disconnected, dst, None), m, k, hp)
      | (True, m, k, hp) \<Rightarrow>
          if u_min_read_ns m \<noteq> 0 \<and> u_last_read_ns m \<noteq> 0 \<and> clk 0 - u_last_read_ns m < u_min_read_ns m
          then ((Throttled, dst, None), m\<lparr>u_throttled := u_throttled m + 1\<rparr>, k, hp)
          else let m1 = (if u_min_read_ns m \<noteq> 0 then m\<lparr>u_last_read_ns := clk 0\<rparr> else m) in
            case u_hdr m1 of
              None \<Rightarrow> ((Disconnected, dst, None), m1, k, hp)
            | Some b \<Rightarrow>
                (case read_attempts 4 0 (view (hp b)) (clk 1) m1 dst of
                   (r, dst1, info, m2) \<Rightarrow> ((r, dst1, info), m2, k, hp)))"

text \<open>
  The overload for a vector: the buffer is grown to the producer's maximum first.  \<open>qclk\<close> are
  the readings of the second \<open>poll\<close>, \<open>clk 2\<close> the reading at the early gate.
\<close>

definition read_latest_vec :: "'k bip_ops \<Rightarrow> contention list \<Rightarrow> clock \<Rightarrow> clock \<Rightarrow> clock
    \<Rightarrow> (smem \<Rightarrow> nat \<Rightarrow> nat \<Rightarrow> smem) \<Rightarrow> u8 list \<Rightarrow> LLSubscriber \<Rightarrow> 'k \<Rightarrow> heap
    \<Rightarrow> (LLReadResult \<times> u8 list \<times> LLFrameInfo option) \<times> LLSubscriber \<times> 'k \<times> heap" where
  "read_latest_vec ops evs pclk qclk clk view dst m0 k0 hp0 =
     (case poll ops evs pclk m0 k0 hp0 of
        (False, m, k, hp) \<Rightarrow> ((Disconnected, dst, None), m, k, hp)
      | (True, m, k, hp) \<Rightarrow>
          if u_min_read_ns m \<noteq> 0 \<and> u_last_read_ns m \<noteq> 0 \<and> clk 2 - u_last_read_ns m < u_min_read_ns m
          then ((Throttled, dst, None), m\<lparr>u_throttled := u_throttled m + 1\<rparr>, k, hp)
          else let need = unat (max_payload (u_remote m));
                   dst1 = (if length dst < need then dst @ replicate (need - length dst) 0 else dst)
               in read_latest ops evs qclk clk view dst1 m k hp)"

section \<open>Commands\<close>

definition sub_send :: "u32 \<Rightarrow> u8 list option \<Rightarrow> u32 \<Rightarrow> u64 \<Rightarrow> clock \<Rightarrow> LLSubscriber \<Rightarrow> heap
    \<Rightarrow> u64 option \<times> LLSubscriber \<times> heap" where
  "sub_send ty data sz reply_to clk m0 hp0 =
     (if u_hdr m0 = None then (None, m0, hp0)
      else case still_owns_commands (clk 0) m0 hp0 of
        (False, m, hp) \<Rightarrow> (None, m, hp)
      | (True, m, hp) \<Rightarrow>
          let cid = u_next_cmd m in
          case push (u_tx m) ty data sz cid reply_to (clk 1) hp of
            (False, hp1) \<Rightarrow> (None, m\<lparr>u_cmd_dropped := u_cmd_dropped m + 1\<rparr>, hp1)
          | (True, hp1) \<Rightarrow> (Some cid, m\<lparr>u_next_cmd := u_next_cmd m + 1, u_sent := u_sent m + 1\<rparr>, hp1))"

definition sub_send_text :: "u32 \<Rightarrow> u8 list \<Rightarrow> u64 \<Rightarrow> clock \<Rightarrow> LLSubscriber \<Rightarrow> heap
    \<Rightarrow> u64 option \<times> LLSubscriber \<times> heap" where
  "sub_send_text ty txt reply_to clk m hp =
     sub_send ty (Some txt) (of_nat (length txt)) reply_to clk m hp"

definition sub_receive :: "clock \<Rightarrow> LLSubscriber \<Rightarrow> heap \<Rightarrow> LLShmCommand option \<times> LLSubscriber \<times> heap" where
  "sub_receive clk m0 hp0 =
     (if u_hdr m0 = None then (None, m0, hp0)
      else case still_owns_commands (clk 0) m0 hp0 of
        (False, m, hp) \<Rightarrow> (None, m, hp)
      | (True, m, hp) \<Rightarrow>
          (case pop (u_rx m) hp of
             (None, hp1) \<Rightarrow> (None, m, hp1)
           | (Some out, hp1) \<Rightarrow>
               (Some out, m\<lparr>u_recvd := u_recvd m + 1, u_last_progress := clk 1\<rparr>, hp1)))"

section \<open>Accessors and settings\<close>

definition remote_config :: "LLSubscriber \<Rightarrow> LLConfig option" where
  "remote_config m = (if u_hdr m \<noteq> None then Some (u_remote m) else None)"

definition set_max_read_hz :: "(rat \<Rightarrow> rat) \<Rightarrow> rat \<Rightarrow> LLSubscriber \<Rightarrow> LLSubscriber option" where
  "set_max_read_hz rnd hz m = map_option (\<lambda>i. m\<lparr>u_min_read_ns := i\<rparr>) (hz_interval rnd hz)"

definition max_read_hz :: "(rat \<Rightarrow> rat) \<Rightarrow> LLSubscriber \<Rightarrow> rat" where
  "max_read_hz rnd m = interval_hz rnd (u_min_read_ns m)"

definition read_due :: "clock \<Rightarrow> LLSubscriber \<Rightarrow> bool" where
  "read_due clk m =
     (if u_min_read_ns m = 0 \<or> u_last_read_ns m = 0 then True
      else clk 0 - u_last_read_ns m \<ge> u_min_read_ns m)"

definition set_stale_timeout_ms :: "u32 \<Rightarrow> LLSubscriber \<Rightarrow> LLSubscriber" where
  "set_stale_timeout_ms ms m =
     (let stale = ucast ms * 1000 * 1000 :: u64
      in m\<lparr>u_stale_ns := stale, u_retry_ns := (if stale div 2 \<noteq> 0 then stale div 2 else 1)\<rparr>)"

section \<open>The claim loop\<close>

lemma upd_hdr_simps [simp]:
  "x \<noteq> b \<Longrightarrow> upd_hdr b f hp x = hp x" "m_hdr (upd_hdr b f hp b) = f (m_hdr (hp b))"
  "m_slots (upd_hdr b f hp b) = m_slots (hp b)" "m_bytes (upd_hdr b f hp b) = m_bytes (hp b)"
  "ring_queue c d (upd_hdr b f hp b) = ring_queue c d (hp b)"
  by (simp_all add: upd_hdr_def)

text \<open>
  Without contention: the channel is taken when it is free or its owner has gone quiet.  The two
  stores are then next to each other.
\<close>

definition take_claim :: "u64 \<Rightarrow> u64 \<Rightarrow> LLHeader \<Rightarrow> LLHeader" where
  "take_claim claim now h = h\<lparr>h_command_owner_gen := claim, h_command_owner_heartbeat_ns := now\<rparr>"

lemma claim_loop_calm:
  "claim_loop [] i clk (h_command_owner_gen h) h =
     (if h_command_owner_gen h \<noteq> 0 \<and>
         clk (3 * i) - h_command_owner_heartbeat_ns h < kCommandOwnerStaleNs
      then (None, h)
      else let claim = (if clk (3 * i + 1) = 0 then 1 else clk (3 * i + 1))
           in (Some claim, take_claim claim (clk (3 * i + 2)) h))"
  by (subst claim_loop.simps) (simp add: Let_def undisturbed_def take_claim_def)

text \<open>Only the two owner words change.\<close>

definition no_owner :: "LLHeader \<Rightarrow> LLHeader" where
  "no_owner h = h\<lparr>h_command_owner_gen := 0, h_command_owner_heartbeat_ns := 0\<rparr>"

definition same_but_owner :: "LLHeader \<Rightarrow> LLHeader \<Rightarrow> bool" where
  "same_but_owner h h' \<longleftrightarrow> no_owner h' = no_owner h"

lemma no_owner_upd [simp]:
  "no_owner (h\<lparr>h_command_owner_gen := g\<rparr>) = no_owner h"
  "no_owner (h\<lparr>h_command_owner_heartbeat_ns := t\<rparr>) = no_owner h"
  "no_owner (take_claim g t h) = no_owner h" "no_owner (interfere ev h) = no_owner h"
  by (cases ev; auto simp: no_owner_def take_claim_def)+

lemma same_but_owner_fields:
  assumes "same_but_owner h h'"
  shows "hdr_describes c h' = hdr_describes c h" "h_latest h' = h_latest h" "h_shutdown h' = h_shutdown h"
    "h_session_id h' = h_session_id h" "h_last_heartbeat_ns h' = h_last_heartbeat_ns h"
proof -
  have eq: "no_owner h' = no_owner h" using assms by (simp add: same_but_owner_def)
  have d: "hdr_describes c (no_owner g) = hdr_describes c g" "h_latest (no_owner g) = h_latest g"
    "h_shutdown (no_owner g) = h_shutdown g" "h_session_id (no_owner g) = h_session_id g"
    "h_last_heartbeat_ns (no_owner g) = h_last_heartbeat_ns g" for g by (simp_all add: no_owner_def)
  show "hdr_describes c h' = hdr_describes c h" "h_latest h' = h_latest h" "h_shutdown h' = h_shutdown h"
    "h_session_id h' = h_session_id h" "h_last_heartbeat_ns h' = h_last_heartbeat_ns h"
    using d[of h] d[of h'] by (simp_all add: eq)
qed

text \<open>
  The course of the loop under contention: the header as iteration \<open>n\<close> finds it when every earlier
  compare-exchange failed, as it is when that iteration looks at the heartbeat, and as its
  compare-exchange meets it.
\<close>

fun before :: "contention list \<Rightarrow> LLHeader \<Rightarrow> nat \<Rightarrow> LLHeader" where
  "before evs h 0 = h"
| "before evs h (Suc n) = interfere (ev_cas (met (drop n evs))) (interfere (ev_load (met (drop n evs))) (before evs h n))"

definition looked :: "contention list \<Rightarrow> LLHeader \<Rightarrow> nat \<Rightarrow> LLHeader" where
  "looked evs h n = interfere (ev_load (met (drop n evs))) (before evs h n)"

definition contested :: "contention list \<Rightarrow> LLHeader \<Rightarrow> nat \<Rightarrow> LLHeader" where
  "contested evs h n = interfere (ev_cas (met (drop n evs))) (looked evs h n)"

text \<open>The channel is free, or its owner's heartbeat is as old as the limit, when iteration \<open>n\<close> looks.\<close>

definition claimable :: "contention list \<Rightarrow> clock \<Rightarrow> LLHeader \<Rightarrow> nat \<Rightarrow> nat \<Rightarrow> bool" where
  "claimable evs clk h i n \<longleftrightarrow> h_command_owner_gen (before evs h n) = 0 \<or>
     kCommandOwnerStaleNs \<le> clk (3 * (i + n)) - h_command_owner_heartbeat_ns (looked evs h n)"

text \<open>The compare-exchange of iteration \<open>n\<close> finds the owner word as it was loaded.\<close>

definition exchanged :: "contention list \<Rightarrow> LLHeader \<Rightarrow> nat \<Rightarrow> bool" where
  "exchanged evs h n \<longleftrightarrow> h_command_owner_gen (contested evs h n) = h_command_owner_gen (before evs h n) \<and>
     \<not> ev_spurious (met (drop n evs))"

lemma before_shift: "before evs h (Suc n) = before (tl evs) (before evs h 1) n"
  by (induction n) (simp_all add: drop_Suc)

lemma course_shift:
  "looked evs h (Suc n) = looked (tl evs) (before evs h 1) n"
  "contested evs h (Suc n) = contested (tl evs) (before evs h 1) n"
  "claimable evs clk h i (Suc n) = claimable (tl evs) clk (before evs h 1) (Suc i) n"
  "exchanged evs h (Suc n) = exchanged (tl evs) (before evs h 1) n"
  by (simp_all only: looked_def contested_def claimable_def exchanged_def before_shift) (simp_all add: drop_Suc)

lemma no_owner_before [simp]:
  "no_owner (before evs h n) = no_owner h" "no_owner (looked evs h n) = no_owner h" "no_owner (contested evs h n) = no_owner h"
  by (induction n) (simp_all add: looked_def contested_def)

text \<open>
  Under any contention the loop ends, after at most one iteration for each event and one more: at
  the first iteration that sees a fresh owner, or at the first whose exchange succeeds.
\<close>

definition claim_outcome :: "contention list \<Rightarrow> clock \<Rightarrow> LLHeader \<Rightarrow> nat \<Rightarrow> nat \<Rightarrow> u64 option \<times> LLHeader" where
  "claim_outcome evs clk h i n =
     (if \<not> claimable evs clk h i n then (None, looked evs h n)
      else let g = (if clk (3 * (i + n) + 1) = 0 then 1 else clk (3 * (i + n) + 1)) in
        (Some g, (interfere (ev_store (met (drop n evs))) ((contested evs h n)\<lparr>h_command_owner_gen := g\<rparr>))
           \<lparr>h_command_owner_heartbeat_ns := clk (3 * (i + n) + 2)\<rparr>))"

lemma claim_outcome_shift:
  "claim_outcome evs clk h i (Suc n) = claim_outcome (tl evs) clk (before evs h 1) (Suc i) n"
  by (simp only: claim_outcome_def course_shift) (simp add: drop_Suc)

lemma claim_loop_course:
  assumes "gen = h_command_owner_gen h"
  shows "\<exists>n \<le> length evs. (\<forall>j<n. claimable evs clk h i j \<and> \<not> exchanged evs h j) \<and>
    (claimable evs clk h i n \<longrightarrow> exchanged evs h n) \<and> claim_loop evs i clk gen h = claim_outcome evs clk h i n"
  using assms
proof (induction evs arbitrary: i gen h)
  case Nil
  have "claim_loop [] i clk gen h = claim_outcome [] clk h i 0"
    unfolding Nil claim_loop_calm
    by (simp add: claim_outcome_def claimable_def looked_def contested_def undisturbed_def take_claim_def Let_def not_less[symmetric])
  moreover have "exchanged [] h 0" by (simp add: exchanged_def contested_def looked_def undisturbed_def)
  ultimately show ?case by auto
next
  case (Cons ev evs)
  let ?evs = "ev # evs" and ?h1 = "before (ev # evs) h 1"
  show ?case
  proof (cases "claimable ?evs clk h i 0 \<and> \<not> exchanged ?evs h 0")
    case False
    then have "claim_loop ?evs i clk gen h = claim_outcome ?evs clk h i 0"
      by (subst claim_loop.simps) (auto simp: Cons(2) claim_outcome_def claimable_def exchanged_def looked_def
          contested_def Let_def not_less)
    with False show ?thesis by auto
  next
    case lost: True
    then have eq: "claim_loop ?evs i clk gen h = claim_loop evs (Suc i) clk (h_command_owner_gen ?h1) ?h1"
      by (subst claim_loop.simps)
        (auto simp: Cons(2) claimable_def exchanged_def looked_def contested_def Let_def not_less)
    from Cons.IH[OF refl, of ?h1 "Suc i"] obtain n where n: "n \<le> length evs"
      "\<forall>j<n. claimable ?evs clk h i (Suc j) \<and> \<not> exchanged ?evs h (Suc j)"
      "claimable ?evs clk h i (Suc n) \<longrightarrow> exchanged ?evs h (Suc n)"
      "claim_loop ?evs i clk gen h = claim_outcome ?evs clk h i (Suc n)"
      unfolding eq course_shift claim_outcome_shift list.sel by blast
    with lost show ?thesis by (intro exI[of _ "Suc n"]) (auto simp: less_Suc_eq_0_disj)
  qed
qed

lemma claim_outcome_same: "claim_outcome evs clk h i n = (r, h') \<Longrightarrow> same_but_owner h h'"
  by (auto simp: claim_outcome_def same_but_owner_def Let_def split: if_splits)

lemma claim_loop_same:
  assumes "claim_loop evs i clk (h_command_owner_gen h) h = (r, h')"
  shows "same_but_owner h h'"
  using claim_loop_course[OF refl, of evs clk h i] claim_outcome_same assms by metis

section \<open>Attaching\<close>

definition attached :: "LLConfig \<Rightarrow> oid \<Rightarrow> LLSubscriber \<Rightarrow> bool" where
  "attached c b m \<longleftrightarrow> u_hdr m = Some b \<and> same_geometry (u_remote m) c \<and> u_L m = compute_layout c \<and>
     u_tx m = mk_ring c Upstream b \<and> u_rx m = mk_ring c Downstream b"

text \<open>The subscriber after it has adopted a new session.\<close>

definition adopted :: "LLConfig \<Rightarrow> oid \<Rightarrow> LLSegment \<Rightarrow> LLHeader \<Rightarrow> u64 option \<Rightarrow> LLSubscriber \<Rightarrow> LLSubscriber" where
  "adopted c b seg h claimed m =
     m\<lparr>u_seg := Some seg, u_hdr := Some b, u_remote := header_config (u_name m) h, u_L := compute_layout c,
       u_session := h_session_id h, u_sessions := u_sessions m + 1, u_last_frame := 0, u_next_cmd := 1,
       u_peer_shutdown := False, u_owns_commands := (claimed \<noteq> None),
       u_owner_gen := (case claimed of Some g \<Rightarrow> g | None \<Rightarrow> u_owner_gen m),
       u_tx := mk_ring c Upstream b, u_rx := mk_ring c Downstream b\<rparr>"

lemma adopted_attached: "hdr_describes c h \<Longrightarrow> attached c b (adopted c b seg h claimed m)"
  by (simp add: attached_def adopted_def same_geometry_header)

text \<open>
  A successful attach to a new session, whatever the segment holds: the layout used from then on
  is that of a valid configuration and fits the mapping.
\<close>

lemma try_connect_adopts:
  assumes "try_connect ops evs clk m k hp = (True, m', k', hp')"
    and "u_hdr m = None \<or> u_session m' \<noteq> u_session m"
  shows "\<exists>c b seg claimed h'. config_valid c \<and> hdr_describes c (m_hdr (hp b)) \<and> seg_address seg = Some b \<and>
    L_total_size (compute_layout c) \<le> seg_size seg \<and>
    claim_loop evs 0 clk (h_command_owner_gen (m_hdr (hp b))) (m_hdr (hp b)) = (claimed, h') \<and>
    m' = adopted c b seg (m_hdr (hp b)) claimed m \<and> hp' = upd_hdr b (\<lambda>_. h') hp"
proof -
  obtain seg k1 b cl where op: "LLSegment_open ops (u_name m) k = (Some seg, k1)"
    and sa: "seg_address seg = Some b" and vh: "validate_header (Some b) (seg_size seg) hp = Some cl"
    using assms(1) by (auto simp: try_connect_def split: prod.splits option.splits)
  let ?h = "m_hdr (hp b)"
  let ?c = "header_config ''x'' ?h"
  from vh have v: "config_valid ?c" and cl: "cl = compute_layout ?c" and d: "hdr_describes ?c ?h"
    and sz: "L_total_size cl \<le> seg_size seg"
    by (auto simp: validate_header_Some hdr_describes_def Let_def header_config_def)
  obtain claimed h' where cm: "claim_loop evs 0 clk (h_command_owner_gen ?h) ?h = (claimed, h')" by force
  have "\<not> (u_hdr m \<noteq> None \<and> h_session_id ?h = u_session m)"
    using assms op sa vh by (auto simp: try_connect_def Let_def)
  then have "m' = adopted ?c b seg ?h claimed m \<and> hp' = upd_hdr b (\<lambda>_. h') hp"
    using assms(1) op sa vh cm
    by (auto simp: try_connect_def Let_def adopted_def mk_ring_def cl) (simp_all add: header_config_def)
  with v d sa sz cm cl show ?thesis by metis
qed

lemma validated_config:
  assumes "validate_header (Some b) sz hp = Some cl" and "hdr_describes c (m_hdr (hp b))"
  shows "cl = compute_layout c"
proof -
  from assms(1) have "cl = compute_layout (header_config ''x'' (m_hdr (hp b)))"
    by (auto simp: validate_header_Some)
  also have "\<dots> = compute_layout c"
    by (rule same_geometry_layout[OF same_geometry_header[OF assms(2)]])
  finally show ?thesis .
qed

context segment_store
begin

text \<open>A segment that describes itself is adopted under the name it is bound to.\<close>

lemma attach:
  assumes "ok k" and "bound k (u_name m) = Some (b, sz)" and "config_valid c"
    and "hdr_describes c (m_hdr (hp b))" and "L_total_size (compute_layout c) \<le> sz"
    and "u_hdr m = None \<or> h_session_id (m_hdr (hp b)) \<noteq> u_session m"
    and "claim_loop evs 0 clk (h_command_owner_gen (m_hdr (hp b))) (m_hdr (hp b)) = (claimed, h')"
  shows "\<exists>seg k' k1. try_connect ops evs clk m k hp =
      (True, adopted c b seg (m_hdr (hp b)) claimed m, k', upd_hdr b (\<lambda>_. h') hp) \<and>
    sg_region seg = (Some b, sz) \<and> k' = LLSegment_destroy ops (u_seg m) k1 \<and>
    ok k1 \<and> bound k1 = bound k \<and> alloc k1 = alloc k"
proof -
  from open_bound[OF assms(1,2)] obtain seg k1 where op: "LLSegment_open ops (u_name m) k = (Some seg, k1)"
    and reg: "sg_region seg = (Some b, sz)" and k1: "ok k1" "bound k1 = bound k" "alloc k1 = alloc k" by blast
  have vh: "validate_header (Some b) sz hp = Some (compute_layout c)"
    using assms(3-5) by (rule validate_describes)
  have g: "cfg_command_slots (header_config (u_name m) (m_hdr (hp b))) = cfg_command_slots c"
    "cfg_max_command_bytes (header_config (u_name m) (m_hdr (hp b))) = cfg_max_command_bytes c"
    using same_geometry_header[OF assms(4)] by (simp_all add: same_geometry_def)
  have "try_connect ops evs clk m k hp = (True, adopted c b seg (m_hdr (hp b)) claimed m,
      LLSegment_destroy ops (u_seg m) k1, upd_hdr b (\<lambda>_. h') hp)"
    using op reg vh assms(6,7) g
    by (auto simp: try_connect_def seg_address_def seg_size_def Let_def adopted_def mk_ring_def)
  with reg k1 show ?thesis by blast
qed

lemma attach_absent:
  assumes "ok k" and "bound k (u_name m) = None"
  shows "\<exists>k'. try_connect ops evs clk m k hp = (False, m, k', hp) \<and> ok k' \<and> bound k' = bound k"
  using open_free[OF assms] by (auto simp: try_connect_def)

text \<open>The session we already read is kept, mapping and all.\<close>

lemma attach_same:
  assumes "ok k" and "bound k (u_name m) = Some (b, sz)" and "config_valid c"
    and "hdr_describes c (m_hdr (hp b))" and "L_total_size (compute_layout c) \<le> sz"
    and "u_hdr m \<noteq> None" and "h_session_id (m_hdr (hp b)) = u_session m"
  shows "\<exists>k'. try_connect ops evs clk m k hp = (True, m, k', hp) \<and> ok k' \<and> bound k' = bound k"
proof -
  from open_bound[OF assms(1,2)] obtain seg k1 where op: "LLSegment_open ops (u_name m) k = (Some seg, k1)"
    and reg: "sg_region seg = (Some b, sz)"
    and cl: "ok (op_close ops (sg_obj seg) k1)" "bound (op_close ops (sg_obj seg) k1) = bound k" by blast
  have "validate_header (Some b) sz hp = Some (compute_layout c)"
    using assms(3-5) by (rule validate_describes)
  with op reg assms(6,7) cl show ?thesis
    by (auto simp: try_connect_def seg_address_def seg_size_def Let_def LLSegment_destroy_def)
qed

end

section \<open>Commands of the owner\<close>

definition owner_ok :: "LLSubscriber \<Rightarrow> smem \<Rightarrow> bool" where
  "owner_ok m sm \<longleftrightarrow> u_owns_commands m \<and> h_command_owner_gen (m_hdr sm) = u_owner_gen m"

definition beat :: "u64 \<Rightarrow> LLHeader \<Rightarrow> LLHeader" where
  "beat now h = h\<lparr>h_command_owner_heartbeat_ns := now\<rparr>"

lemma still_owns_eq:
  assumes "attached c b m"
  shows "still_owns_commands now m hp =
    (if owner_ok m (hp b) then (True, m, upd_hdr b (beat now) hp)
     else (False, m\<lparr>u_owns_commands := False\<rparr>, hp))"
proof -
  have "\<not> u_owns_commands m \<Longrightarrow> m\<lparr>u_owns_commands := False\<rparr> = m" by (cases m) simp
  moreover have "u_hdr m = Some b" using assms by (simp add: attached_def)
  moreover have "beat now = (\<lambda>h. h\<lparr>h_command_owner_heartbeat_ns := now\<rparr>)" by (auto simp: beat_def)
  ultimately show ?thesis by (simp add: still_owns_commands_def owner_ok_def)
qed

lemma seg_inv_beat: "seg_inv c (hp b) \<Longrightarrow> seg_inv c (upd_hdr b (beat now) hp b)"
  using seg_inv_hdr[of c "beat now (m_hdr (hp b))" "hp b"] seg_inv_describes[of c "hp b"]
  by (simp add: upd_hdr_def beat_def)

lemma sub_send_accepted:
  assumes "attached c b m" and "seg_inv c (hp b)" and "owner_ok m (hp b)"
    and "length (send_data data sz) = unat sz" and "sz \<le> cfg_max_command_bytes c"
    and "length (ring_queue c Upstream (hp b)) < unat (cfg_command_slots c)"
  shows "\<exists>sm'. sub_send ty data sz reply_to clk m hp =
      (Some (u_next_cmd m), m\<lparr>u_next_cmd := u_next_cmd m + 1, u_sent := u_sent m + 1\<rparr>, hp(b := sm')) \<and>
    cmd_effect c Upstream (ring_queue c Upstream (hp b) @
      [mk_command ty (send_data data sz) (u_next_cmd m) reply_to (clk 1)]) (upd_hdr b (beat (clk 0)) hp b) sm'"
proof -
  let ?hp = "upd_hdr b (beat (clk 0)) hp"
  from push_seg[where hp = ?hp, OF seg_inv_beat[where hp = hp, OF assms(2)] assms(4,5), of Upstream ty "u_next_cmd m" reply_to "clk 1"]
    assms(6)
  obtain sm' where "push (mk_ring c Upstream b) ty data sz (u_next_cmd m) reply_to (clk 1) ?hp = (True, ?hp(b := sm'))"
    and "cmd_effect c Upstream (ring_queue c Upstream (hp b) @
      [mk_command ty (send_data data sz) (u_next_cmd m) reply_to (clk 1)]) (?hp b) sm'" by auto
  moreover have "?hp(b := sm') = hp(b := sm')" by (simp add: upd_hdr_def)
  ultimately show ?thesis
    using assms(1,3) still_owns_eq[OF assms(1), of "clk 0" hp] by (auto simp: sub_send_def attached_def Let_def)
qed

lemma sub_send_refused:
  assumes "attached c b m" and "seg_inv c (hp b)" and "owner_ok m (hp b)"
    and "sz > cfg_max_command_bytes c \<or> length (ring_queue c Upstream (hp b)) = unat (cfg_command_slots c)"
  shows "sub_send ty data sz reply_to clk m hp =
    (None, m\<lparr>u_cmd_dropped := u_cmd_dropped m + 1\<rparr>, upd_hdr b (beat (clk 0)) hp)"
  using push_refused[where hp = "upd_hdr b (beat (clk 0)) hp", OF seg_inv_beat[where hp = hp, OF assms(2)], of sz Upstream]
    assms still_owns_eq[OF assms(1), of "clk 0" hp]
  by (auto simp: sub_send_def attached_def Let_def)

text \<open>Without the channel neither direction is touched.\<close>

lemma sub_not_owner:
  assumes "attached c b m" and "\<not> owner_ok m (hp b)"
  shows "sub_send ty data sz reply_to clk m hp = (None, m\<lparr>u_owns_commands := False\<rparr>, hp)"
    and "sub_receive clk m hp = (None, m\<lparr>u_owns_commands := False\<rparr>, hp)"
  using assms still_owns_eq[OF assms(1), of "clk 0" hp]
  by (simp_all add: sub_send_def sub_receive_def attached_def)

lemma sub_receive_eq:
  assumes "attached c b m" and "seg_inv c (hp b)" and "owner_ok m (hp b)"
  shows "(case ring_queue c Downstream (hp b) of
      [] \<Rightarrow> sub_receive clk m hp = (None, m, upd_hdr b (beat (clk 0)) hp)
    | x # q \<Rightarrow> \<exists>sm'. sub_receive clk m hp =
          (Some x, m\<lparr>u_recvd := u_recvd m + 1, u_last_progress := clk 1\<rparr>, hp(b := sm')) \<and>
        cmd_effect c Downstream q (upd_hdr b (beat (clk 0)) hp b) sm')"
proof -
  let ?hp = "upd_hdr b (beat (clk 0)) hp"
  have "?hp(b := sm') = hp(b := sm')" for sm' by (simp add: upd_hdr_def)
  then show ?thesis
    using pop_seg[where hp = ?hp, OF seg_inv_beat[where hp = hp, OF assms(2)], of Downstream] assms(1,3)
      still_owns_eq[OF assms(1), of "clk 0" hp]
    by (auto simp: sub_receive_def attached_def split: list.splits)
qed

section \<open>What a read returns\<close>

text \<open>The facts one attempt has established when the loop returns \<open>Ok\<close>.\<close>

definition attempt_ok :: "(nat \<Rightarrow> smem) \<Rightarrow> LLSubscriber \<Rightarrow> u32 \<Rightarrow> LLFrameInfo \<Rightarrow> u8 list \<Rightarrow> bool" where
  "attempt_ok v m slot fi bs \<longleftrightarrow>
     (let packed = h_latest (m_hdr (v 0)); s = slot_at (u_L m) slot; n = unat (fi_payload_bytes fi) in
      packed \<noteq> 0 \<and> drop_bit 2 packed \<noteq> u_last_frame m \<and> slot = ucast (packed AND 3) \<and>
      slot < cfg_slot_count (u_remote m) \<and> even (s_seq (m_slots (v 1) s)) \<and> fi = load_info v s \<and>
      0 < n \<and> n \<le> unat (max_payload (u_remote m)) \<and> bs = copy_out v (slot_payload (u_L m) slot) n \<and>
      s_seq (m_slots (v (8 + n)) s) = s_seq (m_slots (v 1) s))"

definition after_read :: "u64 \<Rightarrow> LLFrameInfo \<Rightarrow> LLSubscriber \<Rightarrow> LLSubscriber" where
  "after_read now fi m =
     m\<lparr>u_dropped := (if u_last_frame m \<noteq> 0 \<and> fi_frame_id fi > u_last_frame m
                     then u_dropped m + (fi_frame_id fi - u_last_frame m - 1) else u_dropped m),
       u_last_frame := fi_frame_id fi, u_last_progress := now, u_received := u_received m + 1\<rparr>"

lemma length_copy_out [simp]: "length (copy_out v a n) = n"
  by (simp add: copy_out_def)

lemma and_one_odd: "(w :: u64) AND 1 \<noteq> 0 \<longleftrightarrow> odd w"
  by (simp add: and_one_eq even_iff_mod_2_eq_zero)

text \<open>One attempt of a read that succeeds: it delivers a frame, or the rest of the attempts does.\<close>

lemma read_attempt_step:
  assumes "read_attempts (Suc n) a v now m dst = (Read_Ok, dst', info, m')" and "length dst < 2 ^ 64"
  shows "(\<exists>d. read_attempts n (Suc a) v now m d = (Read_Ok, dst', info, m') \<and> length d = length dst) \<or>
    (\<exists>slot fi bs. attempt_ok (v a) m slot fi bs \<and> info = Some fi \<and> length dst' = length dst \<and> take (length bs) dst' = bs \<and> m' = after_read now fi m)"
proof -
  define slot where "slot = (ucast (h_latest (m_hdr (v a 0)) AND 3) :: u32)"
  define s where "s = slot_at (u_L m) slot"
  define fi where "fi = load_info (v a) s"
  define bytes where "bytes = (ucast (fi_payload_bytes fi) :: u64)"
  define bs where "bs = copy_out (v a) (slot_payload (u_L m) slot) (unat bytes)"
  define dst1 where "dst1 = bs @ drop (unat bytes) dst"
  note eq = assms(1)[unfolded read_attempts.simps Let_def slot_def[symmetric] s_def[symmetric] fi_def[symmetric] bytes_def[symmetric]
      bs_def[symmetric] dst1_def[symmetric]]
  consider (odd) "odd (s_seq (m_slots (v a 1) s))"
    | (torn) "s_seq (m_slots (v a 8) s) \<noteq> s_seq (m_slots (v a 1) s)"
        "bytes = 0 \<or> bytes > max_payload (u_remote m) \<or> bytes > of_nat (length dst)"
    | (copied) "\<not> (s_seq (m_slots (v a 8) s) \<noteq> s_seq (m_slots (v a 1) s) \<and>
        (bytes = 0 \<or> bytes > max_payload (u_remote m) \<or> bytes > of_nat (length dst)))" "even (s_seq (m_slots (v a 1) s))" by blast
  then show ?thesis
  proof cases
    case copied
    with eq have c: "h_latest (m_hdr (v a 0)) \<noteq> 0" "drop_bit 2 (h_latest (m_hdr (v a 0))) \<noteq> u_last_frame m"
      "slot < cfg_slot_count (u_remote m)" "even (s_seq (m_slots (v a 1) s))"
      "bytes \<noteq> 0" "bytes \<le> max_payload (u_remote m)" "bytes \<le> of_nat (length dst)"
      by (auto simp: and_one_odd not_less not_le split: if_splits)
    have l: "length bs = unat bytes" "length dst1 = length dst" "take (unat bytes) dst1 = bs"
      using c(7) assms(2) by (simp_all add: dst1_def bs_def word_le_unat unat_of_nat64)
    show ?thesis
    proof (cases "s_seq (m_slots (v a (8 + unat bytes)) s) = s_seq (m_slots (v a 1) s)")
      case False
      with eq c l(2) show ?thesis by (auto simp: and_one_odd not_less not_le split: if_splits)
    next
      case True
      with eq c have "dst' = dst1" "info = Some fi" "m' = after_read now fi m"
        by (auto simp: and_one_odd not_less not_le after_read_def split: if_splits)
      moreover have "attempt_ok (v a) m slot fi bs"
        using c True unfolding attempt_ok_def Let_def slot_def[symmetric] s_def[symmetric]
        by (auto simp: fi_def bytes_def bs_def word_le_unat unat_gt_0 unat_eq_zero)
      ultimately show ?thesis using l by (intro disjI2 exI[of _ slot] exI[of _ fi] exI[of _ bs]) simp
    qed
  qed (use eq in \<open>auto simp: and_one_odd split: if_splits\<close>)
qed

lemma read_attempts_Ok:
  assumes "read_attempts n a v now m dst = (Read_Ok, dst', info, m')" and "length dst < 2 ^ 64"
  shows "\<exists>i slot fi bs. a \<le> i \<and> i < a + n \<and> attempt_ok (v i) m slot fi bs \<and> info = Some fi \<and>
    length dst' = length dst \<and> take (length bs) dst' = bs \<and> m' = after_read now fi m"
  using assms
proof (induction n arbitrary: a dst)
  case (Suc n)
  from read_attempt_step[OF Suc.prems] show ?case
  proof (elim disjE exE conjE)
    fix d assume "read_attempts n (Suc a) v now m d = (Read_Ok, dst', info, m')" "length d = length dst"
    with Suc.IH[of "Suc a" d] Suc.prems(2) obtain i slot fi bs where "Suc a \<le> i" "i < Suc a + n" "attempt_ok (v i) m slot fi bs"
      "info = Some fi" "length dst' = length dst" "take (length bs) dst' = bs" "m' = after_read now fi m" by auto
    then show ?thesis by (intro exI[of _ i] exI[of _ slot] exI[of _ fi] exI[of _ bs]) auto
  qed force
qed simp

lemma slot_lt_4: "config_valid c \<Longrightarrow> j < cfg_slot_count c \<Longrightarrow> unat j < 4"
  using config_validD(10)[of c] by (simp add: word_less_unat)

lemma attached_geometry:
  assumes "attached c b m"
  shows "cfg_slot_count (u_remote m) = cfg_slot_count c" "max_payload (u_remote m) = max_payload c"
    "u_L m = compute_layout c"
  using assms same_geometry_payload[of "u_remote m" c] by (auto simp: attached_def same_geometry_def)

text \<open>
  An attempt during which nobody touches the slot \<open>latest\<close> points to returns its frame, whatever
  happens elsewhere in the segment.
\<close>

lemma read_stable_ok:
  assumes "attached c b m" and "config_valid c" and "j < cfg_slot_count c"
    and "h_latest (m_hdr (v a 0)) = push_bit 2 fid OR ucast j" and "fid \<noteq> 0" and "unat fid < 2 ^ 62"
    and "fid \<noteq> u_last_frame m" and "even (s_seq (slot_of c sm j))"
    and "0 < unat (s_payload_bytes (slot_of c sm j))"
    and "unat (s_payload_bytes (slot_of c sm j)) \<le> unat (max_payload c)"
    and "unat (s_payload_bytes (slot_of c sm j)) \<le> length dst" and "length dst < 2 ^ 64"
    and st: "\<And>i. 1 \<le> i \<Longrightarrow> slot_of c (v a i) j = slot_of c sm j"
    and bt: "\<And>i k. k < unat (max_payload c) \<Longrightarrow> m_bytes (v a (8 + i)) (slot_payload (compute_layout c) j + of_nat k) =
      m_bytes sm (slot_payload (compute_layout c) j + of_nat k)"
  shows "read_attempts (Suc n) a v now m dst =
    (Read_Ok, slot_bytes c sm j @ drop (unat (s_payload_bytes (slot_of c sm j))) dst,
     Some (slot_info (slot_of c sm j)), after_read now (slot_info (slot_of c sm j)) m)"
proof -
  let ?p = "push_bit 2 fid OR ucast j :: u64" and ?s = "slot_of c sm j"
  note j4 = slot_lt_4[OF assms(2,3)]
  have u: "?p \<noteq> 0" "drop_bit 2 ?p = fid" "ucast (?p AND 3) = j"
    using packed_nonzero[OF assms(6) j4 assms(5)] unpack_id[OF assms(6) j4] unpack_slot[OF j4] by blast+
  note g = attached_geometry[OF assms(1)]
  let ?b = "ucast (s_payload_bytes ?s) :: u64"
  have "unat ?b \<noteq> 0" using assms(9) by simp
  then have b: "?b \<noteq> 0" "\<not> max_payload c < ?b" "\<not> of_nat (length dst) < ?b"
    using assms(9-12) by (auto simp: word_less_unat unat_of_nat64 simp del: unat_ucast_32_64)
      (simp_all add: word_less_unat)
  have ms: "m_slots (v a i) (slot_at (compute_layout c) j) = ?s" if "1 \<le> i" for i
    using st[OF that] by (simp add: slot_of_def)
  have li: "load_info (v a) (slot_at (compute_layout c) j) = slot_info ?s"
    by (simp add: load_info_def slot_info_def ms)
  have fp: "fi_payload_bytes (slot_info ?s) = s_payload_bytes ?s" by (simp add: slot_info_def)
  have ub: "unat ?b = unat (s_payload_bytes ?s)" by simp
  have co: "copy_out (v a) (slot_payload (compute_layout c) j) (unat (s_payload_bytes ?s)) = slot_bytes c sm j"
    using bt assms(10) by (simp add: copy_out_def slot_bytes_def read_bytes_def)
  have m1: "m_slots (v a 1) (slot_at (compute_layout c) j) = ?s"
    "m_slots (v a (8 + k)) (slot_at (compute_layout c) j) = ?s" for k by (simp_all add: ms)
  have f: "(?p = 0 \<or> fid = u_last_frame m) = False" "(cfg_slot_count c \<le> j) = False"
    "(s_seq ?s AND 1 \<noteq> 0) = False" "(?b = 0 \<or> max_payload c < ?b) = False"
    "(of_nat (length dst) < ?b) = False" "(s_seq ?s \<noteq> s_seq ?s) = False"
    using u(1) assms(3,7,8) b by (auto simp: and_one_odd)
  show ?thesis
    unfolding read_attempts.simps Let_def assms(4) u g li fp m1 after_read_def f if_False ub co ..
qed

lemmas read_calm_ok = read_stable_ok[where v = "calm sm" and sm = sm for sm, unfolded calm_def, simplified]

lemma read_calm_none:
  assumes "h_latest (m_hdr sm) = 0 \<or> drop_bit 2 (h_latest (m_hdr sm)) = u_last_frame m"
  shows "read_attempts (Suc n) a (calm sm) now m dst =
    (if h_shutdown (m_hdr sm) \<noteq> 0 then (Disconnected, dst, None, m\<lparr>u_peer_shutdown := True\<rparr>)
     else (NoNewFrame, dst, None, m))"
  using assms by (auto simp: calm_def Let_def)

section \<open>Reads stay inside the segment\<close>

text \<open>Two memories that agree on the header, the slot headers and the payload areas.\<close>

definition frames_agree :: "LLConfig \<Rightarrow> smem \<Rightarrow> smem \<Rightarrow> bool" where
  "frames_agree c sm sm' \<longleftrightarrow> m_hdr sm = m_hdr sm' \<and>
     (\<forall>i<cfg_slot_count c. slot_of c sm i = slot_of c sm' i) \<and>
     (\<forall>i<cfg_slot_count c. \<forall>j<unat (max_payload c).
        m_bytes sm (slot_payload (compute_layout c) i + of_nat j) =
        m_bytes sm' (slot_payload (compute_layout c) i + of_nat j))"

lemma read_attempts_agree:
  assumes "attached c b m" and "\<And>a i. frames_agree c (v a i) (w a i)"
  shows "read_attempts n a v now m dst = read_attempts n a w now m dst"
proof (induction n arbitrary: a dst)
  case (Suc n)
  have g: "cfg_slot_count (u_remote m) = cfg_slot_count c" "max_payload (u_remote m) = max_payload c"
    "u_L m = compute_layout c"
    using attached_geometry[OF assms(1)] by blast+
  define slot :: u32 where "slot = ucast (h_latest (m_hdr (w a 0)) AND 3)"
  have hdr: "m_hdr (v a i) = m_hdr (w a i)" for i using assms(2)[of a i] by (simp add: frames_agree_def)
  show ?case
  proof (cases "slot < cfg_slot_count c")
    case False
    then show ?thesis by (simp add: Let_def hdr g not_less flip: slot_def)
  next
    case True
    have sl: "m_slots (v a i) (slot_at (compute_layout c) slot) = m_slots (w a i) (slot_at (compute_layout c) slot)" for i
      using assms(2)[of a i] True by (simp add: frames_agree_def slot_of_def)
    have li: "load_info (v a) (slot_at (compute_layout c) slot) = load_info (w a) (slot_at (compute_layout c) slot)"
      by (simp add: load_info_def sl)
    have co: "copy_out (v a) (slot_payload (compute_layout c) slot) k = copy_out (w a) (slot_payload (compute_layout c) slot) k"
      if "k \<le> unat (max_payload c)" for k
      using assms(2)[of a] True that by (auto simp: copy_out_def frames_agree_def)
    define bytes :: u64 where
      "bytes = ucast (fi_payload_bytes (load_info (w a) (slot_at (compute_layout c) slot)))"
    show ?thesis
    proof (cases "bytes > max_payload c")
      case True
      then have cut: "(bytes = 0 \<or> bytes > max_payload c) = True" by simp
      show ?thesis
        unfolding read_attempts.simps Let_def hdr slot_def[symmetric] g sl li bytes_def[symmetric]
        by (simp only: cut if_True Suc.IH)
    next
      case False
      then have "unat bytes \<le> unat (max_payload c)" by (simp add: word_less_unat not_less)
      note same = co[OF this]
      show ?thesis
        unfolding read_attempts.simps Let_def hdr slot_def[symmetric] g sl li bytes_def[symmetric]
        by (simp only: same Suc.IH)
    qed
  qed
qed simp

section \<open>Polling\<close>

lemma poll_connected: "poll ops evs clk m k hp = (True, m', k', hp') \<Longrightarrow> connected m'"
  by (auto simp: poll_def Let_def connected_def producer_responsive_def
      split: if_splits prod.splits option.splits)

text \<open>A subscriber with recent progress keeps its mapping and only refreshes its claim.\<close>

lemma poll_healthy:
  assumes "attached c b m" and "clk 0 - u_last_progress m < u_stale_ns m"
  shows "poll ops evs clk m k hp =
    (if owner_ok m (hp b) then (True, m, k, upd_hdr b (beat (clk 1)) hp)
     else (True, m\<lparr>u_owns_commands := False\<rparr>, k, hp))"
  using assms still_owns_eq[OF assms(1), of "clk 1" hp]
  by (simp add: poll_def Let_def attached_def)

lemma attached_upd [simp]:
  "attached c b (m\<lparr>u_owns_commands := x\<rparr>) = attached c b m"
  "attached c b (m\<lparr>u_last_attempt := t\<rparr>) = attached c b m"
  "attached c b (m\<lparr>u_last_progress := t\<rparr>) = attached c b m"
  "attached c b (m\<lparr>u_last_read_ns := t\<rparr>) = attached c b m"
  by (simp_all add: attached_def)

text \<open>The refresh \<open>poll\<close> does on its way, and the mark the read gate leaves.\<close>

definition polled :: "oid \<Rightarrow> u64 \<Rightarrow> LLSubscriber \<Rightarrow> heap \<Rightarrow> LLSubscriber \<times> heap" where
  "polled b now m hp =
     (if owner_ok m (hp b) then (m, upd_hdr b (beat now) hp) else (m\<lparr>u_owns_commands := False\<rparr>, hp))"

definition gate_mark :: "u64 \<Rightarrow> LLSubscriber \<Rightarrow> LLSubscriber" where
  "gate_mark now m = (if u_min_read_ns m \<noteq> 0 then m\<lparr>u_last_read_ns := now\<rparr> else m)"

lemma polled_fields:
  assumes "polled b now m hp = (m', hp')"
  shows "attached c b m' = attached c b m" "u_last_frame m' = u_last_frame m" "u_received m' = u_received m"
    "u_min_read_ns m' = u_min_read_ns m" "u_last_read_ns m' = u_last_read_ns m" "u_dropped m' = u_dropped m"
    "h_latest (m_hdr (hp' b)) = h_latest (m_hdr (hp b))" "h_shutdown (m_hdr (hp' b)) = h_shutdown (m_hdr (hp b))"
    "m_slots (hp' b) = m_slots (hp b)" "m_bytes (hp' b) = m_bytes (hp b)"
  using assms by (auto simp: polled_def beat_def split: if_splits)

lemma gate_mark_fields [simp]:
  "attached c b (gate_mark now m) = attached c b m" "u_last_frame (gate_mark now m) = u_last_frame m"
  "u_received (gate_mark now m) = u_received m" "u_hdr (gate_mark now m) = u_hdr m"
  "u_dropped (gate_mark now m) = u_dropped m"
  by (simp_all add: gate_mark_def)

text \<open>With recent progress and an open gate, \<open>read_latest\<close> is its read loop.\<close>

lemma read_latest_healthy:
  assumes "attached c b m" and "pclk 0 - u_last_progress m < u_stale_ns m" and "read_due clk m"
    and "polled b (pclk 1) m hp = (m1, hp1)"
  shows "read_latest ops evs pclk clk view dst m k hp =
    (case read_attempts 4 0 (view (hp1 b)) (clk 1) (gate_mark (clk 0) m1) dst of
       (r, dst1, info, m2) \<Rightarrow> ((r, dst1, info), m2, k, hp1))"
proof -
  have p: "poll ops evs pclk m k hp = (True, m1, k, hp1)"
    using assms(4) by (auto simp: poll_healthy[where clk = pclk, OF assms(1,2)] polled_def split: if_splits)
  have "attached c b m1" using polled_fields(1)[OF assms(4), of c] assms(1) by simp
  then have "u_hdr m1 = Some b" by (simp add: attached_def)
  then show ?thesis
    using assms(3) polled_fields(4,5)[OF assms(4)]
    by (auto simp: read_latest_def p read_due_def Let_def gate_mark_def not_less[symmetric] split: if_splits)
qed

lemma read_latest_throttled:
  assumes "attached c b m" and "pclk 0 - u_last_progress m < u_stale_ns m" and "\<not> read_due clk m"
    and "polled b (pclk 1) m hp = (m1, hp1)"
  shows "read_latest ops evs pclk clk view dst m k hp =
    ((Throttled, dst, None), m1\<lparr>u_throttled := u_throttled m1 + 1\<rparr>, k, hp1)"
proof -
  have p: "poll ops evs pclk m k hp = (True, m1, k, hp1)"
    using assms(4) by (auto simp: poll_healthy[where clk = pclk, OF assms(1,2)] polled_def split: if_splits)
  then show ?thesis
    using assms(3) polled_fields(4,5)[OF assms(4)]
    by (auto simp: read_latest_def read_due_def not_le split: if_splits)
qed

section \<open>A small subscriber\<close>

definition demo_sub :: "LLHeader \<Rightarrow> LLSubscriber" where
  "demo_sub h = adopted demo_config 2
     \<lparr>sg_obj = 3, sg_region = (Some 2, L_total_size (compute_layout demo_config))\<rparr> h (Some 5)
     (LLSubscriber_new\<lparr>u_name := ''demo''\<rparr>)"

lemma demo_sub_attached: "hdr_describes demo_config h \<Longrightarrow> attached demo_config 2 (demo_sub h)"
  unfolding demo_sub_def by (rule adopted_attached)

lemma demo_sub_simps [simp]:
  "u_last_frame (demo_sub h) = 0" "u_hdr (demo_sub h) = Some 2" "u_min_read_ns (demo_sub h) = 0"
  "u_last_progress (demo_sub h) = 0" "u_owns_commands (demo_sub h)" "u_owner_gen (demo_sub h) = 5"
  "u_stale_ns (demo_sub h) = 500000000" "u_next_cmd (demo_sub h) = 1" "u_received (demo_sub h) = 0"
  by (simp_all add: demo_sub_def adopted_def LLSubscriber_new_def)

lemma demo_sub_dropped: "u_dropped (demo_sub h) = 0"
  by (simp add: demo_sub_def adopted_def LLSubscriber_new_def)

section \<open>Counting frames\<close>

text \<open>
  A series of reads by one subscriber, each with the views its accesses get, the time it ends and
  its buffer; the infos of the successful ones are collected.
\<close>

fun read_series :: "((nat \<Rightarrow> nat \<Rightarrow> smem) \<times> u64 \<times> u8 list) list \<Rightarrow> LLSubscriber \<Rightarrow> LLFrameInfo list \<times> LLSubscriber" where
  "read_series [] m = ([], m)"
| "read_series ((v, now, dst) # rs) m =
     (case read_attempts 4 0 v now m dst of
        (Read_Ok, dst', Some fi, m1) \<Rightarrow> (case read_series rs m1 of (fis, m2) \<Rightarrow> (fi # fis, m2))
      | (r, dst', info, m1) \<Rightarrow> read_series rs m1)"

lemma read_attempts_other:
  assumes "read_attempts n a v now m dst = (r, dst', info, m')" and "r \<noteq> Read_Ok"
  shows "m' = m \<or> m' = m\<lparr>u_peer_shutdown := True\<rparr>"
  using assms
proof (induction n arbitrary: a dst)
  case 0
  then have "m' = m" unfolding read_attempts.simps prod.inject by blast
  then show ?case ..
next
  case (Suc n)
  define s where "s = slot_at (u_L m) (ucast (h_latest (m_hdr (v a 0)) AND 3))"
  define fi where "fi = load_info (v a) s"
  define bytes where "bytes = (ucast (fi_payload_bytes fi) :: u64)"
  define dst1 where "dst1 = copy_out (v a) (slot_payload (u_L m) (ucast (h_latest (m_hdr (v a 0)) AND 3))) (unat bytes) @
    drop (unat bytes) dst"
  from Suc.prems(1)[unfolded read_attempts.simps Let_def s_def[symmetric] fi_def[symmetric] bytes_def[symmetric]
      dst1_def[symmetric]]
  show ?case using Suc.IH Suc.prems(2) by (simp only: prod.inject split: if_split_asm) blast+
qed

lemma read_series_Cons:
  assumes "read_series ((v, now, dst) # rs) m = (fis, m')" and "length dst < 2 ^ 64"
  obtains (got) fi fis' where "fis = fi # fis'" "read_series rs (after_read now fi m) = (fis', m')"
  | (none) m1 where "u_last_frame m1 = u_last_frame m" "u_received m1 = u_received m" "u_dropped m1 = u_dropped m"
      "read_series rs m1 = (fis, m')"
proof -
  obtain r dst' info m1 where r: "read_attempts 4 0 v now m dst = (r, dst', info, m1)" by (metis prod_cases4)
  show ?thesis
  proof (cases "r = Read_Ok")
    case True
    with read_attempts_Ok[of 4 0 v now m dst dst' info m1] r assms(2)
    obtain fi where "info = Some fi" "m1 = after_read now fi m" by auto
    with True r assms(1) got show ?thesis by (auto split: prod.splits)
  next
    case False
    with read_attempts_other[OF r False] r assms(1) show ?thesis
      by (intro none[of m1]) (auto split: LLReadResult.splits)
  qed
qed

text \<open>The first id that counts: the successor of the last frame read, or the first one read after an attach.\<close>

definition first_counted :: "LLSubscriber \<Rightarrow> u64 list \<Rightarrow> u64" where
  "first_counted m ids = (if u_last_frame m = 0 then hd ids else u_last_frame m + 1)"

lemma sum_chain: "(a :: u64) + x = b + y \<Longrightarrow> d + y = a + l \<Longrightarrow> d + x = b + l"
  by (metis (no_types, lifting) add.assoc add.commute add_right_cancel)

lemma after_read_count:
  assumes "u_last_frame m < fi_frame_id fi" and "m1 = after_read now fi m"
  shows "u_dropped m1 + u_received m1 + first_counted m (fi_frame_id fi # ids) =
      u_dropped m + u_received m + (fi_frame_id fi + 1)"
    and "u_received m1 = u_received m + 1" and "u_last_frame m1 = fi_frame_id fi" and "u_last_frame m1 \<noteq> 0"
  using assms by (auto simp: after_read_def first_counted_def)

lemma read_series_count:
  assumes "read_series rs m = (fis, m')" and "\<forall>(v, now, dst) \<in> set rs. length dst < 2 ^ 64"
    and "sorted_wrt (<) (u_last_frame m # map fi_frame_id fis)"
  shows "u_received m' = u_received m + of_nat (length fis) \<and>
    u_last_frame m' = last (u_last_frame m # map fi_frame_id fis) \<and>
    (if fis = [] then u_dropped m' = u_dropped m
     else u_dropped m' + u_received m' + first_counted m (map fi_frame_id fis) =
       u_dropped m + u_received m + (u_last_frame m' + 1))"
  using assms
proof (induction rs arbitrary: m fis)
  case (Cons x rs)
  obtain v now dst where x: "x = (v, now, dst)" by (metis prod_cases3)
  have l: "length dst < 2 ^ 64" using Cons.prems(2) by (auto simp: x)
  from Cons.prems(1)[unfolded x] l show ?case
  proof (cases rule: read_series_Cons)
    case (got fi fis')
    let ?m = "after_read now fi m"
    have lt: "u_last_frame m < fi_frame_id fi" using Cons.prems(3) got(1) by simp
    note c = after_read_count[OF lt refl, of now]
    have ih: "u_received m' = u_received ?m + of_nat (length fis')"
      "u_last_frame m' = last (fi_frame_id fi # map fi_frame_id fis')"
      "if fis' = [] then u_dropped m' = u_dropped ?m
       else u_dropped m' + u_received m' + (fi_frame_id fi + 1) = u_dropped ?m + u_received ?m + (u_last_frame m' + 1)"
      using Cons.IH[OF got(2)] Cons.prems(2,3) c(3,4) got(1) by (auto simp: first_counted_def split: if_splits)
    have "u_dropped m' + u_received m' + first_counted m (map fi_frame_id fis) = u_dropped m + u_received m + (u_last_frame m' + 1)"
    proof (cases "fis' = []")
      case True
      with ih c(1)[of "[]"] show ?thesis by (simp add: got(1))
    next
      case False
      with ih have "u_dropped m' + u_received m' + (fi_frame_id fi + 1) =
        u_dropped ?m + u_received ?m + (u_last_frame m' + 1)" by simp
      from sum_chain[OF c(1) this] show ?thesis by (simp add: got(1))
    qed
    with ih c(2) show ?thesis by (simp add: got(1) algebra_simps)
  next
    case (none m1)
    with Cons.IH[OF none(4)] Cons.prems(2,3) show ?thesis by (auto simp: first_counted_def)
  qed
qed (simp add: first_counted_def)

text \<open>A segment whose slot 0 holds frame \<open>n\<close>, of two pixels.\<close>

definition demo_frame :: "u64 \<Rightarrow> smem" where
  "demo_frame n = (let sm = init_segment demo_config 7 1000 smem_zero in
     sm\<lparr>m_hdr := (m_hdr sm)\<lparr>h_latest := push_bit 2 n\<rparr>,
        m_slots := (m_slots sm)(slot_at (compute_layout demo_config) 0 :=
          LLSlotHeader_zero\<lparr>s_frame_id := n, s_width := 2, s_height := 1, s_stride := 4, s_payload_bytes := 4\<rparr>)\<rparr>)"

lemma demo_frame_slot: "slot_of demo_config (demo_frame n) 0 =
    LLSlotHeader_zero\<lparr>s_frame_id := n, s_width := 2, s_height := 1, s_stride := 4, s_payload_bytes := 4\<rparr>"
  "h_latest (m_hdr (demo_frame n)) = push_bit 2 n"
  by (simp_all add: demo_frame_def slot_of_def Let_def)

lemma demo_frame_read:
  assumes "attached demo_config b m" and "0 < unat n" and "unat n < 2 ^ 62" and "u_last_frame m \<noteq> n"
  shows "\<exists>fi dst'. fi_frame_id fi = n \<and> read_attempts 4 0 (calm (demo_frame n)) now m (replicate 4 0) =
    (Read_Ok, dst', Some fi, after_read now fi m)"
proof -
  have d: "0 < cfg_slot_count demo_config" "unat (max_payload demo_config) = 4"
    by (simp_all add: demo_config_def max_payload_def)
  have "read_attempts (Suc 3) 0 (calm (demo_frame n)) now m (replicate 4 0) =
      (Read_Ok, slot_bytes demo_config (demo_frame n) 0 @ drop (unat (s_payload_bytes (slot_of demo_config (demo_frame n) 0))) (replicate 4 0),
       Some (slot_info (slot_of demo_config (demo_frame n) 0)), after_read now (slot_info (slot_of demo_config (demo_frame n) 0)) m)"
    using assms by (intro read_stable_ok[where c = demo_config and b = b and j = 0 and fid = n])
      (auto simp: calm_def demo_frame_slot demo_config_valid d LLSlotHeader_zero_def unat_gt_0)
  then show ?thesis
    by (intro exI[of _ "slot_info (slot_of demo_config (demo_frame n) 0)"])
      (simp only: Suc_numeral semiring_norm, simp add: demo_frame_slot slot_info_def)
qed

section \<open>Properties\<close>

text \<open>
  C18.  Reads stay inside the segment.  What the read loop returns, with whatever header values it
  meets, depends only on the header, the slot headers of the layout and the payload areas
  of those slots: two histories that agree there are indistinguishable to it.
\<close>

theorem reads_stay_in_slots:
  assumes "attached c b m" and "\<forall>a i. frames_agree c (v a i) (w a i)"
  shows "read_attempts n a v now m dst = read_attempts n a w now m dst"
  using assms by (intro read_attempts_agree) auto

theorem reads_stay_in_slots_witness:
  "read_attempts 4 0 (calm smem_zero) 9 (demo_sub (m_hdr (init_segment demo_config 7 1000 smem_zero))) [0] =
   read_attempts 4 0 (calm (smem_zero\<lparr>m_cmds := (\<lambda>_. LLCmdHeader_zero\<lparr>c_id := 3\<rparr>)\<rparr>)) 9
     (demo_sub (m_hdr (init_segment demo_config 7 1000 smem_zero))) [0]"
  by (rule reads_stay_in_slots[OF demo_sub_attached[OF hdr_describes_init]])
    (simp add: frames_agree_def calm_def slot_of_def)

text \<open>
  C17.  Frame accounting.  Over any series of reads, whatever the writer does meanwhile, in which the ids
  that come back increase, every id from the first one due (the one after the last frame
  read before, or the first frame read after an attach) to the last one read is counted exactly
  once, as received or as dropped; reads that return no frame count nothing.
\<close>

theorem frames_accounted:
  assumes "read_series rs m = (fis, m')" and "\<forall>(v, now, dst) \<in> set rs. length dst < 2 ^ 64"
    and "sorted_wrt (<) (u_last_frame m # map fi_frame_id fis)" and "fis \<noteq> []"
  shows "u_received m' = u_received m + of_nat (length fis) \<and>
    u_last_frame m' = last (map fi_frame_id fis) \<and>
    u_dropped m' + u_received m' + first_counted m (map fi_frame_id fis) =
      u_dropped m + u_received m + (last (map fi_frame_id fis) + 1)"
  using read_series_count[OF assms(1-3)] assms(4) by auto

theorem frames_accounted_witness:
  "\<exists>m' fis. read_series [(calm (demo_frame 4), 10, replicate 4 0), (calm (demo_frame 4), 15, replicate 4 0),
      (calm (demo_frame 9), 20, replicate 4 0)] (demo_sub (m_hdr (init_segment demo_config 7 1000 smem_zero))) = (fis, m') \<and>
    map fi_frame_id fis = [4, 9] \<and> u_received m' = 2 \<and> u_dropped m' = 4"
proof -
  let ?m = "demo_sub (m_hdr (init_segment demo_config 7 1000 smem_zero))"
  let ?rs = "[(calm (demo_frame 4), 10, replicate 4 0), (calm (demo_frame 4), 15, replicate 4 0),
    (calm (demo_frame 9), 20, replicate 4 0)] :: ((nat \<Rightarrow> nat \<Rightarrow> smem) \<times> u64 \<times> u8 list) list"
  have a: "attached demo_config 2 ?m" by (rule demo_sub_attached[OF hdr_describes_init])
  obtain f1 d1 where f1: "fi_frame_id f1 = 4" "read_attempts 4 0 (calm (demo_frame 4)) 10 ?m (replicate 4 0) =
      (Read_Ok, d1, Some f1, after_read 10 f1 ?m)"
    using demo_frame_read[OF a, of 4 10] by auto
  let ?m1 = "after_read 10 f1 ?m"
  have a1: "attached demo_config 2 ?m1" using a by (simp add: attached_def after_read_def)
  have l1: "u_last_frame ?m1 = 4" using f1(1) by (simp add: after_read_def)
  have n: "read_attempts 4 0 (calm (demo_frame 4)) 15 ?m1 (replicate 4 0) = (NoNewFrame, replicate 4 0, None, ?m1)"
  proof -
    have "h_shutdown (m_hdr (demo_frame 4)) = 0" by (simp add: demo_frame_def Let_def init_segment_def LLHeader_zero_def)
    then have "read_attempts (Suc 3) 0 (calm (demo_frame 4)) 15 ?m1 (replicate 4 0) = (NoNewFrame, replicate 4 0, None, ?m1)"
      by (subst read_calm_none) (simp_all add: demo_frame_slot l1)
    then show ?thesis by (simp only: Suc_numeral semiring_norm)
  qed
  obtain f2 d2 where f2: "fi_frame_id f2 = 9" "read_attempts 4 0 (calm (demo_frame 9)) 20 ?m1 (replicate 4 0) =
      (Read_Ok, d2, Some f2, after_read 20 f2 ?m1)"
    using demo_frame_read[OF a1, of 9 20] l1 by auto
  have s: "read_series ?rs ?m = ([f1, f2], after_read 20 f2 ?m1)" by (simp add: f1(2) n f2(2) del: read_attempts.simps)
  let ?m2 = "after_read 20 f2 ?m1"
  have "\<forall>(v, now, dst) \<in> set ?rs. length dst < 2 ^ 64"
    "sorted_wrt (<) (u_last_frame ?m # map fi_frame_id [f1, f2])" "[f1, f2] \<noteq> []"
    using f1(1) f2(1) by simp_all
  note t = frames_accounted[OF s this]
  have c1: "u_received ?m2 = 2" using t[THEN conjunct1] by simp
  have c2: "u_dropped ?m2 + u_received ?m2 = 6"
    using t[THEN conjunct2, THEN conjunct2] f1(1) f2(1) by (simp add: first_counted_def demo_sub_dropped)
  have "u_dropped ?m2 = (u_dropped ?m2 + u_received ?m2) - u_received ?m2" by simp
  also have "\<dots> = 4" by (simp only: c2) (simp add: c1)
  finally have "u_dropped ?m2 = 4" .
  with s f1(1) f2(1) c1 show ?thesis by simp
qed

text \<open>
  C16.  The claim loop under every finite contention, wherever between its four accesses other
  processes write the owner word and heartbeat.  It ends, within one iteration more than there are
  events, at the first iteration \<open>n\<close> that finds the channel not claimable, or whose exchange
  succeeds: every earlier one found it claimable and lost the exchange.  When the channel is not
  claimable, an owner had a fresh heartbeat when we looked, nothing is stored by us and no claim is
  reported.  Otherwise a non-zero claim is reported, which the exchange put in the place of the
  owner word that had been found free or stale; our heartbeat goes into the header in a store of
  its own, so what others did in between stays (another owner may be in the word by then).  Nothing
  but the owner word and its heartbeat changes.
\<close>

theorem claim_loop_sound:
  assumes "claim_loop evs 0 clk (h_command_owner_gen h) h = (r, h')"
  shows "\<exists>n \<le> length evs. (\<forall>j<n. claimable evs clk h 0 j \<and> \<not> exchanged evs h j) \<and>
    (case r of
       None \<Rightarrow> h_command_owner_gen (before evs h n) \<noteq> 0 \<and>
         clk (3 * n) - h_command_owner_heartbeat_ns (looked evs h n) < kCommandOwnerStaleNs \<and> h' = looked evs h n
     | Some g \<Rightarrow> claimable evs clk h 0 n \<and> exchanged evs h n \<and> g \<noteq> 0 \<and>
         g = (if clk (3 * n + 1) = 0 then 1 else clk (3 * n + 1)) \<and>
         h' = (interfere (ev_store (met (drop n evs))) ((contested evs h n)\<lparr>h_command_owner_gen := g\<rparr>))
           \<lparr>h_command_owner_heartbeat_ns := clk (3 * n + 2)\<rparr>) \<and>
    no_owner h' = no_owner h"
proof -
  obtain n where n: "n \<le> length evs" "\<forall>j<n. claimable evs clk h 0 j \<and> \<not> exchanged evs h j"
    "claimable evs clk h 0 n \<longrightarrow> exchanged evs h n" and r: "(r, h') = claim_outcome evs clk h 0 n"
    using claim_loop_course[OF refl, of evs clk h 0] assms by metis
  have "no_owner h' = no_owner h" using claim_loop_same[OF assms] by (simp add: same_but_owner_def)
  with n r show ?thesis
    by (intro exI[of _ n]) (auto simp: claim_outcome_def Let_def claimable_def not_le split: if_splits)
qed

text \<open>
  The exchange of the first iteration fails spuriously; after that of the second another process
  takes the channel: our claim is reported, the other one is in the owner word, with our heartbeat.
\<close>

theorem claim_loop_sound_witness:
  "\<exists>h'. claim_loop [undisturbed\<lparr>ev_spurious := True\<rparr>, undisturbed\<lparr>ev_store := Some (77, 60)\<rparr>] 0 (\<lambda>i. 100 + of_nat i) 0 LLHeader_zero =
      (Some 104, h') \<and> h_command_owner_gen h' = 77 \<and> h_command_owner_heartbeat_ns h' = 105 \<and> no_owner h' = no_owner LLHeader_zero"
proof -
  let ?evs = "[undisturbed\<lparr>ev_spurious := True\<rparr>, undisturbed\<lparr>ev_store := Some (77, 60)\<rparr>]"
  have z: "h_command_owner_gen LLHeader_zero = 0" by (simp add: LLHeader_zero_def)
  let ?h' = "LLHeader_zero\<lparr>h_command_owner_gen := 77, h_command_owner_heartbeat_ns := 105\<rparr>"
  have r: "claim_loop ?evs 0 (\<lambda>i. 100 + of_nat i) (h_command_owner_gen LLHeader_zero) LLHeader_zero = (Some 104, ?h')"
    by (simp add: claim_loop.simps Let_def undisturbed_def z)
  from claim_loop_sound[OF r] have "no_owner ?h' = no_owner LLHeader_zero" by blast
  with r show ?thesis by (simp add: z)
qed

text \<open>
  The window between a claim and its first heartbeat.  When another subscriber wins a free
  channel between our load and our compare-exchange and has not stored its heartbeat yet, our next
  iteration compares the clock with the heartbeat left from before, and takes the channel away from the owner that has just attached.
\<close>

theorem fresh_claim_stolen:
  assumes "h_command_owner_gen h = 0" and "g \<noteq> 0"
    and "kCommandOwnerStaleNs \<le> clk 3 - h_command_owner_heartbeat_ns h" and "clk 4 \<noteq> 0"
  shows "claim_loop [undisturbed\<lparr>ev_cas := Some (g, h_command_owner_heartbeat_ns h)\<rparr>] 0 clk (h_command_owner_gen h) h =
    (Some (clk 4), h\<lparr>h_command_owner_gen := clk 4, h_command_owner_heartbeat_ns := clk 5\<rparr>)"
  using assms
  by (simp add: claim_loop.simps[of "_ # _"] claim_loop.simps[of "[]"] Let_def undisturbed_def eval_nat_numeral not_less)

theorem fresh_claim_stolen_witness:
  "fst (claim_loop [undisturbed\<lparr>ev_cas := Some (77, 0)\<rparr>] 0 (\<lambda>_. 9000000000) 0 LLHeader_zero) = Some 9000000000"
  using fresh_claim_stolen[of LLHeader_zero 77 "\<lambda>_. 9000000000"]
  by (simp add: LLHeader_zero_def k_defs)

end
