(* ===== verification/Seqlock.thy ===== *)
theory Seqlock
  imports Publisher Subscriber
begin

text \<open>
  The frame path under concurrency.  The publisher's stores are split into single accesses
  (\<open>wstep\<close>), everything else in the system may happen between any two of them, and the reader's
  loads of \<open>read_attempts\<close> fall at arbitrary, increasing points of the resulting history.  The
  memory model is sequential consistency; the fences of the sources are what gives the reader and the
  writer that view of the slot.  The results: a frame that is returned is one
  consistent snapshot of its slot, and in a history without \<open>cancel_write\<close> it is a frame that was
  committed, byte for byte.
\<close>

section \<open>The writer, one store at a time\<close>

datatype w_pc = W_Idle | W_Fields nat | W_Committing nat

record wstate =
  w_mem :: smem
  w_pc :: w_pc
  w_slot :: u32
  w_fid :: u64
  w_hist :: "(LLFrameInfo \<times> u8 list) list"

fun put_field :: "nat \<Rightarrow> u32 \<Rightarrow> LLSlotHeader \<Rightarrow> LLSlotHeader" where
  "put_field 0 x s = s\<lparr>s_width := x\<rparr>"
| "put_field (Suc 0) x s = s\<lparr>s_height := x\<rparr>"
| "put_field (Suc (Suc 0)) x s = s\<lparr>s_stride := x\<rparr>"
| "put_field (Suc (Suc (Suc k))) x s = s\<lparr>s_payload_bytes := x\<rparr>"

definition bump :: "LLSlotHeader \<Rightarrow> LLSlotHeader" where
  "bump s = s\<lparr>s_seq := s_seq s + 1\<rparr>"

definition upd_slot :: "LLConfig \<Rightarrow> u32 \<Rightarrow> (LLSlotHeader \<Rightarrow> LLSlotHeader) \<Rightarrow> smem \<Rightarrow> smem" where
  "upd_slot c j f sm = set_slot (slot_at (compute_layout c) j) (f (slot_of c sm j)) sm"

text \<open>Everything the writer of a frame does not touch may change at any time.\<close>

definition same_frames :: "LLConfig \<Rightarrow> smem \<Rightarrow> smem \<Rightarrow> bool" where
  "same_frames c sm sm' \<longleftrightarrow> h_latest (m_hdr sm') = h_latest (m_hdr sm) \<and>
     (\<forall>i<cfg_slot_count c. slot_of c sm' i = slot_of c sm i) \<and>
     (\<forall>i<cfg_slot_count c. \<forall>j<unat (max_payload c).
        m_bytes sm' (slot_payload (compute_layout c) i + of_nat j) =
        m_bytes sm (slot_payload (compute_layout c) i + of_nat j))"

inductive wstep :: "bool \<Rightarrow> LLConfig \<Rightarrow> wstate \<Rightarrow> wstate \<Rightarrow> bool" for cancels c where
  w_begin: "w_pc s = W_Idle \<Longrightarrow> j = (w_slot s + 1) mod cfg_slot_count c \<Longrightarrow>
    wstep cancels c s (s\<lparr>w_mem := upd_slot c j bump (w_mem s), w_pc := W_Fields 0, w_slot := j\<rparr>)"
| w_field: "w_pc s = W_Fields k \<Longrightarrow> k < 4 \<Longrightarrow>
    wstep cancels c s (s\<lparr>w_mem := upd_slot c (w_slot s) (put_field k x) (w_mem s), w_pc := W_Fields (Suc k)\<rparr>)"
| w_render: "w_pc s = W_Fields 4 \<Longrightarrow> i < unat (max_payload c) \<Longrightarrow>
    wstep cancels c s (s\<lparr>w_mem := (w_mem s)\<lparr>m_bytes := (m_bytes (w_mem s))
      (slot_payload (compute_layout c) (w_slot s) + of_nat i := y)\<rparr>\<rparr>)"
| w_cancel: "cancels \<Longrightarrow> w_pc s = W_Fields 4 \<Longrightarrow>
    wstep cancels c s (s\<lparr>w_mem := upd_slot c (w_slot s) bump (w_mem s), w_pc := W_Idle\<rparr>)"
| w_frame_id: "w_pc s = W_Fields 4 \<Longrightarrow>
    wstep cancels c s (s\<lparr>w_mem := upd_slot c (w_slot s) (\<lambda>h. h\<lparr>s_frame_id := w_fid s + 1\<rparr>) (w_mem s),
      w_pc := W_Committing 0, w_fid := w_fid s + 1\<rparr>)"
| w_timestamp: "w_pc s = W_Committing 0 \<Longrightarrow>
    wstep cancels c s (s\<lparr>w_mem := upd_slot c (w_slot s) (\<lambda>h. h\<lparr>s_timestamp_ns := ts\<rparr>) (w_mem s),
      w_pc := W_Committing 1\<rparr>)"
| w_publish: "w_pc s = W_Committing 1 \<Longrightarrow>
    wstep cancels c s (s\<lparr>w_mem := upd_slot c (w_slot s) bump (w_mem s), w_pc := W_Committing 2,
      w_hist := w_hist s @ [slot_frame c (w_mem s) (w_slot s)]\<rparr>)"
| w_latest: "w_pc s = W_Committing 2 \<Longrightarrow>
    wstep cancels c s (s\<lparr>w_mem := (w_mem s)\<lparr>m_hdr := (m_hdr (w_mem s))
      \<lparr>h_latest := push_bit 2 (w_fid s) OR ucast (w_slot s)\<rparr>\<rparr>, w_pc := W_Idle\<rparr>)"
| w_other: "same_frames c (w_mem s) sm' \<Longrightarrow> wstep cancels c s (s\<lparr>w_mem := sm'\<rparr>)"

inductive_cases wstep_cases: "wstep cancels c s s'"

text \<open>Which slot is open, if any: its counter is odd.\<close>

definition w_open :: "wstate \<Rightarrow> u32 option" where
  "w_open s = (case w_pc s of W_Idle \<Rightarrow> None | W_Fields _ \<Rightarrow> Some (w_slot s)
     | W_Committing k \<Rightarrow> if k \<le> 1 then Some (w_slot s) else None)"

definition w_inv :: "LLConfig \<Rightarrow> wstate \<Rightarrow> bool" where
  "w_inv c s \<longleftrightarrow> w_slot s < cfg_slot_count c \<and>
     (\<forall>k. w_pc s = W_Committing k \<longrightarrow> k \<le> 2) \<and> (\<forall>k. w_pc s = W_Fields k \<longrightarrow> k \<le> 4) \<and>
     (\<forall>i<cfg_slot_count c. odd (s_seq (slot_of c (w_mem s) i)) \<longleftrightarrow> w_open s = Some i)"

text \<open>What a step may do to slot \<open>i\<close>: nothing, count up by one, or change it while it is open.\<close>

definition slot_state :: "LLConfig \<Rightarrow> smem \<Rightarrow> u32 \<Rightarrow> LLSlotHeader \<times> u8 list" where
  "slot_state c sm i = (slot_of c sm i,
     map (\<lambda>j. m_bytes sm (slot_payload (compute_layout c) i + of_nat j)) [0..<unat (max_payload c)])"

definition slot_step :: "LLConfig \<Rightarrow> u32 \<Rightarrow> smem \<Rightarrow> smem \<Rightarrow> bool" where
  "slot_step c i sm sm' \<longleftrightarrow>
     slot_state c sm' i = slot_state c sm i \<or>
     s_seq (slot_of c sm' i) = s_seq (slot_of c sm i) + 1 \<or>
     (odd (s_seq (slot_of c sm i)) \<and> s_seq (slot_of c sm' i) = s_seq (slot_of c sm i))"

lemma slot_of_upd_slot:
  assumes "config_valid c" and "i < cfg_slot_count c" and "j < cfg_slot_count c"
  shows "slot_of c (upd_slot c j f sm) i = (if i = j then f (slot_of c sm j) else slot_of c sm i)"
  unfolding upd_slot_def by (rule slot_of_set_slot[OF assms])

lemma m_bytes_upd_slot [simp]: "m_bytes (upd_slot c j f sm) = m_bytes sm" "m_hdr (upd_slot c j f sm) = m_hdr sm"
  by (simp_all add: upd_slot_def)

lemma put_field_seq [simp]: "s_seq (put_field k x s) = s_seq s"
  by (induction k x s rule: put_field.induct) simp_all

lemma bump_seq [simp]: "s_seq (bump s) = s_seq s + 1"
  by (simp add: bump_def)

lemma payload_other:
  assumes "config_valid c" and "i < cfg_slot_count c" and "j < cfg_slot_count c" and "i \<noteq> j"
    and "x < unat (max_payload c)" and "y < unat (max_payload c)"
  shows "slot_payload (compute_layout c) i + of_nat x \<noteq> slot_payload (compute_layout c) j + of_nat y"
proof -
  have "unat i \<noteq> unat j" using assms(4) word_unat_eq_iff by blast
  then have d: "region_disj c (SlotPayload (unat i)) (SlotPayload (unat j))"
    using slot_region(4)[OF assms(1,2)] slot_region(4)[OF assms(1,3)] by (intro region_disjI[OF assms(1)]) auto
  note w = region_no_wrap[OF assms(1) slot_region(4)[OF assms(1,2)]]
    region_no_wrap[OF assms(1) slot_region(4)[OF assms(1,3)]]
  have "unat (region_addr c (SlotPayload (unat i)) + of_nat x) \<noteq> unat (region_addr c (SlotPayload (unat j)) + of_nat y)"
    using d w assms(5,6) by (auto simp: region_disj_def range_disj_def unat_offset)
  then show ?thesis
    unfolding slot_region(2)[OF assms(1,2)] slot_region(2)[OF assms(1,3)] by metis
qed

lemma wstep_slot:
  assumes "config_valid c" and "wstep cancels c s s'" and "w_inv c s" and "i < cfg_slot_count c"
  shows "slot_step c i (w_mem s) (w_mem s')"
  using assms(2)
proof cases
  case (w_begin j)
  have "j < cfg_slot_count c" unfolding w_begin by (rule next_slot_lt[OF assms(1)])
  then show ?thesis using assms(1,4) w_begin by (auto simp: slot_step_def slot_state_def slot_of_upd_slot)
next
  case (w_render k y)
  have j: "w_slot s < cfg_slot_count c" using assms(3) by (simp add: w_inv_def)
  show ?thesis
  proof (cases "i = w_slot s")
    case True
    with w_render assms(3,4) show ?thesis by (auto simp: slot_step_def w_inv_def w_open_def slot_of_def)
  next
    case False
    then show ?thesis
      using w_render payload_other[OF assms(1,4) j False] by (auto simp: slot_step_def slot_state_def slot_of_def)
  qed
next
  case (w_other sm')
  then show ?thesis using assms(4) by (auto simp: slot_step_def slot_state_def same_frames_def)
qed (use assms in \<open>auto simp: slot_step_def slot_state_def slot_of_upd_slot w_inv_def w_open_def split: if_splits\<close>)

lemma w_open_mem [simp]: "w_open (s\<lparr>w_mem := sm\<rparr>) = w_open s"
  by (simp add: w_open_def split: w_pc.splits)

lemma wstep_inv:
  assumes "config_valid c" and "wstep cancels c s s'" and "w_inv c s"
  shows "w_inv c s'"
  using assms(2)
proof cases
  case (w_begin j)
  have "j < cfg_slot_count c" unfolding w_begin by (rule next_slot_lt[OF assms(1)])
  then show ?thesis using assms(1,3) w_begin by (auto simp: w_inv_def w_open_def slot_of_upd_slot)
next
  case (w_render k y)
  then show ?thesis using assms(3) by (auto simp: w_inv_def)
next
  case (w_other sm')
  then show ?thesis using assms(3) by (auto simp: w_inv_def same_frames_def)
qed (use assms in \<open>auto simp: w_inv_def w_open_def slot_of_upd_slot split: if_splits\<close>)

section \<open>Histories\<close>

text \<open>A history of the system: every step is a writer access, somebody else's access, or nothing.\<close>

definition history :: "bool \<Rightarrow> LLConfig \<Rightarrow> (nat \<Rightarrow> wstate) \<Rightarrow> bool" where
  "history cancels c tr \<longleftrightarrow> config_valid c \<and> w_inv c (tr 0) \<and>
     (\<forall>t. wstep cancels c (tr t) (tr (Suc t)) \<or> tr (Suc t) = tr t)"

lemma history_step: "history cancels c tr \<Longrightarrow> wstep cancels c (tr t) (tr (Suc t)) \<or> tr (Suc t) = tr t"
  by (simp add: history_def)

lemma history_inv: "history cancels c tr \<Longrightarrow> w_inv c (tr t)"
proof (induction t)
  case (Suc t)
  then show ?case
    using wstep_inv[of c cancels "tr t" "tr (Suc t)"] history_step[OF Suc.prems, of t] history_def
    by metis
qed (simp add: history_def)

lemma history_slot:
  assumes "history cancels c tr" and "i < cfg_slot_count c"
  shows "slot_step c i (w_mem (tr t)) (w_mem (tr (Suc t)))"
proof (cases "tr (Suc t) = tr t")
  case False
  with history_step[OF assms(1), of t] have "wstep cancels c (tr t) (tr (Suc t))" by simp
  then show ?thesis
    using wstep_slot history_inv[OF assms(1), of t] assms history_def by metis
qed (simp add: slot_step_def)

text \<open>The counter of a slot has not run through all 64 bits.\<close>

definition counts_up :: "LLConfig \<Rightarrow> u32 \<Rightarrow> (nat \<Rightarrow> wstate) \<Rightarrow> bool" where
  "counts_up c i tr \<longleftrightarrow> (\<forall>t. unat (s_seq (slot_of c (w_mem (tr t)) i)) + 1 < 2 ^ 64)"

lemma counter_mono:
  assumes "history cancels c tr" and "i < cfg_slot_count c" and "counts_up c i tr" and "t \<le> t'"
  shows "unat (s_seq (slot_of c (w_mem (tr t)) i)) \<le> unat (s_seq (slot_of c (w_mem (tr t')) i))"
  using assms(4)
proof (induction t' rule: dec_induct)
  case (step u)
  have "unat (s_seq (slot_of c (w_mem (tr u)) i) + 1) = unat (s_seq (slot_of c (w_mem (tr u)) i)) + 1"
    using assms(3) by (subst unat_add64) (auto simp: counts_up_def)
  then have "unat (s_seq (slot_of c (w_mem (tr u)) i)) \<le> unat (s_seq (slot_of c (w_mem (tr (Suc u))) i))"
    using history_slot[OF assms(1,2), of u] by (auto simp: slot_step_def slot_state_def)
  with step show ?case by simp
qed simp

text \<open>
  The seqlock argument: an even counter that reads the same at both ends of an interval means that
  the slot did not change in between.
\<close>

lemma stable_slot:
  assumes "history cancels c tr" and "i < cfg_slot_count c" and "counts_up c i tr"
    and "even (s_seq (slot_of c (w_mem (tr t)) i))"
    and "s_seq (slot_of c (w_mem (tr t')) i) = s_seq (slot_of c (w_mem (tr t)) i)"
    and "t \<le> u" and "u \<le> t'"
  shows "slot_state c (w_mem (tr u)) i = slot_state c (w_mem (tr t)) i"
  using assms(6,7)
proof (induction u rule: dec_induct)
  case (step n)
  let ?q = "\<lambda>x. s_seq (slot_of c (w_mem (tr x)) i)"
  have same: "slot_state c (w_mem (tr n)) i = slot_state c (w_mem (tr t)) i" using step by simp
  then have q: "?q n = ?q t" by (simp add: slot_state_def)
  have "unat (?q (Suc n)) \<le> unat (?q t')" "unat (?q n) \<le> unat (?q (Suc n))"
    using counter_mono[OF assms(1-3)] step by auto
  then have "unat (?q (Suc n)) = unat (?q n)" using assms(5) q by simp
  then have "?q (Suc n) = ?q n" using word_unat_eq_iff by blast
  moreover from this have "?q (Suc n) \<noteq> ?q n + 1" by simp
  ultimately show ?case
    using history_slot[OF assms(1,2), of n] assms(4) same q by (auto simp: slot_step_def)
qed simp

section \<open>Reads\<close>

text \<open>
  The reader's accesses fall on increasing points of the history, within an attempt and from one
  attempt to the next.
\<close>

definition reads_at :: "(nat \<Rightarrow> wstate) \<Rightarrow> (nat \<Rightarrow> nat \<Rightarrow> nat) \<Rightarrow> nat \<Rightarrow> nat \<Rightarrow> smem" where
  "reads_at tr tm a i = w_mem (tr (tm a i))"

lemma load_info_stable:
  assumes "\<And>i. i \<le> 8 + n \<Longrightarrow> 1 \<le> i \<Longrightarrow> m_slots (v i) s = sh"
  shows "load_info v s = slot_info sh"
  using assms[of 2] assms[of 3] assms[of 4] assms[of 5] assms[of 6] assms[of 7]
  by (simp add: load_info_def slot_info_def)

lemma attempt_snapshot:
  assumes "history cancels c tr" and "attached c b m" and "\<And>j. j < cfg_slot_count c \<Longrightarrow> counts_up c j tr"
    and "mono tm" and "attempt_ok (\<lambda>i. w_mem (tr (tm i))) m slot fi bs"
  shows "slot < cfg_slot_count c \<and> even (s_seq (slot_of c (w_mem (tr (tm 1))) slot)) \<and>
    slot_frame c (w_mem (tr (tm 1))) slot = (fi, bs) \<and> bs \<noteq> []"
proof -
  let ?v = "\<lambda>i. w_mem (tr (tm i))" and ?n = "unat (fi_payload_bytes fi)"
  note g = attached_geometry[OF assms(2)]
  from assms(5) have slot: "slot < cfg_slot_count c" and ev: "even (s_seq (slot_of c (?v 1) slot))"
    and fi: "fi = load_info ?v (slot_at (compute_layout c) slot)" and n: "0 < ?n" "?n \<le> unat (max_payload c)"
    and bs: "bs = copy_out ?v (slot_payload (compute_layout c) slot) ?n"
    and sq: "s_seq (slot_of c (?v (8 + ?n)) slot) = s_seq (slot_of c (?v 1) slot)"
    by (auto simp: attempt_ok_def Let_def g slot_of_def)
  have st: "slot_state c (?v i) slot = slot_state c (?v 1) slot" if "1 \<le> i" "i \<le> 8 + ?n" for i
    using stable_slot[OF assms(1) slot assms(3)[OF slot] ev sq] monoD[OF assms(4)] that by blast
  have ms: "m_slots (?v i) (slot_at (compute_layout c) slot) = slot_of c (?v 1) slot" if "1 \<le> i" "i \<le> 8 + ?n" for i
    using st[OF that] by (simp add: slot_state_def slot_of_def)
  have "load_info ?v (slot_at (compute_layout c) slot) = slot_info (slot_of c (?v 1) slot)"
    using ms by (intro load_info_stable[of ?n]) blast
  then have info: "fi = slot_info (slot_of c (?v 1) slot)" using fi by (rule trans[rotated])
  have byte: "m_bytes (?v (8 + j)) (slot_payload (compute_layout c) slot + of_nat j) =
      m_bytes (?v 1) (slot_payload (compute_layout c) slot + of_nat j)" if "j < ?n" for j
  proof -
    have "snd (slot_state c (?v (8 + j)) slot) ! j = snd (slot_state c (?v 1) slot) ! j"
      using st[of "8 + j"] that by simp
    with that n(2) show ?thesis by (simp add: slot_state_def)
  qed
  have "s_payload_bytes (slot_of c (?v 1) slot) = fi_payload_bytes fi" by (simp add: info slot_info_def)
  then have "slot_bytes c (?v 1) slot = bs"
    unfolding bs slot_bytes_def copy_out_def read_bytes_def using byte by simp
  moreover have "bs \<noteq> []" using n(1) bs by (metis length_copy_out length_greater_0_conv)
  ultimately show ?thesis using slot ev info by (simp add: slot_frame_def)
qed

text \<open>
  In a history without cancelled writes every stable slot with a payload holds a committed frame.
\<close>

definition hist_inv :: "LLConfig \<Rightarrow> wstate \<Rightarrow> bool" where
  "hist_inv c s \<longleftrightarrow> (\<forall>i<cfg_slot_count c. even (s_seq (slot_of c (w_mem s) i)) \<and>
     0 < unat (s_payload_bytes (slot_of c (w_mem s) i)) \<and>
     unat (s_payload_bytes (slot_of c (w_mem s) i)) \<le> unat (max_payload c) \<longrightarrow>
     slot_frame c (w_mem s) i \<in> set (w_hist s))"

lemma slot_frame_state:
  assumes "slot_state c sm' i = slot_state c sm i"
    and "unat (s_payload_bytes (slot_of c sm i)) \<le> unat (max_payload c)"
  shows "slot_frame c sm' i = slot_frame c sm i"
proof -
  have s: "slot_of c sm' i = slot_of c sm i" using assms(1) by (simp add: slot_state_def)
  have "m_bytes sm' (slot_payload (compute_layout c) i + of_nat j) =
      m_bytes sm (slot_payload (compute_layout c) i + of_nat j)" if "j < unat (max_payload c)" for j
  proof -
    have "snd (slot_state c sm' i) ! j = snd (slot_state c sm i) ! j" by (simp add: assms(1))
    with that show ?thesis by (simp add: slot_state_def)
  qed
  with assms(2) show ?thesis by (simp add: slot_frame_def slot_bytes_def s read_bytes_def)
qed

lemma slot_frame_bump:
  assumes "config_valid c" and "j < cfg_slot_count c"
  shows "slot_frame c (upd_slot c j bump sm) j = slot_frame c sm j"
  by (simp add: slot_frame_def slot_bytes_def slot_of_upd_slot[OF assms(1,2,2)] bump_def slot_info_def)

text \<open>A slot that is stable after a step was stable before it, or has just been published.\<close>

lemma stable_after:
  assumes "config_valid c" and "wstep False c s s'" and "w_inv c s" and "i < cfg_slot_count c"
    and "even (s_seq (slot_of c (w_mem s') i))"
  shows "slot_state c (w_mem s') i = slot_state c (w_mem s) i \<and> set (w_hist s) \<subseteq> set (w_hist s') \<or>
    slot_frame c (w_mem s') i \<in> set (w_hist s')"
  using assms(2)
proof cases
  case (w_begin j)
  have "j < cfg_slot_count c" unfolding w_begin by (rule next_slot_lt[OF assms(1)])
  then show ?thesis using assms w_begin by (auto simp: slot_state_def slot_of_upd_slot w_inv_def w_open_def)
next
  case (w_render k y)
  have j: "w_slot s < cfg_slot_count c" using assms(3) by (simp add: w_inv_def)
  have "i \<noteq> w_slot s" using assms(3-5) w_render by (auto simp: w_inv_def w_open_def)
  then show ?thesis
    using w_render payload_other[OF assms(1,4) j] by (auto simp: slot_state_def slot_of_def)
next
  case w_publish
  have j: "w_slot s < cfg_slot_count c" using assms(3) by (simp add: w_inv_def)
  show ?thesis
  proof (cases "i = w_slot s")
    case True
    then show ?thesis using w_publish slot_frame_bump[OF assms(1) j] by simp
  next
    case False
    then show ?thesis using w_publish assms(1,4) j by (auto simp: slot_state_def slot_of_upd_slot)
  qed
next
  case (w_other sm')
  then show ?thesis using assms(4) by (auto simp: slot_state_def same_frames_def)
qed (use assms in \<open>auto simp: slot_state_def slot_of_upd_slot w_inv_def w_open_def split: if_splits\<close>)

lemma hist_inv_step:
  assumes "config_valid c" and "wstep False c s s'" and "w_inv c s" and "hist_inv c s"
  shows "hist_inv c s'"
  unfolding hist_inv_def
proof (intro allI impI)
  fix i
  assume i: "i < cfg_slot_count c" and st: "even (s_seq (slot_of c (w_mem s') i)) \<and>
    0 < unat (s_payload_bytes (slot_of c (w_mem s') i)) \<and>
    unat (s_payload_bytes (slot_of c (w_mem s') i)) \<le> unat (max_payload c)"
  from stable_after[OF assms(1-3) i] st
  consider "slot_state c (w_mem s') i = slot_state c (w_mem s) i" "set (w_hist s) \<subseteq> set (w_hist s')"
    | "slot_frame c (w_mem s') i \<in> set (w_hist s')" by blast
  then show "slot_frame c (w_mem s') i \<in> set (w_hist s')"
  proof cases
    case 1
    then have "slot_of c (w_mem s') i = slot_of c (w_mem s) i" by (simp add: slot_state_def)
    with 1 st i assms(4) slot_frame_state[OF 1(1)] show ?thesis by (auto simp: hist_inv_def)
  qed
qed

lemma history_hist: "history False c tr \<Longrightarrow> hist_inv c (tr 0) \<Longrightarrow> hist_inv c (tr t)"
proof (induction t)
  case (Suc t)
  then show ?case
    using hist_inv_step[of c "tr t" "tr (Suc t)"] history_step[OF Suc.prems(1), of t]
      history_inv[OF Suc.prems(1), of t] history_def by metis
qed

section \<open>The operations as runs of the writer\<close>

definition pub_state :: "LLPublisher \<Rightarrow> smem \<Rightarrow> w_pc \<Rightarrow> (LLFrameInfo \<times> u8 list) list \<Rightarrow> wstate" where
  "pub_state m sm pc h = \<lparr>w_mem = sm, w_pc = pc, w_slot = p_write_slot m, w_fid = p_frame_id m, w_hist = h\<rparr>"

lemma pub_state_inv:
  assumes "pub_at b m hp"
  shows "w_inv (p_cfg m) (pub_state m (hp b) (if p_pending m = None then W_Idle else W_Fields 4) h)"
proof -
  note d = pub_atD[OF assms]
  show ?thesis
    using d(5) slot_at_eq_iff[OF d(1)]
    by (auto simp: w_inv_def pub_state_def frames_inv_def w_open_def)
qed

lemma set_slot_twice [simp]: "set_slot a x (set_slot a y sm) = set_slot a x sm"
  by (simp add: set_slot_def)

lemma slot_of_set_same [simp]: "slot_of c (set_slot (slot_at (compute_layout c) j) x sm) j = x"
  by (simp add: slot_of_def set_slot_def)

lemma begin_write_run:
  assumes "pub_at b m hp" and "begin_write width height clk m hp = (Some dst, m', hp')"
  shows "(wstep cancels (p_cfg m))\<^sup>*\<^sup>* (pub_state m (hp b) W_Idle H) (pub_state m' (hp' b) (W_Fields 4) H)"
proof -
  let ?c = "p_cfg m" and ?j = "next_slot m"
  let ?a = "slot_at (compute_layout ?c) ?j"
  let ?w = "wstep cancels ?c"
  from assms(2) have m': "m' = m\<lparr>p_write_slot := ?j, p_pending := Some ?a\<rparr>"
    and hp': "hp' b = set_slot ?a (begun ?c width height (m_slots (hp b) ?a)) (hp b)"
    by (auto simp: begin_write_eq[OF assms(1)] Let_def split: if_splits)
  define st where "st = (\<lambda>x k. pub_state m' (set_slot ?a x (hp b)) (W_Fields k) H)"
  define h0 where "h0 = bump (slot_of ?c (hp b) ?j)"
  have st: "w_pc (st x k) = W_Fields k" "w_slot (st x k) = ?j" "w_mem (st x k) = set_slot ?a x (hp b)" for x k
    by (simp_all add: st_def pub_state_def m')
  have "?w (pub_state m (hp b) W_Idle H) (st h0 0)"
    using wstep.w_begin[where s = "pub_state m (hp b) W_Idle H" and j = ?j and c = ?c and cancels = cancels]
    by (simp add: pub_state_def next_slot_def st_def m' upd_slot_def h0_def)
  moreover have step: "?w (st x k) (st (put_field k y x) (Suc k))" if "k < 4" for x k y
    using wstep.w_field[where s = "st x k" and k = k and c = ?c and cancels = cancels and x = y] that
    by (simp add: st upd_slot_def) (simp add: st_def pub_state_def)
  ultimately have "?w\<^sup>*\<^sup>* (pub_state m (hp b) W_Idle H) (st (put_field 3 x3 (put_field 2 x2 (put_field 1 x1
      (put_field 0 x0 h0)))) 4)" for x0 x1 x2 x3
    using step[of 0 h0 x0] step[of 1 "put_field 0 x0 h0" x1] step[of 2 "put_field 1 x1 (put_field 0 x0 h0)" x2]
      step[of 3 "put_field 2 x2 (put_field 1 x1 (put_field 0 x0 h0))" x3]
    by (auto simp: eval_nat_numeral intro: rtranclp.rtrancl_into_rtrancl)
  moreover have "put_field 3 (ucast (frame_bytes ?c width height)) (put_field 2 (width * cfg_bytes_per_pixel ?c)
      (put_field 1 height (put_field 0 width h0))) = begun ?c width height (m_slots (hp b) ?a)"
    by (simp add: eval_nat_numeral h0_def bump_def begun_def slot_of_def)
  ultimately show ?thesis by (metis st_def hp')
qed

lemma render_run:
  assumes "w_pc s = W_Fields 4" and "k + length bs \<le> unat (max_payload c)"
  shows "(wstep cancels c)\<^sup>*\<^sup>* s (s\<lparr>w_mem := (w_mem s)\<lparr>m_bytes := write_bytes (m_bytes (w_mem s))
    (slot_payload (compute_layout c) (w_slot s) + of_nat k) bs\<rparr>\<rparr>)"
  using assms
proof (induction bs arbitrary: k s)
  case (Cons x bs)
  let ?a = "slot_payload (compute_layout c) (w_slot s) + of_nat k"
  let ?s1 = "s\<lparr>w_mem := (w_mem s)\<lparr>m_bytes := (m_bytes (w_mem s))(?a := x)\<rparr>\<rparr>"
  have "wstep cancels c s ?s1" using Cons.prems by (intro wstep.w_render) simp_all
  moreover have "(wstep cancels c)\<^sup>*\<^sup>* ?s1 (?s1\<lparr>w_mem := (w_mem ?s1)\<lparr>m_bytes := write_bytes (m_bytes (w_mem ?s1))
      (slot_payload (compute_layout c) (w_slot ?s1) + of_nat (Suc k)) bs\<rparr>\<rparr>)"
    using Cons.prems by (intro Cons.IH) simp_all
  ultimately show ?case by (simp add: converse_rtranclp_into_rtranclp ac_simps)
qed simp

lemma cancel_write_run:
  assumes "pub_at b m hp" and "p_pending m \<noteq> None" and "cancel_write m hp = (m', hp')"
  shows "wstep True (p_cfg m) (pub_state m (hp b) (W_Fields 4) H) (pub_state m' (hp' b) W_Idle H)"
proof -
  note d = pub_atD[OF assms(1)]
  have p: "p_pending m = Some (slot_at (compute_layout (p_cfg m)) (p_write_slot m))"
    using d(5) assms(2) by (auto simp: frames_inv_def)
  show ?thesis
    using wstep.w_cancel[where s = "pub_state m (hp b) (W_Fields 4) H" and c = "p_cfg m" and cancels = True] assms(3) p d(4)
    by (auto simp: pub_state_def cancel_write_def upd_slot_def bump_def slot_of_def)
qed

lemma commit_run:
  assumes "pub_at b m hp" and "p_pending m \<noteq> None" and "commit ts clk m hp = (m', hp')"
  shows "(wstep cancels (p_cfg m))\<^sup>*\<^sup>* (pub_state m (hp b) (W_Fields 4) H)
    (pub_state m' (hp' b) W_Idle (H @ [slot_frame (p_cfg m) (hp' b) (p_write_slot m)]))"
proof -
  note d = pub_atD[OF assms(1)]
  let ?c = "p_cfg m" and ?j = "p_write_slot m"
  let ?a = "slot_at (compute_layout ?c) ?j" and ?w = "wstep cancels ?c"
  have j: "?j < cfg_slot_count ?c" using d(5) by (simp add: frames_inv_def)
  have p: "p_pending m = Some ?a" using d(5) assms(2) by (auto simp: frames_inv_def)
  let ?ts = "if ts \<noteq> 0 then ts else clk 0"
  define h0 where "h0 = slot_of ?c (hp b) ?j"
  define h1 where "h1 = h0\<lparr>s_frame_id := p_frame_id m + 1\<rparr>"
  define h2 where "h2 = h1\<lparr>s_timestamp_ns := ?ts\<rparr>"
  define st where "st = (\<lambda>h pc H. \<lparr>w_mem = set_slot ?a h (hp b), w_pc = pc, w_slot = ?j,
    w_fid = p_frame_id m + 1, w_hist = H\<rparr>)"
  define F where "F = slot_frame ?c (set_slot ?a h2 (hp b)) ?j"
  define lat where "lat = push_bit 2 (p_frame_id m + 1) OR ucast ?j"
  have c1: "?w (pub_state m (hp b) (W_Fields 4) H) (st h1 (W_Committing 0) H)"
    using wstep.w_frame_id[where s = "pub_state m (hp b) (W_Fields 4) H" and cancels = cancels and c = ?c]
    by (simp add: pub_state_def st_def upd_slot_def h1_def h0_def)
  have c2: "?w (st h1 (W_Committing 0) H) (st h2 (W_Committing 1) H)"
    using wstep.w_timestamp[where s = "st h1 (W_Committing 0) H" and cancels = cancels and c = ?c and ts = ?ts] by (simp add: st_def upd_slot_def h2_def)
  have c3: "?w (st h2 (W_Committing 1) H) (st (bump h2) (W_Committing 2) (H @ [F]))"
    using wstep.w_publish[where s = "st h2 (W_Committing 1) H" and cancels = cancels and c = ?c] by (simp add: st_def upd_slot_def F_def)
  let ?s4 = "(st (bump h2) W_Idle (H @ [F]))\<lparr>w_mem := (set_slot ?a (bump h2) (hp b))
    \<lparr>m_hdr := (m_hdr (hp b))\<lparr>h_latest := lat\<rparr>\<rparr>\<rparr>"
  have c4: "?w (st (bump h2) (W_Committing 2) (H @ [F])) ?s4"
    using wstep.w_latest[where s = "st (bump h2) (W_Committing 2) (H @ [F])" and cancels = cancels and c = ?c] by (simp add: st_def lat_def)
  let ?mem = "(set_slot ?a (bump h2) (hp b))\<lparr>m_hdr := (m_hdr (hp b))\<lparr>h_last_heartbeat_ns := clk 1\<rparr>\<lparr>h_latest := lat\<rparr>\<rparr>"
  have c5: "?w ?s4 (?s4\<lparr>w_mem := ?mem\<rparr>)"
    by (rule wstep.w_other) (simp add: same_frames_def st_def)
  have run: "?w\<^sup>*\<^sup>* (pub_state m (hp b) (W_Fields 4) H) (?s4\<lparr>w_mem := ?mem\<rparr>)"
    using c1 c2 c3 c4 c5 by (meson converse_rtranclp_into_rtranclp rtranclp.rtrancl_refl)
  have mem: "hp' b = ?mem" and m': "m' = m\<lparr>p_frame_id := p_frame_id m + 1, p_pending := None, p_last_publish_ns := clk 1\<rparr>"
    using assms(3) unfolding commit_eq[OF assms(1) p]
    by (auto simp: committed_def h2_def h1_def h0_def bump_def slot_of_def lat_def)
  have "F = slot_frame ?c (hp' b) ?j"
    unfolding mem F_def by (simp add: slot_frame_def slot_bytes_def bump_def slot_info_def)
  with run show ?thesis by (simp add: pub_state_def mem m' st_def)
qed

lemma publish_run:
  assumes "pub_at b m hp" and "source_ok (p_cfg m) width height src_stride (Some src)"
    and "publish (Some src) width height src_stride clk m hp = (True, m', hp')"
  shows "(wstep cancels (p_cfg m))\<^sup>*\<^sup>* (pub_state m (hp b) W_Idle H)
    (pub_state m' (hp' b) W_Idle (H @ [slot_frame (p_cfg m) (hp' b) (p_write_slot m')]))"
proof -
  let ?c = "p_cfg m" and ?w = "wstep cancels (p_cfg m)"
  obtain dst m1 hp1 where bw: "begin_write width height clk m hp = (Some dst, m1, hp1)"
    using assms(3) by (auto simp: publish_def split: option.splits prod.splits)
  note i1 = begin_write_inv[OF assms(1) bw]
  have ok: "p_pending m = None" "publish_due clk m" "fits ?c width height"
    using accepted_fits[OF assms(1) _ bw] assms(2) by (auto simp: source_ok_def)
  let ?st = "if src_stride = 0 then width * cfg_bytes_per_pixel ?c else src_stride"
  let ?bs = "image_rows src (unat width * unat (cfg_bytes_per_pixel ?c)) (unat ?st) (unat height)"
  have len: "(unat height - 1) * unat ?st + unat width * unat (cfg_bytes_per_pixel ?c) \<le> length src"
    using assms(2) ok(3) by (simp add: source_ok_def)
  obtain hp2 where hp2: "hp2 = render ?bs m1 hp1" by simp
  have cm: "commit 0 (\<lambda>i. clk (Suc i)) m1 hp2 = (m', hp')"
    using publish_steps[OF assms(1) ok refl len bw] assms(3) by (simp add: hp2)
  have m1: "p_hdr m1 = Some b" "p_pending m1 \<noteq> None" "p_cfg m1 = ?c"
    using bw i1 pub_atD(4) by (auto simp: begin_write_eq[OF assms(1)] Let_def split: if_splits)
  have h: "0 < unat height" using ok(3) by (simp add: fits_def unat_gt_0)
  have bl: "length ?bs \<le> unat (max_payload ?c)"
    using length_image_rows[OF h len] ok(3) by (simp add: fits_def ac_simps)
  have mem: "hp2 b = write_payload ?c (p_write_slot m1) ?bs (hp1 b)"
    using m1 bl by (auto simp: hp2 render_def)
  have r1: "?w\<^sup>*\<^sup>* (pub_state m (hp b) W_Idle H) (pub_state m1 (hp1 b) (W_Fields 4) H)"
    by (rule begin_write_run[OF assms(1) bw])
  have r2: "?w\<^sup>*\<^sup>* (pub_state m1 (hp1 b) (W_Fields 4) H) (pub_state m1 (hp2 b) (W_Fields 4) H)"
    using render_run[where s = "pub_state m1 (hp1 b) (W_Fields 4) H" and k = 0 and bs = ?bs and c = ?c and cancels = cancels] bl
    by (simp add: pub_state_def mem write_payload_def)
  have p2: "pub_at b m1 hp2" using render_inv[of b m1 hp1] i1 hp2 by blast
  have "p_write_slot m' = p_write_slot m1" using cm by (auto simp: commit_def Let_def split: option.splits)
  with commit_run[OF p2 m1(2) cm, of cancels H] r1 r2 m1(3) show ?thesis by (metis rtranclp_trans)
qed

section \<open>A small history\<close>

text \<open>After the first frame the writer opens the next slot and keeps it open.\<close>

definition demo_history :: "LLPublisher \<Rightarrow> heap \<Rightarrow> nat \<Rightarrow> wstate" where
  "demo_history m hp t =
     (let s = pub_state m (hp 2) W_Idle [slot_frame demo_config (hp 2) 1];
          j = (w_slot s + 1) mod 3
      in if t < 5 then s
         else s\<lparr>w_mem := upd_slot demo_config j bump (w_mem s), w_pc := W_Fields 0, w_slot := j\<rparr>)"

lemma history_demo:
  assumes "pub_at 2 m hp" and "p_cfg m = demo_config" and "p_pending m = None"
  shows "history False demo_config (demo_history m hp)"
proof -
  have "w_inv demo_config (demo_history m hp 0)"
    using pub_state_inv[OF assms(1)] assms(2,3) by (simp add: demo_history_def Let_def)
  moreover have "wstep False demo_config (demo_history m hp t) (demo_history m hp (Suc t)) \<or>
      demo_history m hp (Suc t) = demo_history m hp t" for t
    using wstep.w_begin[where s = "demo_history m hp 4" and c = demo_config and cancels = False]
    by (cases "t = 4") (auto simp: demo_history_def Let_def pub_state_def)
  ultimately show ?thesis by (simp add: history_def demo_config_valid)
qed

lemma demo_read:
  assumes "pub_at 2 m hp" and "p_cfg m = demo_config"
    and "h_latest (m_hdr (hp 2)) = push_bit 2 1 OR ucast (1 :: u32)"
    and "slot_frame demo_config (hp 2) 1 = (demo_info, [1, 2, 3, 4])" and "p_write_slot m = 1"
    and "p_pending m = None"
  shows "read_attempts 4 0 (reads_at (demo_history m hp) (\<lambda>a i. 2 * i)) 9 (demo_sub (m_hdr (hp 2))) [0, 0, 0, 0] =
    (Read_Ok, [1, 2, 3, 4], Some demo_info, after_read 9 demo_info (demo_sub (m_hdr (hp 2))))"
proof -
  note d = pub_atD[OF assms(1), unfolded assms(2)]
  let ?v = "reads_at (demo_history m hp) (\<lambda>a i. 2 * i)" and ?s = "slot_of demo_config (hp 2) 1"
  have info: "slot_info ?s = demo_info" "slot_bytes demo_config (hp 2) 1 = [1, 2, 3, 4]"
    using assms(4) by (simp_all add: slot_frame_def)
  then have pb: "s_payload_bytes ?s = 4" by (simp add: slot_info_def demo_info_def)
  have ev: "even (s_seq ?s)" using d(5) assms(6) by (simp add: frames_inv_def)
  have st: "slot_of demo_config (?v a i) 1 = ?s" for a i
    using slot_of_upd_slot[OF demo_config_valid, of 1 2] assms(5)
    by (simp add: reads_at_def demo_history_def pub_state_def Let_def)
  have bt: "m_bytes (?v a i) x = m_bytes (hp 2) x" for a i x
    by (simp add: reads_at_def demo_history_def pub_state_def Let_def)
  have r: "read_attempts (Suc 3) 0 ?v 9 (demo_sub (m_hdr (hp 2))) [0, 0, 0, 0] =
    (Read_Ok, slot_bytes demo_config (hp 2) 1 @ drop (unat (s_payload_bytes ?s)) [0, 0, 0, 0],
     Some (slot_info ?s), after_read 9 (slot_info ?s) (demo_sub (m_hdr (hp 2))))"
  proof (rule read_stable_ok[OF demo_sub_attached[OF seg_inv_describes[OF d(3)]] demo_config_valid])
    show "h_latest (m_hdr (?v 0 0)) = push_bit 2 1 OR ucast (1 :: u32)"
      using assms(3) by (simp add: reads_at_def demo_history_def pub_state_def Let_def)
  qed (simp_all add: st bt ev pb)
  have "Suc 3 = 4" "drop (unat (4 :: u32)) [0, 0, 0, 0 :: u8] = []" by simp_all
  then show ?thesis using r[unfolded info pb] by (simp only: append_Nil2)
qed

lemma demo_counts_up:
  assumes "demo_publish = (True, m, hp)" and "j < 3"
  shows "counts_up demo_config j (demo_history m hp)"
  unfolding counts_up_def
proof
  fix t
  have "s_seq (slot_of demo_config (w_mem (demo_history m hp t)) j) \<in>
      {s_seq (slot_of demo_config (hp 2) j), s_seq (slot_of demo_config (hp 2) j) + 1}"
    using slot_of_upd_slot[OF demo_config_valid, of j 2] demo_published_seq(1)[OF assms(1)] assms(2)
    by (auto simp: demo_history_def pub_state_def Let_def)
  moreover have "unat (s_seq (slot_of demo_config (hp 2) j) + 1) \<le> 3"
    using demo_published_seq(2)[OF assms] by (subst unat_add64) auto
  ultimately show "unat (s_seq (slot_of demo_config (w_mem (demo_history m hp t)) j)) + 1 < 2 ^ 64"
    using demo_published_seq(2)[OF assms] by auto
qed

section \<open>Properties\<close>

text \<open>
  C2.  No torn frames.  In every history of single accesses (with cancelled writes allowed), when
  the read loop returns \<open>Ok\<close>, the header fields and the bytes it returns are together the contents
  of one slot at one instant, at which that slot was not being written.  The hypothesis is that the
  64-bit counter of a slot does not run through all its values while a reader is copying.
\<close>

theorem read_is_snapshot:
  assumes "history cancels c tr" and "attached c b m" and "\<forall>j<cfg_slot_count c. counts_up c j tr"
    and "\<forall>a. mono (tm a)" and "length dst < 2 ^ 64"
    and "read_attempts n a0 (reads_at tr tm) now m dst = (Read_Ok, dst', Some fi, m')"
  shows "\<exists>a slot. a0 \<le> a \<and> a < a0 + n \<and> slot < cfg_slot_count c \<and>
    even (s_seq (slot_of c (w_mem (tr (tm a 1))) slot)) \<and>
    slot_frame c (w_mem (tr (tm a 1))) slot = (fi, take (unat (fi_payload_bytes fi)) dst')"
proof -
  from read_attempts_Ok[OF assms(6,5)] obtain a slot bs where a: "a0 \<le> a" "a < a0 + n"
    and ok: "attempt_ok (reads_at tr tm a) m slot fi bs" and bs: "take (length bs) dst' = bs" by auto
  have eq: "reads_at tr tm a = (\<lambda>i. w_mem (tr (tm a i)))" by (simp add: reads_at_def fun_eq_iff)
  have "length bs = unat (fi_payload_bytes fi)" using ok by (auto simp: attempt_ok_def Let_def)
  with attempt_snapshot[OF assms(1,2) _ _ ok[unfolded eq]] assms(3,4) a bs show ?thesis by auto
qed

theorem read_is_snapshot_witness:
  "\<exists>m hp t slot. demo_publish = (True, m, hp) \<and>
    read_attempts 4 0 (reads_at (demo_history m hp) (\<lambda>a i. 2 * i)) 9 (demo_sub (m_hdr (hp 2))) [0, 0, 0, 0] =
      (Read_Ok, [1, 2, 3, 4], Some demo_info, after_read 9 demo_info (demo_sub (m_hdr (hp 2)))) \<and>
    slot_frame demo_config (w_mem (demo_history m hp t)) slot = (demo_info, [1, 2, 3, 4])"
proof -
  obtain m hp where p: "demo_publish = (True, m, hp)" "pub_at 2 m hp" "p_cfg m = demo_config"
    "p_pending m = None" "h_latest (m_hdr (hp 2)) = push_bit 2 1 OR ucast (1 :: u32)"
    "slot_frame demo_config (hp 2) 1 = (demo_info, [1, 2, 3, 4])"
    using demo_published by metis
  note r = demo_read[OF p(2,3,5,6) demo_published_seq(1)[OF p(1)] p(4)]
  have d: "hdr_describes demo_config (m_hdr (hp 2))"
    using seg_inv_describes[OF pub_atD(3)[OF p(2)]] p(3) by simp
  have "\<exists>t slot. slot_frame demo_config (w_mem (demo_history m hp t)) slot = (demo_info, [1, 2, 3, 4])"
    using read_is_snapshot[OF history_demo[OF p(2,3,4)] demo_sub_attached[OF d] _ _ _ r]
      demo_counts_up[OF p(1)]
    by (auto simp: mono_def demo_info_def)
  with p(1) r show ?thesis by blast
qed

text \<open>
  C9.  In a history without cancelled writes, a frame that is returned is one of the frames that
  were committed, with its own id, timestamp, geometry and bytes.
\<close>

theorem read_is_committed:
  assumes "history False c tr" and "hist_inv c (tr 0)" and "attached c b m"
    and "\<forall>j<cfg_slot_count c. counts_up c j tr" and "\<forall>a. mono (tm a)" and "length dst < 2 ^ 64"
    and "read_attempts n a0 (reads_at tr tm) now m dst = (Read_Ok, dst', Some fi, m')"
  shows "\<exists>t. (fi, take (unat (fi_payload_bytes fi)) dst') \<in> set (w_hist (tr t))"
proof -
  from read_attempts_Ok[OF assms(7,6)] obtain a slot bs where
    ok: "attempt_ok (reads_at tr tm a) m slot fi bs" and bs: "take (length bs) dst' = bs" by auto
  have eq: "reads_at tr tm a = (\<lambda>i. w_mem (tr (tm a i)))" by (simp add: reads_at_def fun_eq_iff)
  have len: "length bs = unat (fi_payload_bytes fi)" using ok by (auto simp: attempt_ok_def Let_def)
  let ?s = "tr (tm a 1)"
  have snap: "slot < cfg_slot_count c" "even (s_seq (slot_of c (w_mem ?s) slot))"
    "slot_frame c (w_mem ?s) slot = (fi, bs)" "bs \<noteq> []"
    using attempt_snapshot[OF assms(1,3) _ _ ok[unfolded eq]] assms(4,5) by auto
  have "fi_payload_bytes fi = s_payload_bytes (slot_of c (w_mem ?s) slot)"
    using snap(3) by (auto simp: slot_frame_def slot_info_def)
  moreover have "unat (fi_payload_bytes fi) \<le> unat (max_payload c)" "0 < unat (fi_payload_bytes fi)"
    using ok attached_geometry[OF assms(3)] by (auto simp: attempt_ok_def Let_def)
  ultimately have "slot_frame c (w_mem ?s) slot \<in> set (w_hist ?s)"
    using history_hist[OF assms(1,2), of "tm a 1"] snap by (auto simp: hist_inv_def)
  then show ?thesis using snap(3) bs len by auto
qed

theorem read_is_committed_witness:
  "\<exists>m hp t. demo_publish = (True, m, hp) \<and>
    read_attempts 4 0 (reads_at (demo_history m hp) (\<lambda>a i. 2 * i)) 9 (demo_sub (m_hdr (hp 2))) [0, 0, 0, 0] =
      (Read_Ok, [1, 2, 3, 4], Some demo_info, after_read 9 demo_info (demo_sub (m_hdr (hp 2)))) \<and>
    (demo_info, [1, 2, 3, 4]) \<in> set (w_hist (demo_history m hp t))"
proof -
  obtain m hp where p: "demo_publish = (True, m, hp)" "pub_at 2 m hp" "p_cfg m = demo_config"
    "p_pending m = None" "h_latest (m_hdr (hp 2)) = push_bit 2 1 OR ucast (1 :: u32)"
    "slot_frame demo_config (hp 2) 1 = (demo_info, [1, 2, 3, 4])"
    and z: "\<And>i. i < 3 \<Longrightarrow> i \<noteq> 1 \<Longrightarrow> slot_frame demo_config (hp 2) i = (LLFrameInfo_zero, [])"
    using demo_published by metis
  note r = demo_read[OF p(2,3,5,6) demo_published_seq(1)[OF p(1)] p(4)]
  have d: "hdr_describes demo_config (m_hdr (hp 2))"
    using seg_inv_describes[OF pub_atD(3)[OF p(2)]] p(3) by simp
  have "i = 1" if "i < 3" "0 < unat (s_payload_bytes (slot_of demo_config (hp 2) i))" for i
    using z[OF that(1)] that(2)
    by (cases "i = 1") (simp_all add: slot_frame_def slot_info_def LLFrameInfo_zero_def)
  then have h: "hist_inv demo_config (demo_history m hp 0)"
    by (fastforce simp: hist_inv_def demo_history_def pub_state_def)
  have "\<exists>t. (demo_info, take (unat (fi_payload_bytes demo_info)) [1, 2, 3, 4]) \<in> set (w_hist (demo_history m hp t))"
    by (rule read_is_committed[OF history_demo[OF p(2,3,4)] h demo_sub_attached[OF d] _ _ _ r])
      (auto simp: mono_def demo_counts_up[OF p(1)])
  with p(1) r show ?thesis by (auto simp: demo_info_def)
qed

text \<open>
  C10.  A successful \<open>publish\<close> is a run of the single-access writer that ends idle with exactly one
  more committed frame: the one its slot then holds.
\<close>

theorem publish_refines_writer:
  assumes "pub_at b m hp" and "source_ok (p_cfg m) width height src_stride (Some src)"
    and "publish (Some src) width height src_stride clk m hp = (True, m', hp')"
  shows "(wstep False (p_cfg m))\<^sup>*\<^sup>* (pub_state m (hp b) W_Idle H)
    (pub_state m' (hp' b) W_Idle (H @ [slot_frame (p_cfg m) (hp' b) (p_write_slot m')]))"
  using assms by (rule publish_run)

theorem publish_refines_writer_witness:
  "\<exists>m hp. demo_publish = (True, m, hp) \<and>
    (wstep False demo_config)\<^sup>*\<^sup>* (pub_state demo_pub (demo_heap 2) W_Idle [])
      (pub_state m (hp 2) W_Idle [(demo_info, [1, 2, 3, 4])])"
proof -
  obtain m hp where p: "demo_publish = (True, m, hp)" "slot_frame demo_config (hp 2) 1 = (demo_info, [1, 2, 3, 4])"
    using demo_published by metis
  have "source_ok demo_config 2 1 0 (Some [1, 2, 3, 4])" by (simp add: source_ok_def)
  with publish_refines_writer[OF demo_pub_at, of 2 1 0 "[1, 2, 3, 4]" "\<lambda>_. 2000" m hp "[]"] p
    demo_published_seq(1)[OF p(1)]
  show ?thesis by (auto simp: demo_publish_def)
qed

end
