(* ===== verification/Ring_Concurrency.thy ===== *)
theory Ring_Concurrency
  imports Ring
begin

text \<open>
  One direction of the command channel with its two processes running concurrently.  A step is
  one memory access of \<open>LLRing::push\<close> or \<open>LLRing::pop\<close> in \<open>src/llinternal.h\<close>: the loads
  of the counters, the store or load of each header field, the copy of each payload byte, the
  store of the counter.  The two sides interleave arbitrarily, and other traffic in the segment
  may happen between any two steps.  Accesses take effect in program order (the release and
  acquire orderings of the sources exist to provide this for the accesses that matter; weaker
  orders are not modelled).
\<close>

section \<open>Program counters and fields\<close>

datatype prod_pc =
    P_idle
  | P_head LLShmCommand u64             \<comment> \<open>head loaded\<close>
  | P_tail LLShmCommand u64 u64         \<comment> \<open>tail loaded as well\<close>
  | P_field LLShmCommand u64 nat        \<comment> \<open>not full; fields stored so far\<close>
  | P_byte LLShmCommand u64 nat         \<comment> \<open>all fields stored; bytes copied so far\<close>

datatype cons_pc =
    C_idle
  | C_tail u64                          \<comment> \<open>tail loaded\<close>
  | C_head u64 u64                      \<comment> \<open>head loaded as well\<close>
  | C_field u64 LLShmCommand nat        \<comment> \<open>not empty; fields loaded so far\<close>
  | C_byte u64 LLShmCommand nat nat     \<comment> \<open>size loaded; bytes copied so far\<close>

text \<open>The assignments of \<open>push\<close> to the command header, in order.\<close>

fun store_field :: "nat \<Rightarrow> LLShmCommand \<Rightarrow> LLCmdHeader \<Rightarrow> LLCmdHeader" where
  "store_field k x h =
     (if k = 0 then h\<lparr>c_id := cmd_id x\<rparr>
      else if k = 1 then h\<lparr>c_reply_to := cmd_reply_to x\<rparr>
      else if k = 2 then h\<lparr>c_timestamp_ns := cmd_timestamp_ns x\<rparr>
      else if k = 3 then h\<lparr>c_type := cmd_type x\<rparr>
      else h\<lparr>c_size := of_nat (length (cmd_data x))\<rparr>)"

text \<open>The assignments of \<open>pop\<close> from the command header, in order.\<close>

fun load_field :: "nat \<Rightarrow> LLCmdHeader \<Rightarrow> LLShmCommand \<Rightarrow> LLShmCommand" where
  "load_field k h x =
     (if k = 0 then x\<lparr>cmd_id := c_id h\<rparr>
      else if k = 1 then x\<lparr>cmd_reply_to := c_reply_to h\<rparr>
      else if k = 2 then x\<lparr>cmd_timestamp_ns := c_timestamp_ns h\<rparr>
      else x\<lparr>cmd_type := c_type h\<rparr>)"

record ring_state =
  rs_mem :: smem
  rs_prod :: prod_pc
  rs_cons :: cons_pc
  rs_sent :: "LLShmCommand list"      \<comment> \<open>commands whose push returned true\<close>
  rs_recv :: "LLShmCommand list"      \<comment> \<open>commands pop has returned\<close>

text \<open>What the rest of the program may do meanwhile: anything outside this ring.\<close>

definition same_ring :: "LLConfig \<Rightarrow> ring_dir \<Rightarrow> smem \<Rightarrow> smem \<Rightarrow> bool" where
  "same_ring c d sm sm' \<longleftrightarrow>
     m_rings sm' (ring_offset (compute_layout c) d) = m_rings sm (ring_offset (compute_layout c) d) \<and>
     (\<forall>k. m_cmds sm' (cell_addr c d k) = m_cmds sm (cell_addr c d k)) \<and>
     (\<forall>k i. i < unat (cfg_max_command_bytes c) \<longrightarrow>
        m_bytes sm' (cmd_payload (cell_addr c d k) + of_nat i) =
        m_bytes sm (cmd_payload (cell_addr c d k) + of_nat i))"

definition blank_command :: LLShmCommand where
  "blank_command = mk_command 0 [] 0 0 0"

section \<open>Steps\<close>

inductive ring_step :: "LLConfig \<Rightarrow> ring_dir \<Rightarrow> ring_state \<Rightarrow> ring_state \<Rightarrow> bool"
  for c :: LLConfig and d :: ring_dir where
  push_load_head: "rs_prod s = P_idle \<Longrightarrow> length (cmd_data x) \<le> unat (cfg_max_command_bytes c) \<Longrightarrow>
    ring_step c d s (s\<lparr>rs_prod := P_head x (ring_hd c d (rs_mem s))\<rparr>)"
| push_load_tail: "rs_prod s = P_head x hv \<Longrightarrow>
    ring_step c d s (s\<lparr>rs_prod := P_tail x hv (ring_tl c d (rs_mem s))\<rparr>)"
| push_full: "rs_prod s = P_tail x hv tv \<Longrightarrow> hv - tv \<ge> ucast (cfg_command_slots c) \<Longrightarrow>
    ring_step c d s (s\<lparr>rs_prod := P_idle\<rparr>)"
| push_room: "rs_prod s = P_tail x hv tv \<Longrightarrow> \<not> hv - tv \<ge> ucast (cfg_command_slots c) \<Longrightarrow>
    ring_step c d s (s\<lparr>rs_prod := P_field x hv 0\<rparr>)"
| push_store_field: "rs_prod s = P_field x hv k \<Longrightarrow> k < 5 \<Longrightarrow>
    ring_step c d s (s\<lparr>rs_prod := (if k = 4 then P_byte x hv 0 else P_field x hv (k + 1)),
      rs_mem := (rs_mem s)\<lparr>m_cmds := (m_cmds (rs_mem s))(cell_addr c d hv :=
        store_field k x (m_cmds (rs_mem s) (cell_addr c d hv)))\<rparr>\<rparr>)"
| push_copy_byte: "rs_prod s = P_byte x hv i \<Longrightarrow> i < length (cmd_data x) \<Longrightarrow>
    ring_step c d s (s\<lparr>rs_prod := P_byte x hv (i + 1),
      rs_mem := (rs_mem s)\<lparr>m_bytes := (m_bytes (rs_mem s))
        (cmd_payload (cell_addr c d hv) + of_nat i := cmd_data x ! i)\<rparr>\<rparr>)"
| push_store_head: "rs_prod s = P_byte x hv (length (cmd_data x)) \<Longrightarrow>
    ring_step c d s (s\<lparr>rs_prod := P_idle, rs_sent := rs_sent s @ [x],
      rs_mem := set_ring c d \<lparr>r_head = hv + 1, r_tail = ring_tl c d (rs_mem s)\<rparr> (rs_mem s)\<rparr>)"
| pop_load_tail: "rs_cons s = C_idle \<Longrightarrow>
    ring_step c d s (s\<lparr>rs_cons := C_tail (ring_tl c d (rs_mem s))\<rparr>)"
| pop_load_head: "rs_cons s = C_tail tv \<Longrightarrow>
    ring_step c d s (s\<lparr>rs_cons := C_head tv (ring_hd c d (rs_mem s))\<rparr>)"
| pop_empty: "rs_cons s = C_head tv hv \<Longrightarrow> tv = hv \<Longrightarrow>
    ring_step c d s (s\<lparr>rs_cons := C_idle\<rparr>)"
| pop_some: "rs_cons s = C_head tv hv \<Longrightarrow> tv \<noteq> hv \<Longrightarrow>
    ring_step c d s (s\<lparr>rs_cons := C_field tv blank_command 0\<rparr>)"
| pop_load_field: "rs_cons s = C_field tv x k \<Longrightarrow> k < 4 \<Longrightarrow>
    ring_step c d s (s\<lparr>rs_cons :=
      C_field tv (load_field k (m_cmds (rs_mem s) (cell_addr c d tv)) x) (k + 1)\<rparr>)"
| pop_load_size: "rs_cons s = C_field tv x 4 \<Longrightarrow> sz = c_size (m_cmds (rs_mem s) (cell_addr c d tv)) \<Longrightarrow>
    ring_step c d s (s\<lparr>rs_cons := C_byte tv x
      (unat (if sz > cfg_max_command_bytes c then cfg_max_command_bytes c else sz)) 0\<rparr>)"
| pop_copy_byte: "rs_cons s = C_byte tv x n i \<Longrightarrow> i < n \<Longrightarrow>
    ring_step c d s (s\<lparr>rs_cons := C_byte tv (x\<lparr>cmd_data := cmd_data x @
      [m_bytes (rs_mem s) (cmd_payload (cell_addr c d tv) + of_nat i)]\<rparr>) n (i + 1)\<rparr>)"
| pop_store_tail: "rs_cons s = C_byte tv x n n \<Longrightarrow>
    ring_step c d s (s\<lparr>rs_cons := C_idle, rs_recv := rs_recv s @ [x],
      rs_mem := set_ring c d \<lparr>r_head = ring_hd c d (rs_mem s), r_tail = tv + 1\<rparr> (rs_mem s)\<rparr>)"
| other_traffic: "same_ring c d (rs_mem s) sm' \<Longrightarrow> ring_step c d s (s\<lparr>rs_mem := sm'\<rparr>)"

text \<open>A ring that holds some commands, both sides between calls.\<close>

definition ring_start :: "LLConfig \<Rightarrow> ring_dir \<Rightarrow> smem \<Rightarrow> ring_state" where
  "ring_start c d sm = \<lparr>rs_mem = sm, rs_prod = P_idle, rs_cons = C_idle,
     rs_sent = ring_queue c d sm, rs_recv = []\<rparr>"

inductive ring_reach :: "LLConfig \<Rightarrow> ring_dir \<Rightarrow> smem \<Rightarrow> ring_state \<Rightarrow> bool"
  for c :: LLConfig and d :: ring_dir and sm0 :: smem where
  start: "ring_reach c d sm0 (ring_start c d sm0)"
| step: "ring_reach c d sm0 s \<Longrightarrow> ring_step c d s s' \<Longrightarrow> ring_reach c d sm0 s'"

section \<open>The invariant\<close>

text \<open>
  How much of a command is already in its slot, and how much of a slot has been read.
\<close>

definition fields_stored :: "LLShmCommand \<Rightarrow> LLCmdHeader \<Rightarrow> nat \<Rightarrow> bool" where
  "fields_stored x h k \<longleftrightarrow> (0 < k \<longrightarrow> c_id h = cmd_id x) \<and> (1 < k \<longrightarrow> c_reply_to h = cmd_reply_to x) \<and>
     (2 < k \<longrightarrow> c_timestamp_ns h = cmd_timestamp_ns x) \<and> (3 < k \<longrightarrow> c_type h = cmd_type x) \<and>
     (4 < k \<longrightarrow> c_size h = of_nat (length (cmd_data x)))"

definition fields_loaded :: "LLShmCommand \<Rightarrow> LLShmCommand \<Rightarrow> nat \<Rightarrow> bool" where
  "fields_loaded x y k \<longleftrightarrow> (0 < k \<longrightarrow> cmd_id x = cmd_id y) \<and> (1 < k \<longrightarrow> cmd_reply_to x = cmd_reply_to y) \<and>
     (2 < k \<longrightarrow> cmd_timestamp_ns x = cmd_timestamp_ns y) \<and> (3 < k \<longrightarrow> cmd_type x = cmd_type y)"

fun prod_inv :: "LLConfig \<Rightarrow> ring_dir \<Rightarrow> smem \<Rightarrow> prod_pc \<Rightarrow> bool" where
  "prod_inv c d sm P_idle \<longleftrightarrow> True"
| "prod_inv c d sm (P_head x hv) \<longleftrightarrow>
     hv = ring_hd c d sm \<and> length (cmd_data x) \<le> unat (cfg_max_command_bytes c)"
| "prod_inv c d sm (P_tail x hv tv) \<longleftrightarrow>
     hv = ring_hd c d sm \<and> length (cmd_data x) \<le> unat (cfg_max_command_bytes c) \<and>
     ring_used c d sm \<le> unat (hv - tv)"
| "prod_inv c d sm (P_field x hv k) \<longleftrightarrow>
     hv = ring_hd c d sm \<and> length (cmd_data x) \<le> unat (cfg_max_command_bytes c) \<and>
     ring_used c d sm < unat (cfg_command_slots c) \<and> k < 5 \<and>
     fields_stored x (m_cmds sm (cell_addr c d hv)) k"
| "prod_inv c d sm (P_byte x hv i) \<longleftrightarrow>
     hv = ring_hd c d sm \<and> length (cmd_data x) \<le> unat (cfg_max_command_bytes c) \<and>
     ring_used c d sm < unat (cfg_command_slots c) \<and> i \<le> length (cmd_data x) \<and>
     fields_stored x (m_cmds sm (cell_addr c d hv)) 5 \<and>
     read_bytes (m_bytes sm) (cmd_payload (cell_addr c d hv)) i = take i (cmd_data x)"

fun cons_inv :: "LLConfig \<Rightarrow> ring_dir \<Rightarrow> smem \<Rightarrow> cons_pc \<Rightarrow> bool" where
  "cons_inv c d sm C_idle \<longleftrightarrow> True"
| "cons_inv c d sm (C_tail tv) \<longleftrightarrow> tv = ring_tl c d sm"
| "cons_inv c d sm (C_head tv hv) \<longleftrightarrow> tv = ring_tl c d sm \<and> unat (hv - tv) \<le> ring_used c d sm"
| "cons_inv c d sm (C_field tv x k) \<longleftrightarrow> tv = ring_tl c d sm \<and> 0 < ring_used c d sm \<and> k \<le> 4 \<and>
     cmd_data x = [] \<and> fields_loaded x (cell c d sm tv) k"
| "cons_inv c d sm (C_byte tv x n i) \<longleftrightarrow> tv = ring_tl c d sm \<and> 0 < ring_used c d sm \<and> i \<le> n \<and>
     fields_loaded x (cell c d sm tv) 4 \<and> n = length (cmd_data (cell c d sm tv)) \<and>
     cmd_data x = take i (cmd_data (cell c d sm tv))"

definition spsc_inv :: "LLConfig \<Rightarrow> ring_dir \<Rightarrow> ring_state \<Rightarrow> bool" where
  "spsc_inv c d s \<longleftrightarrow> ring_inv c d (rs_mem s) \<and>
     rs_sent s = rs_recv s @ ring_queue c d (rs_mem s) \<and>
     prod_inv c d (rs_mem s) (rs_prod s) \<and> cons_inv c d (rs_mem s) (rs_cons s)"

section \<open>What a step leaves alone\<close>

text \<open>A store into the slot the producer owns: the slot of counter value \<open>hv\<close>.\<close>

definition same_but_cell :: "LLConfig \<Rightarrow> ring_dir \<Rightarrow> u64 \<Rightarrow> smem \<Rightarrow> smem \<Rightarrow> bool" where
  "same_but_cell c d hv sm sm' \<longleftrightarrow>
     m_rings sm' (ring_offset (compute_layout c) d) = m_rings sm (ring_offset (compute_layout c) d) \<and>
     (\<forall>k. cell_index c k \<noteq> cell_index c hv \<longrightarrow> cell c d sm' k = cell c d sm k)"

lemma same_but_cell_counters:
  assumes "same_but_cell c d hv sm sm'"
  shows "ring_hd c d sm' = ring_hd c d sm" and "ring_tl c d sm' = ring_tl c d sm"
    and "ring_used c d sm' = ring_used c d sm"
  using assms by (simp_all add: same_but_cell_def ring_hd_def ring_tl_def ring_used_def)

lemma same_but_cell_window:
  assumes "same_but_cell c d (ring_hd c d sm) sm sm'" and "config_valid c"
    and "ring_used c d sm < unat (cfg_command_slots c)" and "i < ring_used c d sm"
  shows "cell c d sm' (ring_tl c d sm + of_nat i) = cell c d sm (ring_tl c d sm + of_nat i)"
proof -
  have "cell_index c (ring_tl c d sm + of_nat i) \<noteq>
      cell_index c (ring_tl c d sm + of_nat (ring_used c d sm))"
    using cell_index_window[OF assms(2), of i "ring_used c d sm"] assms(3,4) by simp
  with assms(1) show ?thesis by (simp add: same_but_cell_def head_of_used)
qed

lemma same_but_cell_queue:
  assumes "same_but_cell c d (ring_hd c d sm) sm sm'" and "config_valid c"
    and "ring_used c d sm < unat (cfg_command_slots c)"
  shows "ring_queue c d sm' = ring_queue c d sm"
  using same_but_cell_window[OF assms] same_but_cell_counters[OF assms(1)]
  by (simp add: ring_queue_def)

lemma same_but_cell_cons:
  assumes "same_but_cell c d (ring_hd c d sm) sm sm'" and "config_valid c"
    and "ring_used c d sm < unat (cfg_command_slots c)" and "cons_inv c d sm q"
  shows "cons_inv c d sm' q"
  using same_but_cell_window[OF assms(1-3), of 0] same_but_cell_counters[OF assms(1)] assms(4)
  by (cases q) auto

lemma same_ring_cell:
  assumes "same_ring c d sm sm'"
  shows "cell c d sm' k = cell c d sm k"
proof -
  have "read_bytes (m_bytes sm') (cmd_payload (cell_addr c d k)) n =
      read_bytes (m_bytes sm) (cmd_payload (cell_addr c d k)) n"
    if "n \<le> unat (cfg_max_command_bytes c)" for n
    using assms that by (auto simp: read_bytes_def same_ring_def)
  with assms show ?thesis
    by (simp add: cell_def Let_def same_ring_def word_less_unat)
qed

lemma same_ring_inv:
  assumes "same_ring c d sm sm'"
  shows "ring_hd c d sm' = ring_hd c d sm" "ring_tl c d sm' = ring_tl c d sm"
    "ring_used c d sm' = ring_used c d sm" "ring_queue c d sm' = ring_queue c d sm"
    "cons_inv c d sm' q = cons_inv c d sm q" "prod_inv c d sm' p = prod_inv c d sm p"
proof -
  show ht: "ring_hd c d sm' = ring_hd c d sm" "ring_tl c d sm' = ring_tl c d sm"
    using assms by (simp_all add: same_ring_def ring_hd_def ring_tl_def)
  then show u: "ring_used c d sm' = ring_used c d sm" by (simp add: ring_used_def)
  with ht show "ring_queue c d sm' = ring_queue c d sm"
    by (simp add: ring_queue_def same_ring_cell[OF assms])
  show "cons_inv c d sm' q = cons_inv c d sm q"
    using ht u by (cases q) (simp_all add: same_ring_cell[OF assms])
  have "read_bytes (m_bytes sm') (cmd_payload (cell_addr c d k)) n =
      read_bytes (m_bytes sm) (cmd_payload (cell_addr c d k)) n"
    if "n \<le> unat (cfg_max_command_bytes c)" for n k
    using assms that by (auto simp: read_bytes_def same_ring_def)
  moreover have "m_cmds sm' (cell_addr c d k) = m_cmds sm (cell_addr c d k)" for k
    using assms by (simp add: same_ring_def)
  ultimately show "prod_inv c d sm' p = prod_inv c d sm p"
    using ht u by (cases p) auto
qed

text \<open>The stores of \<open>push\<close> before it publishes.\<close>

lemma store_field_same_but:
  assumes "config_valid c"
  shows "same_but_cell c d hv sm (sm\<lparr>m_cmds := (m_cmds sm)(cell_addr c d hv := h)\<rparr>)"
  using cell_addr_neq[OF assms]
  by (auto simp: same_but_cell_def cell_def Let_def)

lemma copy_byte_same_but:
  assumes "config_valid c" and "i < unat (cfg_max_command_bytes c)"
  shows "same_but_cell c d hv sm
    (sm\<lparr>m_bytes := (m_bytes sm)(cmd_payload (cell_addr c d hv) + of_nat i := x)\<rparr>)"
proof -
  have "read_bytes ((m_bytes sm)(cmd_payload (cell_addr c d hv) + of_nat i := x))
          (cmd_payload (cell_addr c d k)) n = read_bytes (m_bytes sm) (cmd_payload (cell_addr c d k)) n"
    if n: "n \<le> unat (cfg_max_command_bytes c)" and k: "cell_index c k \<noteq> cell_index c hv" for n k
  proof (rule nth_equalityI)
    let ?r = "CmdPayload d (cell_index c hv)" and ?r' = "CmdPayload d (cell_index c k)"
    have ex: "region_exists c ?r" "region_exists c ?r'" using assms(1) by (simp_all add: cell_index_lt)
    fix j assume "j < length (read_bytes ((m_bytes sm)(cmd_payload (cell_addr c d hv) + of_nat i := x))
          (cmd_payload (cell_addr c d k)) n)"
    then have j: "j < n" by simp
    have "region_disj c ?r ?r'" using assms(1) ex k by (intro region_disjI) auto
    then have "unat (region_addr c ?r + of_nat i) \<noteq> unat (region_addr c ?r' + of_nat j)"
      using region_no_wrap[OF assms(1) ex(1)] region_no_wrap[OF assms(1) ex(2)] assms(2) j n
      by (subst (1 2) unat_offset[where n = "unat (cfg_max_command_bytes c)"])
        (auto simp: region_disj_def range_disj_def)
    then have "cmd_payload (cell_addr c d k) + of_nat j \<noteq> cmd_payload (cell_addr c d hv) + of_nat i"
      unfolding cell_addr_region(2)[OF assms(1)] by metis
    with j show "read_bytes ((m_bytes sm)(cmd_payload (cell_addr c d hv) + of_nat i := x))
          (cmd_payload (cell_addr c d k)) n ! j = read_bytes (m_bytes sm) (cmd_payload (cell_addr c d k)) n ! j"
      by simp
  qed simp
  then show ?thesis
    by (simp add: same_but_cell_def cell_def Let_def word_less_unat)
qed

text \<open>Publishing: the slot at the head joins the queue.\<close>

lemma advance_head:
  assumes "config_valid c" and "ring_used c d sm < unat (cfg_command_slots c)"
  defines "sm' \<equiv> set_ring c d \<lparr>r_head = ring_hd c d sm + 1, r_tail = ring_tl c d sm\<rparr> sm"
  shows "ring_used c d sm' = Suc (ring_used c d sm)"
    and "ring_queue c d sm' = ring_queue c d sm @ [cell c d sm (ring_hd c d sm)]"
proof -
  show u: "ring_used c d sm' = Suc (ring_used c d sm)"
    using used_push_mem[OF assms(1,2), of undefined "[]"]
    by (simp add: sm'_def push_mem_def ring_used_def)
  show "ring_queue c d sm' = ring_queue c d sm @ [cell c d sm (ring_hd c d sm)]"
    unfolding ring_queue_def u by (simp add: sm'_def head_of_used)
qed

lemma cell_complete:
  assumes "fields_stored x (m_cmds sm (cell_addr c d k)) 5"
    and "length (cmd_data x) \<le> unat (cfg_max_command_bytes c)"
    and "read_bytes (m_bytes sm) (cmd_payload (cell_addr c d k)) (length (cmd_data x)) = cmd_data x"
  shows "cell c d sm k = x"
proof -
  have "length (cmd_data x) < 2 ^ 32"
    using assms(2) unat_lt32[of "cfg_max_command_bytes c"] by linarith
  with assms show ?thesis
    by (simp add: cell_def Let_def fields_stored_def word_less_unat unat_of_nat32)
qed

lemma command_complete:
  "fields_loaded x y 4 \<Longrightarrow> cmd_data x = cmd_data y \<Longrightarrow> x = y"
  by (simp add: fields_loaded_def LLShmCommand.equality)

section \<open>Every step keeps the invariant\<close>

lemma push_steps_keep:
  assumes "spsc_inv c d s" and "rs_prod s = P_field x hv k \<or> rs_prod s = P_byte x hv k"
    and "same_but_cell c d hv (rs_mem s) sm'" and "prod_inv c d sm' p'"
  shows "spsc_inv c d (s\<lparr>rs_prod := p', rs_mem := sm'\<rparr>)"
proof -
  have h: "hv = ring_hd c d (rs_mem s)" and u: "ring_used c d (rs_mem s) < unat (cfg_command_slots c)"
    and v: "config_valid c"
    using assms(1,2) by (auto simp: spsc_inv_def ring_inv_def)
  note sb = assms(3)[unfolded h]
  show ?thesis
    using assms(1,4) same_but_cell_queue[OF sb v u] same_but_cell_cons[OF sb v u]
      same_but_cell_counters[OF sb]
    by (simp add: spsc_inv_def ring_inv_def)
qed

lemma store_field_keeps:
  assumes "spsc_inv c d s" and "rs_prod s = P_field x hv k" and "k < 5"
  shows "spsc_inv c d (s\<lparr>rs_prod := (if k = 4 then P_byte x hv 0 else P_field x hv (k + 1)),
      rs_mem := (rs_mem s)\<lparr>m_cmds := (m_cmds (rs_mem s))(cell_addr c d hv :=
        store_field k x (m_cmds (rs_mem s) (cell_addr c d hv)))\<rparr>\<rparr>)"
proof -
  let ?sm = "(rs_mem s)\<lparr>m_cmds := (m_cmds (rs_mem s))(cell_addr c d hv :=
        store_field k x (m_cmds (rs_mem s) (cell_addr c d hv)))\<rparr>"
  have v: "config_valid c" and p: "prod_inv c d (rs_mem s) (P_field x hv k)"
    using assms by (auto simp: spsc_inv_def ring_inv_def)
  have sb: "same_but_cell c d hv (rs_mem s) ?sm" by (rule store_field_same_but[OF v])
  have "fields_stored x (m_cmds ?sm (cell_addr c d hv)) (k + 1)"
    using p assms(3) by (auto simp: fields_stored_def)
  then have "prod_inv c d ?sm (if k = 4 then P_byte x hv 0 else P_field x hv (k + 1))"
    using p assms(3) same_but_cell_counters[OF sb] by auto
  with assms(1,2) sb show ?thesis by (intro push_steps_keep) auto
qed

lemma copy_byte_keeps:
  assumes "spsc_inv c d s" and "rs_prod s = P_byte x hv i" and "i < length (cmd_data x)"
  shows "spsc_inv c d (s\<lparr>rs_prod := P_byte x hv (i + 1),
      rs_mem := (rs_mem s)\<lparr>m_bytes := (m_bytes (rs_mem s))
        (cmd_payload (cell_addr c d hv) + of_nat i := cmd_data x ! i)\<rparr>\<rparr>)"
proof -
  let ?a = "cmd_payload (cell_addr c d hv)"
  let ?sm = "(rs_mem s)\<lparr>m_bytes := (m_bytes (rs_mem s))(?a + of_nat i := cmd_data x ! i)\<rparr>"
  have v: "config_valid c" and p: "prod_inv c d (rs_mem s) (P_byte x hv i)"
    using assms by (auto simp: spsc_inv_def ring_inv_def)
  have sb: "same_but_cell c d hv (rs_mem s) ?sm"
    using p assms(3) by (intro copy_byte_same_but[OF v]) simp
  have lt: "length (cmd_data x) < 2 ^ 64"
    using p unat_lt32[of "cfg_max_command_bytes c"] by simp
  have "?a + of_nat j \<noteq> ?a + of_nat i" if "j < i" for j
    using that assms(3) lt by (auto dest!: arg_cong[where f = unat] simp: unat_of_nat64)
  then have "read_bytes (m_bytes ?sm) ?a i = read_bytes (m_bytes (rs_mem s)) ?a i"
    by (intro nth_equalityI) simp_all
  moreover have "read_bytes (m_bytes (rs_mem s)) ?a i = take i (cmd_data x)" using p by auto
  ultimately have "read_bytes (m_bytes ?sm) ?a (Suc i) = take (Suc i) (cmd_data x)"
    using assms(3) by (simp add: read_bytes_Suc take_Suc_conv_app_nth)
  then have "prod_inv c d ?sm (P_byte x hv (i + 1))"
    using p assms(3) same_but_cell_counters[OF sb] by auto
  with assms(1,2) sb show ?thesis by (intro push_steps_keep) auto
qed

lemma store_head_keeps:
  assumes "spsc_inv c d s" and "rs_prod s = P_byte x hv (length (cmd_data x))"
  shows "spsc_inv c d (s\<lparr>rs_prod := P_idle, rs_sent := rs_sent s @ [x],
      rs_mem := set_ring c d \<lparr>r_head = hv + 1, r_tail = ring_tl c d (rs_mem s)\<rparr> (rs_mem s)\<rparr>)"
proof -
  have v: "config_valid c" and p: "prod_inv c d (rs_mem s) (P_byte x hv (length (cmd_data x)))"
    using assms by (auto simp: spsc_inv_def ring_inv_def)
  then have x: "cell c d (rs_mem s) hv = x" by (intro cell_complete) auto
  have h: "hv = ring_hd c d (rs_mem s)" and u: "ring_used c d (rs_mem s) < unat (cfg_command_slots c)"
    using p by auto
  note adv = advance_head[OF v u]
  have "cons_inv c d (set_ring c d \<lparr>r_head = hv + 1, r_tail = ring_tl c d (rs_mem s)\<rparr> (rs_mem s))
      (rs_cons s)"
    using assms(1) adv(1) h by (cases "rs_cons s") (auto simp: spsc_inv_def)
  with assms(1) adv x u h v show ?thesis by (simp add: spsc_inv_def ring_inv_def)
qed

lemma store_tail_keeps:
  assumes "spsc_inv c d s" and "rs_cons s = C_byte tv x n n"
  shows "spsc_inv c d (s\<lparr>rs_cons := C_idle, rs_recv := rs_recv s @ [x],
      rs_mem := set_ring c d \<lparr>r_head = ring_hd c d (rs_mem s), r_tail = tv + 1\<rparr> (rs_mem s)\<rparr>)"
proof -
  let ?sm = "rs_mem s"
  have v: "config_valid c" and q: "cons_inv c d ?sm (C_byte tv x n n)"
    using assms by (auto simp: spsc_inv_def ring_inv_def)
  then have x: "x = cell c d ?sm tv" by (intro command_complete) auto
  have t: "tv = ring_tl c d ?sm" and pos: "0 < ring_used c d ?sm" using q by auto
  then obtain m where m: "ring_used c d ?sm = Suc m" by (cases "ring_used c d ?sm") auto
  note pop = queue_pop_mem[OF m, unfolded pop_mem_def, folded t]
  have "prod_inv c d (set_ring c d \<lparr>r_head = ring_hd c d ?sm, r_tail = tv + 1\<rparr> ?sm) (rs_prod s)"
    using assms(1) pop(1) m
    by (cases "rs_prod s") (auto simp: spsc_inv_def set_ring_def ring_hd_def)
  with assms(1) pop m x t v show ?thesis by (simp add: spsc_inv_def ring_inv_def)
qed

lemma load_field_keeps:
  assumes "fields_loaded x (cell c d sm tv) k" and "k < 4"
  shows "fields_loaded (load_field k (m_cmds sm (cell_addr c d tv)) x) (cell c d sm tv) (k + 1)"
  using assms by (auto simp: fields_loaded_def cell_def Let_def)

lemma step_keeps:
  assumes "ring_step c d s s'" and "spsc_inv c d s"
  shows "spsc_inv c d s'"
  using assms
proof (induction rule: ring_step.induct)
  case (push_room s x hv tv)
  then show ?case
    by (auto simp: spsc_inv_def word_le_unat fields_stored_def)
next
  case (pop_some s tv hv)
  then have "0 < unat (hv - tv)" by (simp add: unat_gt_0)
  with pop_some show ?case
    by (auto simp: spsc_inv_def fields_loaded_def blank_command_def mk_command_def)
next
  case (pop_load_field s tv x k)
  then show ?case
    using load_field_keeps[of x c d "rs_mem s" tv k] by (auto simp: spsc_inv_def)
next
  case (pop_copy_byte s tv x n i)
  then show ?case
    by (auto simp: spsc_inv_def fields_loaded_def take_Suc_conv_app_nth)
      (auto simp: cell_def Let_def)
next
  case (other_traffic s sm')
  then show ?case by (simp add: spsc_inv_def ring_inv_def same_ring_inv)
next
  case (push_store_field s x hv k)
  then show ?case by (intro store_field_keeps)
next
  case (push_copy_byte s x hv i)
  then show ?case by (intro copy_byte_keeps)
next
  case (push_store_head s x hv)
  then show ?case by (intro store_head_keeps)
next
  case (pop_store_tail s tv x n)
  then show ?case by (intro store_tail_keeps)
qed (auto simp: spsc_inv_def ring_used_def cell_def Let_def)

lemma ring_reach_inv:
  "ring_reach c d sm0 s \<Longrightarrow> ring_inv c d sm0 \<Longrightarrow> spsc_inv c d s"
proof (induction rule: ring_reach.induct)
  case start
  then show ?case by (simp add: spsc_inv_def ring_start_def)
next
  case (step s s')
  then show ?case by (blast intro: step_keeps)
qed

section \<open>The steps add up to the operations\<close>

text \<open>
  A call that is not interrupted performs the sequential operation of theory \<open>Ring\<close>, so the
  steps are the operation at a finer grain and not another program.
\<close>

lemma copy_bytes_run:
  "rs_prod s = P_byte x hv i \<Longrightarrow> i \<le> length (cmd_data x) \<Longrightarrow>
   (ring_step c d)\<^sup>*\<^sup>* s (s\<lparr>rs_prod := P_byte x hv (length (cmd_data x)),
     rs_mem := (rs_mem s)\<lparr>m_bytes := write_bytes (m_bytes (rs_mem s))
       (cmd_payload (cell_addr c d hv) + of_nat i) (drop i (cmd_data x))\<rparr>\<rparr>)"
proof (induction "length (cmd_data x) - i" arbitrary: i s)
  case 0
  then have "s\<lparr>rs_prod := P_byte x hv (length (cmd_data x)),
     rs_mem := (rs_mem s)\<lparr>m_bytes := write_bytes (m_bytes (rs_mem s))
       (cmd_payload (cell_addr c d hv) + of_nat i) (drop i (cmd_data x))\<rparr>\<rparr> = s"
    by (intro ring_state.equality) simp_all
  then show ?case by (simp only: rtranclp.rtrancl_refl)
next
  case (Suc n)
  then have i: "i < length (cmd_data x)" by simp
  let ?a = "cmd_payload (cell_addr c d hv)"
  let ?s1 = "s\<lparr>rs_prod := P_byte x hv (i + 1), rs_mem := (rs_mem s)\<lparr>m_bytes := (m_bytes (rs_mem s))
        (?a + of_nat i := cmd_data x ! i)\<rparr>\<rparr>"
  have st: "ring_step c d s ?s1" using Suc.prems(1) i by (rule push_copy_byte)
  have "(ring_step c d)\<^sup>*\<^sup>* ?s1 (?s1\<lparr>rs_prod := P_byte x hv (length (cmd_data x)),
     rs_mem := (rs_mem ?s1)\<lparr>m_bytes := write_bytes (m_bytes (rs_mem ?s1))
       (?a + of_nat (i + 1)) (drop (i + 1) (cmd_data x))\<rparr>\<rparr>)"
    using Suc.hyps(2) i by (intro Suc.hyps(1)) simp_all
  with st have "(ring_step c d)\<^sup>*\<^sup>* s (?s1\<lparr>rs_prod := P_byte x hv (length (cmd_data x)),
     rs_mem := (rs_mem ?s1)\<lparr>m_bytes := write_bytes (m_bytes (rs_mem ?s1))
       (?a + of_nat (i + 1)) (drop (i + 1) (cmd_data x))\<rparr>\<rparr>)"
    by (rule converse_rtranclp_into_rtranclp)
  with i show ?case by (simp add: Cons_nth_drop_Suc[symmetric] add.assoc add.commute[of 1])
qed

lemma store_fields_run:
  assumes "rs_prod s = P_field x hv 0"
  shows "(ring_step c d)\<^sup>*\<^sup>* s (s\<lparr>rs_prod := P_byte x hv 0,
     rs_mem := (rs_mem s)\<lparr>m_cmds := (m_cmds (rs_mem s))(cell_addr c d hv :=
       \<lparr>c_id = cmd_id x, c_reply_to = cmd_reply_to x, c_timestamp_ns = cmd_timestamp_ns x,
        c_type = cmd_type x, c_size = of_nat (length (cmd_data x))\<rparr>)\<rparr>\<rparr>)"
proof -
  define st where "st k s = s\<lparr>rs_prod := (if k = 4 then P_byte x hv 0 else P_field x hv (k + 1)),
      rs_mem := (rs_mem s)\<lparr>m_cmds := (m_cmds (rs_mem s))(cell_addr c d hv :=
        store_field k x (m_cmds (rs_mem s) (cell_addr c d hv)))\<rparr>\<rparr>"
    for k :: nat and s :: ring_state
  have one: "ring_step c d s (st k s)" if "rs_prod s = P_field x hv k" "k < 5" for s k
    unfolding st_def using that by (rule push_store_field)
  have pc: "rs_prod (st k s) = P_field x hv (k + 1)" if "k < 4" for s k
    using that by (simp add: st_def)
  have "ring_step c d s (st 0 s)" using assms by (simp add: one)
  moreover have "ring_step c d (st 0 s) (st 1 (st 0 s))" using pc[of 0] by (simp add: one)
  moreover have "ring_step c d (st 1 (st 0 s)) (st 2 (st 1 (st 0 s)))"
    using pc[of 1] by (intro one) simp_all
  moreover have "ring_step c d (st 2 (st 1 (st 0 s))) (st 3 (st 2 (st 1 (st 0 s))))"
    using pc[of 2] by (intro one) simp_all
  moreover have "ring_step c d (st 3 (st 2 (st 1 (st 0 s)))) (st 4 (st 3 (st 2 (st 1 (st 0 s)))))"
    using pc[of 3] by (intro one) simp_all
  ultimately have "(ring_step c d)\<^sup>*\<^sup>* s (st 4 (st 3 (st 2 (st 1 (st 0 s)))))"
    by (blast intro: converse_rtranclp_into_rtranclp)
  moreover have "h\<lparr>c_id := i, c_reply_to := r, c_timestamp_ns := t, c_type := ty, c_size := z\<rparr> =
      \<lparr>c_id = i, c_reply_to = r, c_timestamp_ns = t, c_type = ty, c_size = z\<rparr>"
    for h :: LLCmdHeader and i r t ty z by (cases h) simp
  ultimately show ?thesis by (simp add: st_def)
qed

definition command_header :: "LLShmCommand \<Rightarrow> LLCmdHeader" where
  "command_header x = \<lparr>c_id = cmd_id x, c_reply_to = cmd_reply_to x,
     c_timestamp_ns = cmd_timestamp_ns x, c_type = cmd_type x, c_size = of_nat (length (cmd_data x))\<rparr>"

lemma push_run:
  assumes "rs_prod s = P_idle" and "length (cmd_data x) \<le> unat (cfg_max_command_bytes c)"
    and "ring_used c d (rs_mem s) < unat (cfg_command_slots c)"
  shows "(ring_step c d)\<^sup>*\<^sup>* s (s\<lparr>rs_sent := rs_sent s @ [x],
     rs_mem := push_mem c d (command_header x) (cmd_data x) (rs_mem s)\<rparr>)"
proof -
  let ?h = "ring_hd c d (rs_mem s)" and ?t = "ring_tl c d (rs_mem s)"
  let ?s1 = "s\<lparr>rs_prod := P_head x ?h\<rparr>"
  let ?s2 = "?s1\<lparr>rs_prod := P_tail x ?h ?t\<rparr>"
  let ?s3 = "?s2\<lparr>rs_prod := P_field x ?h 0\<rparr>"
  let ?s4 = "?s3\<lparr>rs_prod := P_byte x ?h 0, rs_mem := (rs_mem ?s3)\<lparr>m_cmds :=
      (m_cmds (rs_mem ?s3))(cell_addr c d ?h := command_header x)\<rparr>\<rparr>"
  let ?s5 = "?s4\<lparr>rs_prod := P_byte x ?h (length (cmd_data x)), rs_mem := (rs_mem ?s4)\<lparr>m_bytes :=
      write_bytes (m_bytes (rs_mem ?s4)) (cmd_payload (cell_addr c d ?h)) (cmd_data x)\<rparr>\<rparr>"
  let ?s6 = "?s5\<lparr>rs_prod := P_idle, rs_sent := rs_sent ?s5 @ [x],
      rs_mem := set_ring c d \<lparr>r_head = ?h + 1, r_tail = ring_tl c d (rs_mem ?s5)\<rparr> (rs_mem ?s5)\<rparr>"
  have "ring_step c d s ?s1" using assms(1,2) by (rule push_load_head)
  moreover have "ring_step c d ?s1 ?s2" using push_load_tail[of ?s1 x ?h c d] by simp
  moreover have "ring_step c d ?s2 ?s3"
    using assms(3) by (intro push_room) (auto simp: ring_used_def word_le_unat)
  moreover have "(ring_step c d)\<^sup>*\<^sup>* ?s3 ?s4"
    using store_fields_run[of ?s3 x ?h c d] by (simp add: command_header_def)
  moreover have "(ring_step c d)\<^sup>*\<^sup>* ?s4 ?s5" using copy_bytes_run[of ?s4 x ?h 0 c d] by simp
  moreover have "ring_step c d ?s5 ?s6" by (rule push_store_head) simp
  ultimately have "(ring_step c d)\<^sup>*\<^sup>* s ?s6"
    by (meson converse_rtranclp_into_rtranclp rtranclp.rtrancl_into_rtrancl rtranclp_trans)
  moreover have "?s6 = s\<lparr>rs_sent := rs_sent s @ [x],
     rs_mem := push_mem c d (command_header x) (cmd_data x) (rs_mem s)\<rparr>"
    using assms(1) by (intro ring_state.equality) (simp_all add: push_mem_def fill_cell_def ring_tl_def)
  ultimately show ?thesis by simp
qed

lemma load_bytes_run:
  "rs_cons s = C_byte tv x n i \<Longrightarrow> i \<le> n \<Longrightarrow>
   (ring_step c d)\<^sup>*\<^sup>* s (s\<lparr>rs_cons := C_byte tv (x\<lparr>cmd_data := cmd_data x @
     drop i (read_bytes (m_bytes (rs_mem s)) (cmd_payload (cell_addr c d tv)) n)\<rparr>) n n\<rparr>)"
proof (induction "n - i" arbitrary: i x s)
  case 0
  then have "s\<lparr>rs_cons := C_byte tv (x\<lparr>cmd_data := cmd_data x @
     drop i (read_bytes (m_bytes (rs_mem s)) (cmd_payload (cell_addr c d tv)) n)\<rparr>) n n\<rparr> = s"
    by (intro ring_state.equality) (simp_all add: LLShmCommand.equality)
  then show ?case by (simp only: rtranclp.rtrancl_refl)
next
  case (Suc k)
  then have i: "i < n" by simp
  let ?b = "m_bytes (rs_mem s)" and ?a = "cmd_payload (cell_addr c d tv)"
  let ?x1 = "x\<lparr>cmd_data := cmd_data x @ [?b (?a + of_nat i)]\<rparr>"
  let ?s1 = "s\<lparr>rs_cons := C_byte tv ?x1 n (i + 1)\<rparr>"
  have "ring_step c d s ?s1" using Suc.prems(1) i by (rule pop_copy_byte)
  moreover have "(ring_step c d)\<^sup>*\<^sup>* ?s1 (?s1\<lparr>rs_cons := C_byte tv (?x1\<lparr>cmd_data := cmd_data ?x1 @
     drop (i + 1) (read_bytes (m_bytes (rs_mem ?s1)) ?a n)\<rparr>) n n\<rparr>)"
    using Suc.hyps(2) i by (intro Suc.hyps(1)) simp_all
  ultimately have "(ring_step c d)\<^sup>*\<^sup>* s (?s1\<lparr>rs_cons := C_byte tv (?x1\<lparr>cmd_data := cmd_data ?x1 @
     drop (i + 1) (read_bytes (m_bytes (rs_mem ?s1)) ?a n)\<rparr>) n n\<rparr>)"
    by (rule converse_rtranclp_into_rtranclp)
  moreover have "drop i (read_bytes ?b ?a n) = ?b (?a + of_nat i) # drop (i + 1) (read_bytes ?b ?a n)"
    using i by (simp add: Cons_nth_drop_Suc[symmetric])
  ultimately show ?case by simp
qed

lemma load_fields_run:
  assumes "rs_cons s = C_field tv blank_command 0"
  shows "(ring_step c d)\<^sup>*\<^sup>* s (s\<lparr>rs_cons := C_byte tv ((cell c d (rs_mem s) tv)\<lparr>cmd_data := []\<rparr>)
     (length (cmd_data (cell c d (rs_mem s) tv))) 0\<rparr>)"
proof -
  let ?h = "m_cmds (rs_mem s) (cell_addr c d tv)"
  define st where "st k x = s\<lparr>rs_cons := C_field tv x k\<rparr>" for k :: nat and x
  have one: "ring_step c d (st k x) (st (k + 1) (load_field k ?h x))" if "k < 4" for k x
    using pop_load_field[of "st k x" tv x k c d] that by (simp add: st_def)
  let ?x1 = "load_field 0 ?h blank_command"
  let ?x2 = "load_field 1 ?h ?x1" let ?x3 = "load_field 2 ?h ?x2" let ?x4 = "load_field 3 ?h ?x3"
  have s: "s = st 0 blank_command" using assms by (simp add: st_def)
  have "ring_step c d s (st 1 ?x1)" using one[of 0 blank_command] s by simp
  moreover have "ring_step c d (st 1 ?x1) (st 2 ?x2)"
    using one[of 1 ?x1] by (simp only: one_add_one)
  moreover have "ring_step c d (st 2 ?x2) (st 3 ?x3)" using one[of 2 ?x2] by simp
  moreover have "ring_step c d (st 3 ?x3) (st 4 ?x4)" using one[of 3 ?x3] by simp
  moreover have "ring_step c d (st 4 ?x4) ((st 4 ?x4)\<lparr>rs_cons := C_byte tv ?x4
      (unat (if c_size ?h > cfg_max_command_bytes c then cfg_max_command_bytes c else c_size ?h)) 0\<rparr>)"
    by (rule pop_load_size) (simp_all add: st_def)
  ultimately have "(ring_step c d)\<^sup>*\<^sup>* s ((st 4 ?x4)\<lparr>rs_cons := C_byte tv ?x4
      (unat (if c_size ?h > cfg_max_command_bytes c then cfg_max_command_bytes c else c_size ?h)) 0\<rparr>)"
    by (blast intro: converse_rtranclp_into_rtranclp)
  then show ?thesis
    by (simp add: st_def cell_def Let_def blank_command_def mk_command_def)
qed

lemma pop_run:
  assumes "rs_cons s = C_idle" and "0 < ring_used c d (rs_mem s)"
  shows "(ring_step c d)\<^sup>*\<^sup>* s
     (s\<lparr>rs_recv := rs_recv s @ [cell c d (rs_mem s) (ring_tl c d (rs_mem s))],
       rs_mem := pop_mem c d (rs_mem s)\<rparr>)"
proof -
  let ?t = "ring_tl c d (rs_mem s)" and ?h = "ring_hd c d (rs_mem s)"
  let ?x = "cell c d (rs_mem s) ?t" let ?n = "length (cmd_data ?x)"
  let ?s1 = "s\<lparr>rs_cons := C_tail ?t\<rparr>"
  let ?s2 = "?s1\<lparr>rs_cons := C_head ?t ?h\<rparr>"
  let ?s3 = "?s2\<lparr>rs_cons := C_field ?t blank_command 0\<rparr>"
  let ?s4 = "?s3\<lparr>rs_cons := C_byte ?t (?x\<lparr>cmd_data := []\<rparr>) ?n 0\<rparr>"
  let ?s5 = "?s4\<lparr>rs_cons := C_byte ?t ?x ?n ?n\<rparr>"
  let ?s6 = "?s5\<lparr>rs_cons := C_idle, rs_recv := rs_recv ?s5 @ [?x],
      rs_mem := set_ring c d \<lparr>r_head = ring_hd c d (rs_mem ?s5), r_tail = ?t + 1\<rparr> (rs_mem ?s5)\<rparr>"
  have ne: "?t \<noteq> ?h" using assms(2) by (auto simp: ring_used_def)
  have data: "read_bytes (m_bytes (rs_mem s)) (cmd_payload (cell_addr c d ?t)) ?n = cmd_data ?x"
    by (simp add: cell_def Let_def)
  have "ring_step c d s ?s1" using assms(1) by (rule pop_load_tail)
  moreover have "ring_step c d ?s1 ?s2" using pop_load_head[of ?s1 ?t c d] by simp
  moreover have "ring_step c d ?s2 ?s3" using ne by (intro pop_some) simp_all
  moreover have "(ring_step c d)\<^sup>*\<^sup>* ?s3 ?s4" using load_fields_run[of ?s3 ?t c d] by simp
  moreover have "(ring_step c d)\<^sup>*\<^sup>* ?s4 ?s5"
    using load_bytes_run[of ?s4 ?t "?x\<lparr>cmd_data := []\<rparr>" ?n 0 c d] by (simp add: data)
  moreover have "ring_step c d ?s5 ?s6" by (rule pop_store_tail) simp
  ultimately have "(ring_step c d)\<^sup>*\<^sup>* s ?s6"
    by (meson converse_rtranclp_into_rtranclp rtranclp.rtrancl_into_rtrancl rtranclp_trans)
  moreover have "?s6 = s\<lparr>rs_recv := rs_recv s @ [?x], rs_mem := pop_mem c d (rs_mem s)\<rparr>"
    using assms(1) by (intro ring_state.equality) (simp_all add: pop_mem_def)
  ultimately show ?thesis by simp
qed

lemma ring_reach_run:
  "(ring_step c d)\<^sup>*\<^sup>* s s' \<Longrightarrow> ring_reach c d sm0 s \<Longrightarrow> ring_reach c d sm0 s'"
  by (induction rule: rtranclp_induct) (auto intro: ring_reach.step)

section \<open>Properties\<close>

text \<open>
  C3.  The command channel under concurrency.  However the accesses of the producer and of the
  consumer interleave with each other and with other traffic in the segment, the commands that
  were accepted are, in order and unchanged, the commands that were received followed by the ones
  still queued, and no more than \<open>command_slots\<close> are queued: nothing is lost, duplicated,
  reordered, torn or overwritten, also when the 64-bit counters wrap.
\<close>

theorem spsc_lossless_in_order:
  assumes "config_valid c" and "ring_used c d sm0 \<le> unat (cfg_command_slots c)"
    and "ring_reach c d sm0 s"
  shows "rs_sent s = rs_recv s @ ring_queue c d (rs_mem s) \<and>
    length (ring_queue c d (rs_mem s)) \<le> unat (cfg_command_slots c)"
proof -
  have "spsc_inv c d s" using assms by (intro ring_reach_inv) (simp_all add: ring_inv_def)
  then show ?thesis by (simp add: spsc_inv_def ring_inv_def)
qed

text \<open>
  The hypotheses hold in a run that starts with both counters one step before the wrap-around,
  in which a command is pushed and popped.
\<close>

lemma demo_run:
  "\<exists>s. ring_reach demo_config Upstream wrap_mem s \<and> rs_recv s = [demo_command] \<and>
    rs_sent s = [demo_command] \<and> ring_hd demo_config Upstream (rs_mem s) = 0"
proof -
  let ?c = demo_config and ?d = Upstream
  let ?s0 = "ring_start ?c ?d wrap_mem"
  have v: "config_valid ?c" by (rule demo_config_valid)
  have q0: "ring_used ?c ?d wrap_mem = 0" "ring_queue ?c ?d wrap_mem = []"
    by (simp_all add: ring_used_def ring_queue_def ring_hd_def ring_tl_def wrap_mem_def)
  have fit: "length (cmd_data demo_command) \<le> unat (cfg_max_command_bytes ?c)"
    by (simp add: demo_command_def mk_command_def)
  let ?m = "push_mem ?c ?d (command_header demo_command) (cmd_data demo_command) wrap_mem"
  let ?s1 = "?s0\<lparr>rs_sent := rs_sent ?s0 @ [demo_command], rs_mem := ?m\<rparr>"
  have u: "ring_used ?c ?d wrap_mem < unat (cfg_command_slots ?c)"
    by (simp add: q0)
  have r1: "ring_reach ?c ?d wrap_mem ?s1"
    using push_run[of ?s0 demo_command ?c ?d] fit u
    by (intro ring_reach_run[OF _ ring_reach.start]) (simp add: ring_start_def)
  have q: "ring_queue ?c ?d ?m = [demo_command]"
    using queue_push_mem[OF v u, of "command_header demo_command" "cmd_data demo_command"] fit q0
    by (simp add: command_header_def)
  have used: "ring_used ?c ?d ?m = Suc 0" using used_push_mem[OF v u] q0 by simp
  let ?s2 = "?s1\<lparr>rs_recv := rs_recv ?s1 @ [cell ?c ?d ?m (ring_tl ?c ?d ?m)],
       rs_mem := pop_mem ?c ?d ?m\<rparr>"
  have r2: "ring_reach ?c ?d wrap_mem ?s2"
    using pop_run[of ?s1 ?c ?d] used
    by (intro ring_reach_run[OF _ r1]) (simp add: ring_start_def)
  have x: "cell ?c ?d ?m (ring_tl ?c ?d ?m) = demo_command"
    using queue_pop_mem(2)[OF used] q by simp
  have "rs_recv ?s2 = [demo_command] \<and> rs_sent ?s2 = [demo_command] \<and>
      ring_hd ?c ?d (rs_mem ?s2) = 0"
    unfolding x using q0
    by (simp add: ring_start_def pop_mem_def push_mem_def ring_hd_def set_ring_def fill_cell_def wrap_mem_def)
  with r2 show ?thesis by blast
qed

theorem spsc_lossless_in_order_witness:
  "\<exists>s. ring_reach demo_config Upstream wrap_mem s \<and> rs_recv s = [demo_command] \<and>
    rs_sent s = rs_recv s @ ring_queue demo_config Upstream (rs_mem s)"
proof -
  obtain s where s: "ring_reach demo_config Upstream wrap_mem s" "rs_recv s = [demo_command]"
    using demo_run by blast
  have "ring_used demo_config Upstream wrap_mem \<le> unat (cfg_command_slots demo_config)"
    by (simp add: ring_used_def ring_hd_def ring_tl_def wrap_mem_def)
  with spsc_lossless_in_order[OF demo_config_valid _ s(1)] s show ?thesis by blast
qed

end
