(* ===== verification/System.thy ===== *)
theory System
  imports Seqlock Ring_Concurrency
begin

text \<open>
  Publisher and subscriber together: what one side does, seen through the operations of the
  other.  The lemmas here compose the per-component facts; the properties that span the
  components are stated in the root theory.
\<close>

section \<open>Frames across the segment\<close>

text \<open>
  A read while nobody writes: an attached, unthrottled subscriber gets the frame \<open>latest\<close> names,
  and refreshes its claim on the command channel on the way.
\<close>

lemma read_current:
  assumes "attached c b s" and "config_valid c" and "j < cfg_slot_count c"
    and "h_latest (m_hdr (hp b)) = push_bit 2 fid OR ucast j" and "fid \<noteq> 0" and "unat fid < 2 ^ 62" and "u_last_frame s \<noteq> fid"
    and "even (s_seq (slot_of c (hp b) j))" and "0 < unat (s_payload_bytes (slot_of c (hp b) j))"
    and "unat (s_payload_bytes (slot_of c (hp b) j)) \<le> unat (max_payload c)"
    and "unat (max_payload c) \<le> length dst" and "length dst < 2 ^ 64"
    and "pclk 0 - u_last_progress s < u_stale_ns s" and "read_due rclk s" and "polled b (pclk 1) s hp = (m1, hp1)"
  shows "read_latest ops evs pclk rclk calm dst s k hp =
    ((Read_Ok, slot_bytes c (hp b) j @ drop (unat (s_payload_bytes (slot_of c (hp b) j))) dst, Some (slot_info (slot_of c (hp b) j))),
     after_read (rclk 1) (slot_info (slot_of c (hp b) j)) (gate_mark (rclk 0) m1), k, hp1)"
proof -
  note pf = polled_fields[OF assms(15)]
  have sl: "slot_of c (hp1 b) j = slot_of c (hp b) j" "slot_bytes c (hp1 b) j = slot_bytes c (hp b) j"
    using pf(9,10) by (simp_all add: slot_of_def slot_bytes_def)
  have "read_attempts (Suc 3) 0 (calm (hp1 b)) (rclk 1) (gate_mark (rclk 0) m1) dst =
      (Read_Ok, slot_bytes c (hp1 b) j @ drop (unat (s_payload_bytes (slot_of c (hp1 b) j))) dst,
       Some (slot_info (slot_of c (hp1 b) j)),
       after_read (rclk 1) (slot_info (slot_of c (hp1 b) j)) (gate_mark (rclk 0) m1))"
  proof (rule read_stable_ok[OF _ assms(2,3) _ assms(5,6)])
    show "attached c b (gate_mark (rclk 0) m1)" using assms(1) pf(1) by simp
    show "h_latest (m_hdr (calm (hp1 b) 0 0)) = push_bit 2 fid OR ucast j" using assms(4) pf(7) by (simp add: calm_def)
  qed (use assms(7-12) pf sl in \<open>auto simp: calm_def\<close>)
  then have "read_attempts 4 0 (calm (hp1 b)) (rclk 1) (gate_mark (rclk 0) m1) dst =
      (Read_Ok, slot_bytes c (hp b) j @ drop (unat (s_payload_bytes (slot_of c (hp b) j))) dst,
       Some (slot_info (slot_of c (hp b) j)), after_read (rclk 1) (slot_info (slot_of c (hp b) j)) (gate_mark (rclk 0) m1))"
    by (simp only: sl) (simp only: Suc_numeral semiring_norm)
  then show ?thesis
    using read_latest_healthy[where pclk = pclk and clk = rclk, OF assms(1,13,14,15), of ops evs calm dst k] by simp
qed

text \<open>The frame a publisher has just committed, as a reader finds it.\<close>

lemma published_current:
  assumes "pub_at b p hp" and "p_pending p = None" and "publish_due clk p" and "fits (p_cfg p) width height"
    and "st = (if src_stride = 0 then width * cfg_bytes_per_pixel (p_cfg p) else src_stride)"
    and "(unat height - 1) * unat st + unat width * unat (cfg_bytes_per_pixel (p_cfg p)) \<le> length src"
    and "unat (p_frame_id p) + 1 < 2 ^ 62"
    and "publish (Some src) width height src_stride clk p hp = (True, p', hp')"
    and "c = p_cfg p" and "j = next_slot p" and "fid = p_frame_id p + 1" and "n = unat width * unat height * unat (cfg_bytes_per_pixel c)"
  shows "config_valid c" and "j < cfg_slot_count c" and "h_latest (m_hdr (hp' b)) = push_bit 2 fid OR ucast j"
    and "fid \<noteq> 0" and "unat fid < 2 ^ 62" and "even (s_seq (slot_of c (hp' b) j))"
    and "unat (s_payload_bytes (slot_of c (hp' b) j)) = n" and "0 < n" and "n \<le> unat (max_payload c)"
    and "slot_info (slot_of c (hp' b) j) = published_info c fid (clk 1) width height"
    and "slot_bytes c (hp' b) j = image_rows src (unat width * unat (cfg_bytes_per_pixel c)) (unat st) (unat height)"
    and "pub_at b p' hp'" and "p_cfg p' = c" and "p_frame_id p' = fid" and "p_pending p' = None"
    and "ring_queue c d (hp' b) = ring_queue c d (hp b)"
    and "h_command_owner_gen (m_hdr (hp' b)) = h_command_owner_gen (m_hdr (hp b))"
    and "h_shutdown (m_hdr (hp' b)) = h_shutdown (m_hdr (hp b))" and "\<forall>x. x \<noteq> b \<longrightarrow> hp' x = hp x"
proof -
  note d = pub_atD[OF assms(1)]
  show "h_command_owner_gen (m_hdr (hp' b)) = h_command_owner_gen (m_hdr (hp b))"
    "h_shutdown (m_hdr (hp' b)) = h_shutdown (m_hdr (hp b))" "\<forall>x. x \<noteq> b \<longrightarrow> hp' x = hp x"
    using assms(8) unfolding publish_eq[OF assms(1-6)] by (auto simp: published_mem_def Let_def)
  from publish_facts[OF assms(1-6)] assms(8) have
    at: "pub_at b p' hp'" "p_cfg p' = c" and f: "p_frame_id p' = fid" "p_pending p' = None"
    and lat: "h_latest (m_hdr (hp' b)) = push_bit 2 fid OR ucast j" and rq: "ring_queue c d (hp' b) = ring_queue c d (hp b)"
    and fr: "\<forall>i<cfg_slot_count c. slot_frame c (hp' b) i = (if i = j
        then (published_info c fid (clk 1) width height,
              image_rows src (unat width * unat (cfg_bytes_per_pixel c)) (unat st) (unat height))
        else slot_frame c (hp b) i)"
    unfolding assms(9-11) by auto
  show "config_valid c" using d(1) by (simp add: assms(9))
  show j: "j < cfg_slot_count c" using next_slot_lt[OF d(1)] by (simp add: next_slot_def assms(9,10))
  show "h_latest (m_hdr (hp' b)) = push_bit 2 fid OR ucast j" by (rule lat)
  have "unat fid = unat (p_frame_id p) + 1" using assms(7) unfolding assms(11) by (subst unat_add64) auto
  then show "fid \<noteq> 0" "unat fid < 2 ^ 62" using assms(7) by (auto simp: unat_gt_0)
  show "even (s_seq (slot_of c (hp' b) j))" using pub_atD(5)[OF at(1)] f(2) j by (simp add: frames_inv_def at(2))
  show si: "slot_info (slot_of c (hp' b) j) = published_info c fid (clk 1) width height"
    and "slot_bytes c (hp' b) j = image_rows src (unat width * unat (cfg_bytes_per_pixel c)) (unat st) (unat height)"
    using fr j by (auto simp: slot_frame_def)
  show "unat (s_payload_bytes (slot_of c (hp' b) j)) = n"
    using si fits_exact(3)[OF d(1,2) assms(4)] by (simp add: slot_info_def published_info_def assms(9,12))
  show "0 < n" "n \<le> unat (max_payload c)"
    using config_validD(7)[OF d(1)] assms(4) by (simp_all add: fits_def unat_gt_0 assms(9,12))
  show "pub_at b p' hp'" "p_cfg p' = c" "p_frame_id p' = fid" "p_pending p' = None" "ring_queue c d (hp' b) = ring_queue c d (hp b)"
    by (rule at f rq)+
qed

lemma frame_crosses:
  assumes "pub_at b p hp" and "p_pending p = None" and "publish_due clk p" and "fits (p_cfg p) width height"
    and "st = (if src_stride = 0 then width * cfg_bytes_per_pixel (p_cfg p) else src_stride)"
    and "(unat height - 1) * unat st + unat width * unat (cfg_bytes_per_pixel (p_cfg p)) \<le> length src"
    and "attached (p_cfg p) b s" and "u_last_frame s \<noteq> p_frame_id p + 1" and "unat (p_frame_id p) + 1 < 2 ^ 62"
    and "pclk 0 - u_last_progress s < u_stale_ns s" and "read_due rclk s"
    and "unat (max_payload (p_cfg p)) \<le> length dst" and "length dst < 2 ^ 64"
  shows "\<exists>p' hp' s' hp'' dst'. publish (Some src) width height src_stride clk p hp = (True, p', hp') \<and>
    read_latest ops evs pclk rclk calm dst s k hp' =
      ((Read_Ok, dst', Some (published_info (p_cfg p) (p_frame_id p + 1) (clk 1) width height)), s', k, hp'') \<and>
    take (unat width * unat height * unat (cfg_bytes_per_pixel (p_cfg p))) dst' =
      image_rows src (unat width * unat (cfg_bytes_per_pixel (p_cfg p))) (unat st) (unat height) \<and>
    u_last_frame s' = p_frame_id p + 1 \<and> u_received s' = u_received s + 1"
proof -
  obtain p' hp' where pub: "publish (Some src) width height src_stride clk p hp = (True, p', hp')"
    using publish_facts[OF assms(1-6)] by blast
  note c = published_current[OF assms(1-6,9) pub refl refl refl refl]
  obtain m1 hp1 where po: "polled b (pclk 1) s hp' = (m1, hp1)" by force
  have h: "0 < unat height" using assms(4) by (simp add: fits_def unat_gt_0)
  have len: "length (image_rows src (unat width * unat (cfg_bytes_per_pixel (p_cfg p))) (unat st) (unat height)) =
      unat width * unat height * unat (cfg_bytes_per_pixel (p_cfg p))"
    using length_image_rows[OF h assms(6)] by (simp add: ac_simps)
  have "read_latest ops evs pclk rclk calm dst s k hp' =
    ((Read_Ok, slot_bytes (p_cfg p) (hp' b) (next_slot p) @ drop (unat (s_payload_bytes (slot_of (p_cfg p) (hp' b) (next_slot p)))) dst,
      Some (slot_info (slot_of (p_cfg p) (hp' b) (next_slot p)))),
     after_read (rclk 1) (slot_info (slot_of (p_cfg p) (hp' b) (next_slot p))) (gate_mark (rclk 0) m1), k, hp1)"
    using c(6-9) assms(8,10-13) po
    by (intro read_current[where hp = hp', OF assms(7) c(1-5)]) simp_all
  then show ?thesis
    using pub c(7,10,11) len polled_fields(3)[OF po] by (auto simp: after_read_def published_info_def)
qed

text \<open>A frame is delivered once: the next read finds nothing new until something is published.\<close>

lemma read_again:
  assumes "attached c b s" and "pclk 0 - u_last_progress s < u_stale_ns s" and "read_due rclk s"
    and "drop_bit 2 (h_latest (m_hdr (hp b))) = u_last_frame s \<or> h_latest (m_hdr (hp b)) = 0"
    and "polled b (pclk 1) s hp = (m1, hp1)"
  shows "read_latest ops evs pclk rclk calm dst s k hp =
    (if h_shutdown (m_hdr (hp b)) \<noteq> 0
     then ((Disconnected, dst, None), (gate_mark (rclk 0) m1)\<lparr>u_peer_shutdown := True\<rparr>, k, hp1)
     else ((NoNewFrame, dst, None), gate_mark (rclk 0) m1, k, hp1))"
proof -
  note pf = polled_fields[OF assms(5)]
  have "read_attempts (Suc 3) 0 (calm (hp1 b)) (rclk 1) (gate_mark (rclk 0) m1) dst =
      (if h_shutdown (m_hdr (hp b)) \<noteq> 0 then (Disconnected, dst, None, (gate_mark (rclk 0) m1)\<lparr>u_peer_shutdown := True\<rparr>)
       else (NoNewFrame, dst, None, gate_mark (rclk 0) m1))"
  proof -
    have "h_latest (m_hdr (hp1 b)) = 0 \<or> drop_bit 2 (h_latest (m_hdr (hp1 b))) = u_last_frame (gate_mark (rclk 0) m1)"
      using assms(4) pf(2,7) by auto
    from read_calm_none[OF this, of 3 0 "rclk 1" dst] show ?thesis by (simp only: pf(8))
  qed
  then have "read_attempts 4 0 (calm (hp1 b)) (rclk 1) (gate_mark (rclk 0) m1) dst =
      (if h_shutdown (m_hdr (hp b)) \<noteq> 0 then (Disconnected, dst, None, (gate_mark (rclk 0) m1)\<lparr>u_peer_shutdown := True\<rparr>)
       else (NoNewFrame, dst, None, gate_mark (rclk 0) m1))"
    by (simp only: Suc_numeral semiring_norm)
  then show ?thesis
    by (simp add: read_latest_healthy[where pclk = pclk and clk = rclk, OF assms(1-3,5)])
qed

section \<open>The vector overload on the owner's side\<close>

text \<open>Both polls of the overload refresh the claim; nothing else in memory changes.\<close>

lemma beats [simp]: "upd_hdr b (beat t) (upd_hdr b (beat u) hp) = upd_hdr b (beat t) hp"
  by (simp add: upd_hdr_def beat_def)

lemma owner_ok_beat [simp]: "owner_ok m (upd_hdr b (beat t) hp b) = owner_ok m (hp b)"
  by (simp add: owner_ok_def beat_def)

lemma vec_owner:
  assumes "attached c b s" and "owner_ok s (hp b)" and "u_min_read_ns s = 0" and "length dst \<le> unat (max_payload c)"
    and "pclk 0 - u_last_progress s < u_stale_ns s"
  shows "read_latest_vec ops evs pclk qclk clk view dst s k hp =
    read_latest ops evs qclk clk view (dst @ replicate (unat (max_payload c) - length dst) 0) s k (upd_hdr b (beat (pclk 1)) hp)"
proof -
  have "max_payload (u_remote s) = max_payload c" using assms(1) by (simp add: attached_def same_geometry_def max_payload_def)
  then show ?thesis
    using assms(2-4) by (simp add: read_latest_vec_def Let_def poll_healthy[where clk = pclk, OF assms(1,5)])
qed

lemma vec_current:
  assumes "attached c b s" and "config_valid c" and "j < cfg_slot_count c"
    and "h_latest (m_hdr (hp b)) = push_bit 2 fid OR ucast j" and "fid \<noteq> 0" and "unat fid < 2 ^ 62" and "u_last_frame s \<noteq> fid"
    and "even (s_seq (slot_of c (hp b) j))" and "0 < unat (s_payload_bytes (slot_of c (hp b) j))"
    and "unat (s_payload_bytes (slot_of c (hp b) j)) \<le> unat (max_payload c)"
    and "owner_ok s (hp b)" and "u_min_read_ns s = 0"
    and "pclk 0 - u_last_progress s < u_stale_ns s" and "qclk 0 - u_last_progress s < u_stale_ns s"
    and "length dst \<le> unat (max_payload c)"
  shows "read_latest_vec ops evs pclk qclk clk calm dst s k hp =
    ((Read_Ok, slot_bytes c (hp b) j @
       drop (unat (s_payload_bytes (slot_of c (hp b) j))) (dst @ replicate (unat (max_payload c) - length dst) 0),
      Some (slot_info (slot_of c (hp b) j))),
     after_read (clk 1) (slot_info (slot_of c (hp b) j)) s, k, upd_hdr b (beat (qclk 1)) hp)"
proof -
  let ?hp = "upd_hdr b (beat (pclk 1)) hp" and ?d = "dst @ replicate (unat (max_payload c) - length dst) 0"
  have sl: "slot_of c (?hp b) j = slot_of c (hp b) j" "slot_bytes c (?hp b) j = slot_bytes c (hp b) j"
    by (simp_all add: slot_of_def slot_bytes_def)
  have po: "polled b (qclk 1) s ?hp = (s, upd_hdr b (beat (qclk 1)) hp)" using assms(11) by (simp add: polled_def)
  have ns: "length ?d = unat (max_payload c)" "length ?d < 2 ^ 64" using assms(15) unat_lt64[of "max_payload c"] by simp_all
  have "read_latest ops evs qclk clk calm ?d s k ?hp =
    ((Read_Ok, slot_bytes c (?hp b) j @ drop (unat (s_payload_bytes (slot_of c (?hp b) j))) ?d,
      Some (slot_info (slot_of c (?hp b) j))),
     after_read (clk 1) (slot_info (slot_of c (?hp b) j)) (gate_mark (clk 0) s), k, upd_hdr b (beat (qclk 1)) hp)"
    using assms(7-10,12,14) sl ns po
    by (intro read_current[where hp = ?hp and pclk = qclk and rclk = clk and b = b and fid = fid, OF assms(1-3) _ assms(5,6)])
      (simp_all add: assms(4) beat_def read_due_def)
  then show ?thesis unfolding sl
    using assms(12) by (simp add: vec_owner[where hp = hp and dst = dst and pclk = pclk, OF assms(1,11,12,15,13)] gate_mark_def)
qed

lemma vec_again:
  assumes "attached c b s" and "drop_bit 2 (h_latest (m_hdr (hp b))) = u_last_frame s" and "h_shutdown (m_hdr (hp b)) = 0"
    and "owner_ok s (hp b)" and "u_min_read_ns s = 0" and "length dst = unat (max_payload c)"
    and "pclk 0 - u_last_progress s < u_stale_ns s" and "qclk 0 - u_last_progress s < u_stale_ns s"
  shows "read_latest_vec ops evs pclk qclk clk calm dst s k hp =
    ((NoNewFrame, dst, None), s, k, upd_hdr b (beat (qclk 1)) hp)"
proof -
  let ?hp = "upd_hdr b (beat (pclk 1)) hp"
  have po: "polled b (qclk 1) s ?hp = (s, upd_hdr b (beat (qclk 1)) hp)" using assms(4) by (simp add: polled_def)
  have "read_latest ops evs qclk clk calm dst s k ?hp = ((NoNewFrame, dst, None), gate_mark (clk 0) s, k, upd_hdr b (beat (qclk 1)) hp)"
    using assms(2,3,5) po
    by (subst read_again[where pclk = qclk and rclk = clk and hp = ?hp, OF assms(1,8) _ _ po]) (simp_all add: beat_def read_due_def)
  then show ?thesis
    using assms(5,6) by (simp add: vec_owner[where hp = hp and dst = dst and pclk = pclk, OF assms(1,4,5) _ assms(7)] gate_mark_def)
qed

section \<open>Commands across the segment\<close>

lemma command_downstream:
  assumes "pub_at b p hp" and "attached (p_cfg p) b s" and "owner_ok s (hp b)"
    and "length (send_data data sz) = unat sz" and "sz \<le> cfg_max_command_bytes (p_cfg p)"
    and "length (ring_queue (p_cfg p) Downstream (hp b)) < unat (cfg_command_slots (p_cfg p))"
    and "x = mk_command ty (send_data data sz) (p_next_cmd p) reply_to (clk 0)"
  shows "\<exists>p' hp' s' hp''. pub_send ty data sz reply_to clk p hp = (Some (p_next_cmd p), p', hp') \<and>
    sub_receive rclk s hp' = (Some (hd (ring_queue (p_cfg p) Downstream (hp b) @ [x])), s', hp'') \<and>
    ring_queue (p_cfg p) Downstream (hp'' b) = tl (ring_queue (p_cfg p) Downstream (hp b) @ [x]) \<and>
    ring_queue (p_cfg p) Upstream (hp'' b) = ring_queue (p_cfg p) Upstream (hp b)"
proof -
  let ?c = "p_cfg p" and ?q = "ring_queue (p_cfg p) Downstream (hp b) @ [x]"
  from pub_send_accepted[OF assms(1,4-6), of ty reply_to clk] assms(7) obtain sm p' where
    send: "pub_send ty data sz reply_to clk p hp = (Some (p_next_cmd p), p', hp(b := sm))"
    and eff: "cmd_effect ?c Downstream ?q (hp b) sm" by auto
  let ?hp = "hp(b := sm)"
  have si: "seg_inv ?c (?hp b)" and q: "ring_queue ?c Downstream (?hp b) = ?q"
    and up: "ring_queue ?c Upstream sm = ring_queue ?c Upstream (hp b)"
    using eff by (auto simp: cmd_effect_def)
  have ow: "owner_ok s (?hp b)" using eff assms(3) by (simp add: cmd_effect_def owner_ok_def)
  obtain y ys where ys: "?q = y # ys" by (cases ?q) auto
  from sub_receive_eq[where hp = ?hp, OF assms(2) si ow, of rclk, unfolded q ys] obtain sm2 s' where
    rc: "sub_receive rclk s ?hp = (Some y, s', ?hp(b := sm2))"
    and e2: "cmd_effect ?c Downstream ys (upd_hdr b (beat (rclk 0)) ?hp b) sm2" by auto
  have "ring_queue ?c Upstream sm2 = ring_queue ?c Upstream (upd_hdr b (beat (rclk 0)) ?hp b)"
    "ring_queue ?c Downstream sm2 = ys" using e2 by (auto simp: cmd_effect_def)
  then show ?thesis using send rc up ys by auto
qed

lemma command_upstream:
  assumes "pub_at b p hp" and "attached (p_cfg p) b s" and "owner_ok s (hp b)"
    and "length (send_data data sz) = unat sz" and "sz \<le> cfg_max_command_bytes (p_cfg p)"
    and "length (ring_queue (p_cfg p) Upstream (hp b)) < unat (cfg_command_slots (p_cfg p))"
    and "x = mk_command ty (send_data data sz) (u_next_cmd s) reply_to (clk 1)"
  shows "\<exists>s' hp' p' hp''. sub_send ty data sz reply_to clk s hp = (Some (u_next_cmd s), s', hp') \<and>
    pub_receive p hp' = (Some (hd (ring_queue (p_cfg p) Upstream (hp b) @ [x])), p', hp'') \<and>
    ring_queue (p_cfg p) Upstream (hp'' b) = tl (ring_queue (p_cfg p) Upstream (hp b) @ [x]) \<and>
    ring_queue (p_cfg p) Downstream (hp'' b) = ring_queue (p_cfg p) Downstream (hp b)"
proof -
  let ?c = "p_cfg p" and ?q = "ring_queue (p_cfg p) Upstream (hp b) @ [x]"
  note d = pub_atD[OF assms(1)]
  from sub_send_accepted[where hp = hp, OF assms(2) d(3) assms(3-6), of ty reply_to clk] assms(7) obtain sm s' where
    send: "sub_send ty data sz reply_to clk s hp = (Some (u_next_cmd s), s', hp(b := sm))"
    and eff: "cmd_effect ?c Upstream ?q (upd_hdr b (beat (clk 0)) hp b) sm" by auto
  have lat: "h_latest (m_hdr sm) = h_latest (m_hdr (hp b))" and sl: "m_slots sm = m_slots (hp b)"
    using eff by (auto simp: cmd_effect_def beat_def)
  have "frames_inv ?c (p_write_slot p) (p_pending p) (p_frame_id p) sm"
    using d(5) lat sl by (simp add: frames_inv_def slot_of_def)
  then have at: "pub_at b p (hp(b := sm))"
    using assms(1) eff by (simp add: pub_at_def cmd_effect_def)
  have q: "ring_queue ?c Upstream ((hp(b := sm)) b) = ?q"
    and dn: "ring_queue ?c Downstream sm = ring_queue ?c Downstream (hp b)" using eff by (auto simp: cmd_effect_def)
  obtain y ys where ys: "?q = y # ys" by (cases ?q) auto
  from pub_receive_eq[OF at, unfolded q ys] obtain sm2 p' where
    rc: "pub_receive p (hp(b := sm)) = (Some y, p', (hp(b := sm))(b := sm2))"
    and e2: "cmd_effect ?c Upstream ys sm sm2" by auto
  then show ?thesis using send dn ys by (auto simp: cmd_effect_def)
qed

section \<open>Losing the channel\<close>

text \<open>
  A subscriber whose claim was replaced by another one: it neither sends nor receives, and its
  destructor leaves the new claim in place.
\<close>

lemma locked_out:
  assumes "attached c b s" and "h_command_owner_gen (m_hdr (hp b)) \<noteq> u_owner_gen s"
  shows "sub_send ty data sz reply_to clk s hp = (None, s\<lparr>u_owns_commands := False\<rparr>, hp) \<and>
    sub_receive clk s hp = (None, s\<lparr>u_owns_commands := False\<rparr>, hp) \<and>
    snd (subscriber_destroy ops s k hp) = hp"
  using assms sub_not_owner[OF assms(1), of hp]
  by (simp add: owner_ok_def subscriber_destroy_def attached_def)

section \<open>Reconnection\<close>

context segment_store
begin

text \<open>Opening a channel that nobody owns: the new subscriber is attached and owns the commands.\<close>

lemma open_owner:
  assumes "ok k" and "bound k name = Some (b, sz)" and "config_valid c" and "hdr_describes c (m_hdr (hp b))"
    and "L_total_size (compute_layout c) \<le> sz" and "h_command_owner_gen (m_hdr (hp b)) = 0"
  shows "\<exists>s k' t g. subscriber_open ops [] name clk k hp = (s, k', upd_hdr b (\<lambda>_. take_claim g t (m_hdr (hp b))) hp) \<and>
    attached c b s \<and> u_owns_commands s \<and> u_owner_gen s = g \<and> u_last_frame s = 0 \<and> u_next_cmd s = 1 \<and> u_received s = 0 \<and>
    u_min_read_ns s = 0 \<and> u_last_progress s = clk 0 \<and> u_stale_ns s = 500000000 \<and>
    ok k' \<and> bound k' = bound k \<and> alloc k' = alloc k \<and> g \<noteq> 0"
proof -
  let ?m = "LLSubscriber_new\<lparr>u_name := name, u_last_progress := clk 0\<rparr>" and ?h = "m_hdr (hp b)"
  define g where "g = (if clk 2 = 0 then 1 else clk 2)"
  have "g \<noteq> 0" by (simp add: g_def)
  have cl: "claim_loop [] 0 (\<lambda>i. clk (Suc i)) (h_command_owner_gen ?h) ?h = (Some g, take_claim g (clk 3) ?h)"
    using claim_loop_calm[of 0 "\<lambda>i. clk (Suc i)" ?h] assms(6) by (simp add: Let_def g_def numeral_2_eq_2 numeral_3_eq_3)
  have "\<exists>seg k' k1. try_connect ops [] (\<lambda>i. clk (Suc i)) ?m k hp =
      (True, adopted c b seg ?h (Some g) ?m, k', upd_hdr b (\<lambda>_. take_claim g (clk 3) ?h) hp) \<and>
      sg_region seg = (Some b, sz) \<and> k' = LLSegment_destroy ops (u_seg ?m) k1 \<and> ok k1 \<and> bound k1 = bound k \<and> alloc k1 = alloc k"
    using assms cl by (intro attach) (auto simp: LLSubscriber_new_def)
  then obtain seg k' where t: "try_connect ops [] (\<lambda>i. clk (Suc i)) ?m k hp =
      (True, adopted c b seg ?h (Some g) ?m, k', upd_hdr b (\<lambda>_. take_claim g (clk 3) ?h) hp)"
    and k': "ok k'" "bound k' = bound k" "alloc k' = alloc k"
    by (auto simp: LLSegment_destroy_def LLSubscriber_new_def)
  have "attached c b (adopted c b seg ?h (Some g) ?m)" by (rule adopted_attached[OF assms(4)])
  then show ?thesis using t k' \<open>g \<noteq> 0\<close>
    by (intro exI[of _ "adopted c b seg ?h (Some g) ?m"] exI[of _ k'] exI[of _ "clk 3"] exI[of _ g])
      (simp add: subscriber_open_def adopted_def LLSubscriber_new_def)
qed

text \<open>
  A subscriber that made no progress for the stale time, whose old producer does not answer and whose
  retry interval has passed, adopts the session now bound to its name.
\<close>

lemma poll_reattaches:
  assumes "ok k" and "bound k (u_name s) = Some (b2, sz)" and "config_valid c2"
    and "hdr_describes c2 (m_hdr (hp b2))" and "L_total_size (compute_layout c2) \<le> sz"
    and "attached c1 b1 s" and "b1 \<noteq> b2" and "h_session_id (m_hdr (hp b2)) \<noteq> u_session s"
    and "u_stale_ns s \<le> clk 0 - u_last_progress s"
    and "u_stale_ns s \<le> clk 2 - h_last_heartbeat_ns (m_hdr (hp b1))"
    and "u_retry_ns s \<le> clk 0 - u_last_attempt s"
    and "clk 3 - h_last_heartbeat_ns (m_hdr (hp b2)) < u_stale_ns s"
  shows "\<exists>s' k' hp'. poll ops evs clk s k hp = (True, s', k', hp') \<and> attached c2 b2 s' \<and>
    u_session s' = h_session_id (m_hdr (hp b2)) \<and> u_sessions s' = u_sessions s + 1 \<and> u_last_frame s' = 0 \<and>
    u_next_cmd s' = 1 \<and> (h_command_owner_gen (m_hdr (hp b2)) = 0 \<and> evs = [] \<longrightarrow> owner_ok s' (hp' b2))"
proof -
  obtain s1 hp1 where po: "polled b1 (clk 1) s hp = (s1, hp1)" by force
  note pf = polled_fields[OF po]
  have so: "snd (still_owns_commands (clk 1) s hp) = (s1, hp1)"
    using po by (auto simp: still_owns_eq[OF assms(6)] polled_def split: if_splits)
  have s1: "u_name s1 = u_name s" "u_session s1 = u_session s" "u_last_progress s1 = u_last_progress s"
    "u_stale_ns s1 = u_stale_ns s" "u_retry_ns s1 = u_retry_ns s" "u_last_attempt s1 = u_last_attempt s"
    "u_sessions s1 = u_sessions s"
    using po by (auto simp: polled_def split: if_splits)
  have hp1: "hp1 b2 = hp b2" "h_last_heartbeat_ns (m_hdr (hp1 b1)) = h_last_heartbeat_ns (m_hdr (hp b1))"
    using po assms(7) by (auto simp: polled_def beat_def split: if_splits)
  have h1: "u_hdr s1 = Some b1" and h0: "u_hdr s \<noteq> None"
    using pf(1)[of c1] assms(6) by (auto simp: attached_def)
  let ?s2 = "s1\<lparr>u_last_attempt := clk 0\<rparr>" and ?h = "m_hdr (hp b2)"
  obtain claimed h' where cl: "claim_loop evs 0 (\<lambda>i. clk (4 + i)) (h_command_owner_gen ?h) ?h = (claimed, h')" by force
  have "\<exists>seg k' k1. try_connect ops evs (\<lambda>i. clk (4 + i)) ?s2 k hp1 =
      (True, adopted c2 b2 seg (m_hdr (hp1 b2)) claimed ?s2, k', upd_hdr b2 (\<lambda>_. h') hp1) \<and>
      sg_region seg = (Some b2, sz) \<and> k' = LLSegment_destroy ops (u_seg ?s2) k1 \<and>
      ok k1 \<and> bound k1 = bound k \<and> alloc k1 = alloc k"
    using assms(1-5,8) cl s1 hp1 by (intro attach) auto
  then obtain seg k' where tc: "try_connect ops evs (\<lambda>i. clk (4 + i)) ?s2 k hp1 =
      (True, adopted c2 b2 seg ?h claimed ?s2, k', upd_hdr b2 (\<lambda>_. h') hp1)" using hp1(1) by auto
  let ?s' = "(adopted c2 b2 seg ?h claimed ?s2)\<lparr>u_last_progress := clk 0\<rparr>" and ?hp' = "upd_hdr b2 (\<lambda>_. h') hp1"
  have sb: "same_but_owner ?h h'" by (rule claim_loop_same[OF cl])
  have fresh: "producer_responsive (clk 3) ?s' ?hp'"
    using assms(12) same_but_owner_fields(5)[OF sb] s1(4)
    by (simp add: producer_responsive_def adopted_def)
  have "poll ops evs clk s k hp = (True, ?s', k', ?hp')"
    using assms(9-11) h0 h1 so s1 hp1 tc fresh
    by (simp add: poll_def Let_def producer_responsive_def[of "clk 2"] not_less[symmetric] case_prod_beta)
  moreover have "attached c2 b2 ?s'" using adopted_attached[OF assms(4)] by simp
  moreover have "owner_ok ?s' (?hp' b2)" if "h_command_owner_gen ?h = 0" "evs = []"
    using cl claim_loop_calm[of 0 "\<lambda>i. clk (4 + i)" ?h] that
    by (auto simp: owner_ok_def adopted_def Let_def take_claim_def split: if_splits)
  ultimately show ?thesis by (auto simp: adopted_def s1)
qed

end

section \<open>A small system\<close>

lemma pub_at_owner:
  assumes "pub_at b p hp" and "same_but_owner (m_hdr (hp b)) h'"
  shows "pub_at b p (upd_hdr b (\<lambda>_. h') hp)"
proof -
  note d = pub_atD[OF assms(1)] and f = same_but_owner_fields[OF assms(2)]
  have "seg_inv (p_cfg p) ((hp b)\<lparr>m_hdr := h'\<rparr>)"
    using f(1) seg_inv_describes[OF d(3)] by (intro seg_inv_hdr[OF _ d(3)]) simp
  then show ?thesis
    using assms(1) f(2) by (simp add: pub_at_def upd_hdr_def frames_inv_hdr)
qed

text \<open>The small publisher with the small subscriber attached and owning the channel.\<close>

definition demo_claimed :: heap where
  "demo_claimed = upd_hdr 2 (\<lambda>_. take_claim 5 0 (m_hdr (demo_heap 2))) demo_heap"

definition demo_peer :: LLSubscriber where
  "demo_peer = demo_sub (m_hdr (demo_heap 2))"

lemma demo_claimed_at: "pub_at 2 demo_pub demo_claimed"
  unfolding demo_claimed_def by (rule pub_at_owner[OF demo_pub_at]) (simp add: same_but_owner_def)

lemma demo_peer_attached: "attached demo_config 2 demo_peer"
  unfolding demo_peer_def using seg_inv_describes[OF pub_atD(3)[OF demo_pub_at]]
  by (intro demo_sub_attached) simp

lemma demo_peer_owner: "owner_ok demo_peer (demo_claimed 2)"
  by (simp add: owner_ok_def demo_peer_def demo_claimed_def take_claim_def)

lemma demo_claimed_queue [simp]: "ring_queue demo_config d (demo_claimed 2) = []"
  by (simp add: demo_claimed_def)

text \<open>A first publisher on either platform.\<close>

lemma posix_first:
  obtains p k hp where
    "publisher_create Posix posix_ops demo_config (\<lambda>_. 5) 9 posix_empty (\<lambda>_. smem_zero) = ((Some p, LLStatus_Ok), k, hp)"
    "posix_ok k" "posix_bound k ''demo'' = Some (1, L_total_size (compute_layout demo_config))"
    "hp 1 = init_segment demo_config (make_session_id 9 5) 5 smem_zero"
proof -
  from posix.create_fresh[OF posix_empty_ok, of demo_config "\<lambda>_. 5" 9 "\<lambda>_. smem_zero"]
  obtain seg b k where c: "publisher_create Posix posix_ops demo_config (\<lambda>_. 5) 9 posix_empty (\<lambda>_. smem_zero) =
      ((Some (new_publisher demo_config seg b), LLStatus_Ok), k,
       (\<lambda>_. smem_zero)(b := init_segment demo_config (make_session_id 9 5) 5 smem_zero))"
    and k: "posix_ok k" "posix_bound k = (posix_bound posix_empty)(''demo'' \<mapsto> (b, L_total_size (compute_layout demo_config)))"
      "b \<notin> posix_alloc posix_empty" "posix_alloc k = insert b (posix_alloc posix_empty)"
    by (auto simp: posix_empty_bound demo_config_valid demo_total)
  have "b = 1"
  proof -
    have "{..<pk_next k} = {0, b}" "b \<noteq> 0" using k(3,4) by (auto simp: posix_alloc_def posix_empty_def)
    then have "card {..<pk_next k} = 2" by simp
    then have "pk_next k = 2" by simp
    with \<open>{..<pk_next k} = {0, b}\<close> have "1 \<in> {0, b}" by (metis lessThan_iff one_less_numeral_iff semiring_norm(76))
    then show ?thesis by simp
  qed
  with c k that show ?thesis by auto
qed

end
