(* ===== verification/Protocol.thy ===== *)
theory Protocol
  imports Prelude
begin

text \<open>
  The payload formats of the two demo protocols, \<open>examples/protocol.h\<close> and
  \<open>examples/multiview_protocol.h\<close>.  A packing function stores into a buffer of the caller and
  returns the number of bytes; an unpacking function gets a pointer and a size and refuses a
  payload that is too short.  Their contract is the locale \<open>codec\<close>: what is proved there about payloads that
  cross a command channel holds for each of the five formats by interpretation.
\<close>

section \<open>Opcodes\<close>

definition kPing :: u32 where "kPing = 1"
definition kPong :: u32 where "kPong = 2"
definition kSetSize :: u32 where "kSetSize = 3"
definition kSizeAck :: u32 where "kSizeAck = 4"
definition kLog :: u32 where "kLog = 5"

definition kSetUrl :: u32 where "kSetUrl = 1"
definition kMouseMove :: u32 where "kMouseMove = 2"
definition kMouseButton :: u32 where "kMouseButton = 3"
definition kResize :: u32 where "kResize = 4"
definition kRequestSlot :: u32 where "kRequestSlot = 5"
definition kSlotAssigned :: u32 where "kSlotAssigned = 6"
definition kSlotUnavailable :: u32 where "kSlotUnavailable = 7"

lemmas opcode_defs = kPing_def kPong_def kSetSize_def kSizeAck_def kLog_def kSetUrl_def kMouseMove_def
  kMouseButton_def kResize_def kRequestSlot_def kSlotAssigned_def kSlotUnavailable_def

text \<open>Geometry and naming the multiview producer and its consumers agree on.\<close>

definition kSlotCount :: int where "kSlotCount = 32"
definition kChannelPrefix :: string where "kChannelPrefix = ''llshmframe_multiview_''"
definition kDefaultWidth :: u32 where "kDefaultWidth = 960"
definition kDefaultHeight :: u32 where "kDefaultHeight = 540"
definition kMaxWidth :: u32 where "kMaxWidth = 1920"
definition kMaxHeight :: u32 where "kMaxHeight = 1080"
definition kControlChannelName :: string where "kControlChannelName = ''llshmframe_multiview_control''"

lemmas geometry_defs = kDefaultWidth_def kDefaultHeight_def kMaxWidth_def kMaxHeight_def

section \<open>Packing and unpacking\<close>

text \<open>\<open>proto::pack_size\<close> and \<open>proto::unpack_size\<close>.\<close>

definition proto_pack_size :: "u8 list \<Rightarrow> u32 \<Rightarrow> u32 \<Rightarrow> u8 list \<times> u32" where
  "proto_pack_size d w h =
     (d[0 := ucast w, 1 := ucast (drop_bit 8 w), 2 := ucast (drop_bit 16 w), 3 := ucast (drop_bit 24 w),
        4 := ucast h, 5 := ucast (drop_bit 8 h), 6 := ucast (drop_bit 16 h), 7 := ucast (drop_bit 24 h)], 8)"

definition proto_unpack_size :: "u8 list \<Rightarrow> nat \<Rightarrow> (u32 \<times> u32) option" where
  "proto_unpack_size d n =
     (if n < 8 then None
      else Some (ucast (d ! 0) OR push_bit 8 (ucast (d ! 1)) OR push_bit 16 (ucast (d ! 2)) OR push_bit 24 (ucast (d ! 3)),
                 ucast (d ! 4) OR push_bit 8 (ucast (d ! 5)) OR push_bit 16 (ucast (d ! 6)) OR push_bit 24 (ucast (d ! 7))))"

text \<open>\<open>multiview_demo\<close>: the shifts of a signed value are arithmetic.\<close>

definition put_i32 :: "u8 list \<Rightarrow> nat \<Rightarrow> 32 word \<Rightarrow> u8 list" where
  "put_i32 d off v =
     d[off + 0 := ucast v, off + 1 := ucast (signed_drop_bit 8 v),
       off + 2 := ucast (signed_drop_bit 16 v), off + 3 := ucast (signed_drop_bit 24 v)]"

definition get_i32 :: "u8 list \<Rightarrow> nat \<Rightarrow> 32 word" where
  "get_i32 d off =
     ucast (d ! off) OR push_bit 8 (ucast (d ! (off + 1))) OR
     push_bit 16 (ucast (d ! (off + 2))) OR push_bit 24 (ucast (d ! (off + 3)))"

definition pack_i32x2 :: "u8 list \<Rightarrow> 32 word \<Rightarrow> 32 word \<Rightarrow> u8 list \<times> u32" where
  "pack_i32x2 d x y = (put_i32 (put_i32 d 0 x) 4 y, 8)"

definition unpack_i32x2 :: "u8 list \<Rightarrow> nat \<Rightarrow> (32 word \<times> 32 word) option" where
  "unpack_i32x2 d n = (if n < 8 then None else Some (get_i32 d 0, get_i32 d 4))"

definition pack_mouse_button :: "u8 list \<Rightarrow> 32 word \<Rightarrow> 32 word \<Rightarrow> u8 \<Rightarrow> u8 \<Rightarrow> u8 list \<times> u32" where
  "pack_mouse_button d x y button action =
     (case pack_i32x2 d x y of
        (d1, n) \<Rightarrow> (d1[unat (n + 0) := button, unat (n + 1) := action], n + 2))"

definition unpack_mouse_button :: "u8 list \<Rightarrow> nat \<Rightarrow> (32 word \<times> 32 word \<times> u8 \<times> u8) option" where
  "unpack_mouse_button d n =
     (if n < 10 then None
      else case unpack_i32x2 d n of None \<Rightarrow> None | Some (x, y) \<Rightarrow> Some (x, y, d ! 8, d ! 9))"

definition pack_size :: "u8 list \<Rightarrow> u32 \<Rightarrow> u32 \<Rightarrow> u8 list \<times> u32" where
  "pack_size d w h =
     (d[0 := ucast w, 1 := ucast (drop_bit 8 w), 2 := ucast (drop_bit 16 w), 3 := ucast (drop_bit 24 w),
        4 := ucast h, 5 := ucast (drop_bit 8 h), 6 := ucast (drop_bit 16 h), 7 := ucast (drop_bit 24 h)], 8)"

definition unpack_size :: "u8 list \<Rightarrow> nat \<Rightarrow> (u32 \<times> u32) option" where
  "unpack_size d n =
     (if n < 8 then None
      else Some (ucast (d ! 0) OR push_bit 8 (ucast (d ! 1)) OR push_bit 16 (ucast (d ! 2)) OR push_bit 24 (ucast (d ! 3)),
                 ucast (d ! 4) OR push_bit 8 (ucast (d ! 5)) OR push_bit 16 (ucast (d ! 6)) OR push_bit 24 (ucast (d ! 7))))"

definition pack_u32 :: "u8 list \<Rightarrow> u32 \<Rightarrow> u8 list \<times> u32" where
  "pack_u32 d v =
     (d[0 := ucast v, 1 := ucast (drop_bit 8 v), 2 := ucast (drop_bit 16 v), 3 := ucast (drop_bit 24 v)], 4)"

definition unpack_u32 :: "u8 list \<Rightarrow> nat \<Rightarrow> u32 option" where
  "unpack_u32 d n =
     (if n < 4 then None
      else Some (ucast (d ! 0) OR push_bit 8 (ucast (d ! 1)) OR push_bit 16 (ucast (d ! 2)) OR push_bit 24 (ucast (d ! 3))))"

section \<open>The contract of a payload format\<close>

text \<open>
  \<open>enc\<close> is the byte string a value stands for.  Packing puts it at the front of the buffer and
  leaves the rest; unpacking inverts it on every payload that is long enough and
  refuses every other one.
\<close>

locale codec =
  fixes pack :: "u8 list \<Rightarrow> 'a \<Rightarrow> u8 list \<times> u32"
    and unpack :: "u8 list \<Rightarrow> nat \<Rightarrow> 'a option"
    and enc :: "'a \<Rightarrow> u8 list"
    and width :: nat
  assumes enc_width: "length (enc v) = width"
    and pack_enc: "width \<le> length d \<Longrightarrow> pack d v = (enc v @ drop width d, of_nat width)"
    and unpack_enc: "unpack (enc v @ e) n = (if n < width then None else Some v)"
    and unpack_short: "n < width \<Longrightarrow> unpack d n = None"
    and enc_onto: "length d = width \<Longrightarrow> \<exists>v. enc v = d"
    and width_small: "width < 2 ^ 32"
begin

text \<open>The payload that is handed to \<open>send\<close>: the first \<open>n\<close> bytes of the buffer, \<open>n\<close> the returned size.\<close>

lemma payload:
  assumes "width \<le> length d"
  shows "take (unat (snd (pack d v))) (fst (pack d v)) = enc v" "unat (snd (pack d v)) = width"
  using assms width_small by (simp_all add: pack_enc enc_width unat_of_nat32)

text \<open>What the peer makes of it.\<close>

lemma delivered_value: "unpack (enc v) (length (enc v)) = Some v"
  using unpack_enc[of v "[]" width] by (simp add: enc_width)

text \<open>Every payload of at least the format's size means exactly one value, the one that packs to its front.\<close>

lemma unpack_iff:
  assumes "width \<le> length d"
  shows "unpack d (length d) = Some v \<longleftrightarrow> take width d = enc v"
proof -
  have "length (take width d) = width" using assms by simp
  with enc_onto obtain v' where v': "enc v' = take width d" by blast
  then have u: "unpack d (length d) = Some v'" using unpack_enc[of v' "drop width d" "length d"] assms by simp
  have "enc v = enc v' \<longleftrightarrow> v = v'" by (metis delivered_value option.inject)
  with u v' show ?thesis by auto
qed

text \<open>What becomes of any payload: refused when it is too short, else the value at its front.\<close>

lemma decides:
  "unpack d (length d) = None \<longleftrightarrow> length d < width"
  "unpack d (length d) = Some v \<longleftrightarrow> width \<le> length d \<and> take width d = enc v"
proof -
  show "unpack d (length d) = Some v \<longleftrightarrow> width \<le> length d \<and> take width d = enc v"
    using unpack_short[of "length d" d] unpack_iff[of d v] by (cases "length d < width") auto
  have "\<exists>v. unpack d (length d) = Some v" if "width \<le> length d"
    using that unpack_iff[OF that] enc_onto[of "take width d"] by (metis length_take min.absorb2)
  then show "unpack d (length d) = None \<longleftrightarrow> length d < width"
    using unpack_short[of "length d" d] by (metis not_le option.distinct(1))
qed

end

section \<open>The formats meet the contract\<close>

lemma le32_front: "of_le32 ((to_le32 v @ e) ! 0) ((to_le32 v @ e) ! 1) ((to_le32 v @ e) ! 2) ((to_le32 v @ e) ! 3) = v"
  by (simp add: to_le32_def)

lemma le32_onto: "length d = 4 \<Longrightarrow> \<exists>v. to_le32 v = d"
proof -
  assume "length d = 4"
  then obtain a b c e where "d = [a, b, c, e]" by (auto simp: length_Suc_conv eval_nat_numeral)
  then have "to_le32 (of_le32 a b c e) = d" by simp
  then show ?thesis by blast
qed

lemma le32_pair_onto:
  assumes "length d = 8"
  shows "\<exists>v w. to_le32 v @ to_le32 w = d"
proof -
  have "length (take 4 d) = 4" "length (drop 4 d) = 4" using assms by simp_all
  then obtain v w where "to_le32 v = take 4 d" "to_le32 w = drop 4 d" using le32_onto by meson
  then have "to_le32 v @ to_le32 w = d" by simp
  then show ?thesis by blast
qed

text \<open>Eight stores at the front of a buffer.\<close>

lemma front4: "4 \<le> length d \<Longrightarrow> d[0 := a, 1 := b, 2 := c, 3 := e] = [a, b, c, e] @ drop 4 d" for a b c e :: u8
  by (auto simp: Suc_le_length_iff eval_nat_numeral)

lemma front8: "8 \<le> length d \<Longrightarrow>
  d[0 := a, 1 := b, 2 := c, 3 := e, 4 := a', 5 := b', 6 := c', 7 := e'] = [a, b, c, e, a', b', c', e'] @ drop 8 d"
  for a b c e a' b' c' e' :: u8
  by (auto simp: Suc_le_length_iff eval_nat_numeral)

text \<open>The byte taken from an arithmetic shift is the byte of the word.\<close>

lemma signed_byte [simp]: "k \<le> 24 \<Longrightarrow> (ucast (signed_drop_bit k (v :: 32 word)) :: u8) = ucast (drop_bit k v)"
  by (rule bit_eqI) (auto simp: bit_simps)

lemma put_i32_eq:
  "8 \<le> length d \<Longrightarrow> put_i32 (put_i32 d 0 x) 4 y = (to_le32 x @ to_le32 y) @ drop 8 d"
proof -
  assume "8 \<le> length d"
  note f = front8[OF this, of "ucast x" "ucast (drop_bit 8 x)" "ucast (drop_bit 16 x)" "ucast (drop_bit 24 x)"
      "ucast y" "ucast (drop_bit 8 y)" "ucast (drop_bit 16 y)" "ucast (drop_bit 24 y)"]
  have "put_i32 (put_i32 d 0 x) 4 y = d[0 := ucast x, 1 := ucast (drop_bit 8 x), 2 := ucast (drop_bit 16 x),
      3 := ucast (drop_bit 24 x), 4 := ucast y, 5 := ucast (drop_bit 8 y), 6 := ucast (drop_bit 16 y), 7 := ucast (drop_bit 24 y)]"
    by (simp add: put_i32_def numeral_2_eq_2)
  then show ?thesis unfolding f by (simp add: to_le32_def)
qed

lemma drop_two: "Suc k < length d \<Longrightarrow> drop k d = [d ! k, d ! Suc k] @ drop (Suc (Suc k)) d"
  by (simp add: Cons_nth_drop_Suc)

lemma get_i32_eq: "get_i32 (to_le32 x @ e) 0 = x" "get_i32 (to_le32 w @ to_le32 x @ e) 4 = x"
  by (simp_all add: get_i32_def to_le32_def of_le32_def[symmetric])

definition enc_pair :: "u32 \<times> u32 \<Rightarrow> u8 list" where
  "enc_pair v = to_le32 (fst v) @ to_le32 (snd v)"

definition enc_button :: "32 word \<times> 32 word \<times> u8 \<times> u8 \<Rightarrow> u8 list" where
  "enc_button v = (case v of (x, y, b, a) \<Rightarrow> to_le32 x @ to_le32 y @ [b, a])"

interpretation u32: codec pack_u32 unpack_u32 to_le32 4
proof unfold_locales
  fix d :: "u8 list" and v assume "4 \<le> length d"
  then show "pack_u32 d v = (to_le32 v @ drop 4 d, of_nat 4)" using front4[of d] by (simp add: pack_u32_def to_le32_def)
next
  fix v e n
  show "unpack_u32 (to_le32 v @ e) n = (if n < 4 then None else Some v)"
    by (simp add: unpack_u32_def to_le32_def of_le32_def[symmetric])
qed (simp_all add: le32_onto unpack_u32_def)

interpretation size: codec "\<lambda>d (w, h). pack_size d w h" unpack_size enc_pair 8
proof unfold_locales
  fix d :: "u8 list" and v assume "8 \<le> length d"
  then show "(case v of (w, h) \<Rightarrow> pack_size d w h) = (enc_pair v @ drop 8 d, of_nat 8)"
    using front8[of d] by (cases v) (simp add: pack_size_def enc_pair_def to_le32_def)
next
  fix v e n
  show "unpack_size (enc_pair v @ e) n = (if n < 8 then None else Some v)"
    by (cases v) (simp add: unpack_size_def enc_pair_def to_le32_def of_le32_def[symmetric])
next
  fix d :: "u8 list" assume "length d = 8"
  then show "\<exists>v. enc_pair v = d" using le32_pair_onto by (auto simp: enc_pair_def)
qed (simp_all add: enc_pair_def unpack_size_def)

interpretation proto_size: codec "\<lambda>d (w, h). proto_pack_size d w h" proto_unpack_size enc_pair 8
proof unfold_locales
  fix d :: "u8 list" and v assume "8 \<le> length d"
  then show "(case v of (w, h) \<Rightarrow> proto_pack_size d w h) = (enc_pair v @ drop 8 d, of_nat 8)"
    using front8[of d] by (cases v) (simp add: proto_pack_size_def enc_pair_def to_le32_def)
next
  fix v e n
  show "proto_unpack_size (enc_pair v @ e) n = (if n < 8 then None else Some v)"
    by (cases v) (simp add: proto_unpack_size_def enc_pair_def to_le32_def of_le32_def[symmetric])
qed (fact size.enc_width size.enc_onto size.width_small | simp add: proto_unpack_size_def)+

interpretation i32x2: codec "\<lambda>d (x, y). pack_i32x2 d x y" unpack_i32x2 enc_pair 8
proof unfold_locales
  fix d :: "u8 list" and v assume "8 \<le> length d"
  then show "(case v of (x, y) \<Rightarrow> pack_i32x2 d x y) = (enc_pair v @ drop 8 d, of_nat 8)"
    by (cases v) (simp add: pack_i32x2_def put_i32_eq enc_pair_def)
next
  fix v e n
  show "unpack_i32x2 (enc_pair v @ e) n = (if n < 8 then None else Some v)"
    by (cases v) (simp add: unpack_i32x2_def enc_pair_def get_i32_eq)
qed (fact size.enc_width size.enc_onto size.width_small | simp add: unpack_i32x2_def)+

interpretation button: codec "\<lambda>d (x, y, b, a). pack_mouse_button d x y b a" unpack_mouse_button enc_button 10
proof unfold_locales
  fix d :: "u8 list" and v :: "32 word \<times> 32 word \<times> u8 \<times> u8" assume d: "10 \<le> length d"
  obtain x y b a where v: "v = (x, y, b, a)" by (metis prod_cases4)
  have "drop 8 d = [d ! 8, d ! 9] @ drop 10 d" using d drop_two[of 8 d] by (simp add: eval_nat_numeral)
  then have "pack_i32x2 d x y = (to_le32 x @ to_le32 y @ [d ! 8, d ! 9] @ drop 10 d, 8)"
    using d by (simp add: pack_i32x2_def put_i32_eq)
  then show "(case v of (x, y, b, a) \<Rightarrow> pack_mouse_button d x y b a) = (enc_button v @ drop 10 d, of_nat 10)"
    by (simp add: v pack_mouse_button_def enc_button_def to_le32_def)
next
  fix v :: "32 word \<times> 32 word \<times> u8 \<times> u8" and e n
  obtain x y b a where v: "v = (x, y, b, a)" by (metis prod_cases4)
  have "unpack_i32x2 (enc_pair (x, y) @ [b, a] @ e) n = (if n < 8 then None else Some (x, y))" by (rule i32x2.unpack_enc)
  then show "unpack_mouse_button (enc_button v @ e) n = (if n < 10 then None else Some v)"
    by (simp add: v unpack_mouse_button_def enc_button_def enc_pair_def to_le32_def)
next
  fix d :: "u8 list" assume d: "length d = 10"
  then obtain x y where "to_le32 x @ to_le32 y = take 8 d" using le32_pair_onto[of "take 8 d"] by auto
  moreover have "drop 8 d = [d ! 8, d ! 9]" using d drop_two[of 8 d] by (simp add: eval_nat_numeral)
  ultimately have "enc_button (x, y, d ! 8, d ! 9) = d"
    by (simp add: enc_button_def) (metis append_assoc append_take_drop_id)
  then show "\<exists>v. enc_button v = d" by blast
qed (auto simp: enc_button_def unpack_mouse_button_def)

section \<open>Properties\<close>

text \<open>
  Payloads survive the wire.  For each of the five formats, what the sender packs into a buffer that is large enough
  and hands to \<open>send\<close> (the first n bytes, n the returned size) unpacks on the other
  side to the packed values, negative coordinates included.
\<close>

theorem payloads_roundtrip:
  assumes "10 \<le> length d"
  shows "(let (d', n) = proto_pack_size d w h; p = take (unat n) d' in proto_unpack_size p (length p) = Some (w, h)) \<and>
    (let (d', n) = pack_size d w h; p = take (unat n) d' in unpack_size p (length p) = Some (w, h)) \<and>
    (let (d', n) = pack_u32 d v; p = take (unat n) d' in unpack_u32 p (length p) = Some v) \<and>
    (let (d', n) = pack_i32x2 d x y; p = take (unat n) d' in unpack_i32x2 p (length p) = Some (x, y)) \<and>
    (let (d', n) = pack_mouse_button d x y b a; p = take (unat n) d' in
       unpack_mouse_button p (length p) = Some (x, y, b, a))"
proof -
  have d: "8 \<le> length d" "4 \<le> length d" using assms by simp_all
  show ?thesis
    using proto_size.payload(1)[OF d(1), of "(w, h)"] size.payload(1)[OF d(1), of "(w, h)"] u32.payload(1)[OF d(2), of v]
      i32x2.payload(1)[OF d(1), of "(x, y)"] button.payload(1)[OF assms, of "(x, y, b, a)"]
      proto_size.delivered_value[of "(w, h)"] size.delivered_value[of "(w, h)"] u32.delivered_value[of v]
      i32x2.delivered_value[of "(x, y)"] button.delivered_value[of "(x, y, b, a)"]
    by (simp add: case_prod_beta Let_def del: length_take)
qed

theorem payloads_roundtrip_witness:
  "(let (d', n) = pack_mouse_button (replicate 10 0) (- 3) 7 1 0; p = take (unat n) d' in
     length p = 10 \<and> unpack_mouse_button p (length p) = Some (- 3, 7, 1, 0))"
proof -
  have "10 \<le> length (replicate 10 (0 :: u8))" by simp
  from payloads_roundtrip[OF this, where x = "- 3" and y = 7 and b = 1 and a = 0] show ?thesis
    using button.payload(2)[of "replicate 10 0" "(- 3, 7, 1, 0)"] button.payload(1)[of "replicate 10 0" "(- 3, 7, 1, 0)"]
    by (simp add: case_prod_beta Let_def button.enc_width del: length_take)
qed

text \<open>
  C21.  The five decoders are total and exact: a payload that is too short for the format is refused, and any other one,
  whoever sent it, is accepted with the one value that its first bytes spell, numbers with their
  least significant byte first.
\<close>

theorem decoders_exact:
  shows "(proto_unpack_size d (length d) = None \<longleftrightarrow> length d < 8) \<and>
    (proto_unpack_size d (length d) = Some (w, h) \<longleftrightarrow> 8 \<le> length d \<and> take 8 d = to_le32 w @ to_le32 h) \<and>
    (unpack_size d (length d) = None \<longleftrightarrow> length d < 8) \<and>
    (unpack_size d (length d) = Some (w, h) \<longleftrightarrow> 8 \<le> length d \<and> take 8 d = to_le32 w @ to_le32 h) \<and>
    (unpack_u32 d (length d) = None \<longleftrightarrow> length d < 4) \<and>
    (unpack_u32 d (length d) = Some w \<longleftrightarrow> 4 \<le> length d \<and> take 4 d = to_le32 w) \<and>
    (unpack_i32x2 d (length d) = None \<longleftrightarrow> length d < 8) \<and>
    (unpack_i32x2 d (length d) = Some (x, y) \<longleftrightarrow> 8 \<le> length d \<and> take 8 d = to_le32 x @ to_le32 y) \<and>
    (unpack_mouse_button d (length d) = None \<longleftrightarrow> length d < 10) \<and>
    (unpack_mouse_button d (length d) = Some (x, y, b, a) \<longleftrightarrow>
       10 \<le> length d \<and> take 10 d = to_le32 x @ to_le32 y @ [b, a])"
  by (simp add: proto_size.decides size.decides u32.decides i32x2.decides button.decides enc_pair_def enc_button_def)

end
