(* ===== verification/Command_Loop.thy ===== *)
theory Command_Loop
  imports System Protocol
begin

text \<open>
  What the programs under \<open>examples/\<close> share: the loop \<open>while (receive(cmd)) ...\<close>, replies sent from
  inside it, decimal texts, and frames that are rendered in place.  The locale \<open>command_loop\<close> states
  what such a loop relies on, and shows that it ends and handles the queued
  commands in order; each program's loop is an interpretation.
\<close>

section \<open>The loop\<close>

text \<open>
  \<open>recv\<close> is the receiving call and \<open>handle\<close> the body.  Other processes may keep adding commands, so
  the number of iterations is bounded by a fuel; running out of it is \<open>None\<close>.
\<close>

fun drain :: "nat \<Rightarrow> ('s \<Rightarrow> LLShmCommand option \<times> 's) \<Rightarrow> (LLShmCommand \<Rightarrow> 's \<Rightarrow> 's) \<Rightarrow> 's \<Rightarrow> 's option" where
  "drain 0 recv handle s = None"
| "drain (Suc n) recv handle s =
     (case recv s of
        (None, s1) \<Rightarrow> Some s1
      | (Some cmd, s1) \<Rightarrow> drain n recv handle (handle cmd s1))"

locale command_loop =
  fixes recv :: "'s \<Rightarrow> LLShmCommand option \<times> 's"
    and handle :: "LLShmCommand \<Rightarrow> 's \<Rightarrow> 's"
    and queue :: "'s \<Rightarrow> LLShmCommand list"
    and inv :: "'s \<Rightarrow> bool"
    and view :: "'s \<Rightarrow> 'v"
    and step :: "LLShmCommand \<Rightarrow> 'v \<Rightarrow> 'v"
  assumes recv_none: "inv s \<Longrightarrow> queue s = [] \<Longrightarrow> \<exists>s'. recv s = (None, s') \<and> inv s' \<and> queue s' = [] \<and> view s' = view s"
    and recv_some: "inv s \<Longrightarrow> queue s = x # q \<Longrightarrow> \<exists>s'. recv s = (Some x, s') \<and> inv s' \<and> queue s' = q \<and> view s' = view s"
    and handle_keeps: "inv s \<Longrightarrow> inv (handle x s) \<and> queue (handle x s) = queue s \<and> view (handle x s) = step x (view s)"
begin

theorem drains:
  "inv s \<Longrightarrow> length (queue s) < n \<Longrightarrow>
   \<exists>s'. drain n recv handle s = Some s' \<and> inv s' \<and> queue s' = [] \<and> view s' = fold step (queue s) (view s)"
proof (induction n arbitrary: s)
  case (Suc n)
  show ?case
  proof (cases "queue s")
    case Nil
    with recv_none[OF Suc.prems(1)] show ?thesis by auto
  next
    case (Cons x q)
    with recv_some[OF Suc.prems(1)] obtain s1 where r: "recv s = (Some x, s1)" "inv s1" "queue s1 = q" "view s1 = view s" by blast
    from handle_keeps[OF r(2), of x] r have h: "inv (handle x s1)" "queue (handle x s1) = q"
      "view (handle x s1) = step x (view s)" by auto
    from Suc.IH[OF h(1)] h Suc.prems(2) Cons r(1) show ?thesis by simp
  qed
qed simp

end

section \<open>Replies\<close>

text \<open>A queued command without its id and timestamp: what the peer acts on.\<close>

definition reply_view :: "LLShmCommand \<Rightarrow> u32 \<times> u8 list \<times> u64" where
  "reply_view x = (cmd_type x, cmd_data x, cmd_reply_to x)"

definition enq_reply :: "LLConfig \<Rightarrow> u32 \<times> u8 list \<times> u64 \<Rightarrow> (u32 \<times> u8 list \<times> u64) list \<Rightarrow> (u32 \<times> u8 list \<times> u64) list" where
  "enq_reply c r q = (if length q < unat (cfg_command_slots c) then q @ [r] else q)"

definition replies :: "LLConfig \<Rightarrow> smem \<Rightarrow> (u32 \<times> u8 list \<times> u64) list" where
  "replies c sm = map reply_view (ring_queue c Downstream sm)"

lemma pub_send_reply:
  assumes "pub_at b m hp" and "length (send_data data sz) = unat sz" and "sz \<le> cfg_max_command_bytes (p_cfg m)"
    and "pub_send ty data sz reply_to clk m hp = (r, m', hp')"
  shows "pub_at b m' hp'" and "p_cfg m' = p_cfg m"
    and "ring_queue (p_cfg m) Upstream (hp' b) = ring_queue (p_cfg m) Upstream (hp b)"
    and "replies (p_cfg m) (hp' b) = enq_reply (p_cfg m) (ty, send_data data sz, reply_to) (replies (p_cfg m) (hp b))"
    and "\<forall>x. x \<noteq> b \<longrightarrow> hp' x = hp x" and "p_pending m' = p_pending m" and "p_min_interval_ns m' = p_min_interval_ns m"
    and "m_hdr (hp' b) = m_hdr (hp b)"
proof -
  show "pub_at b m' hp'" "p_cfg m' = p_cfg m" "\<forall>x. x \<noteq> b \<longrightarrow> hp' x = hp x"
    using pub_send_inv[OF assms(1,2,4)] by simp_all
  let ?full = "length (ring_queue (p_cfg m) Downstream (hp b)) = unat (cfg_command_slots (p_cfg m))"
  have "ring_queue (p_cfg m) Upstream (hp' b) = ring_queue (p_cfg m) Upstream (hp b) \<and> p_pending m' = p_pending m \<and>
    p_min_interval_ns m' = p_min_interval_ns m \<and> m_hdr (hp' b) = m_hdr (hp b) \<and>
    replies (p_cfg m) (hp' b) = enq_reply (p_cfg m) (ty, send_data data sz, reply_to) (replies (p_cfg m) (hp b))"
  proof (cases ?full)
    case True
    with pub_send_refused[OF assms(1), of sz ty data reply_to clk] assms(4) show ?thesis
      by (auto simp: enq_reply_def replies_def)
  next
    case False
    then have "length (ring_queue (p_cfg m) Downstream (hp b)) < unat (cfg_command_slots (p_cfg m))"
      using queue_bounded[OF pub_atD(3)[OF assms(1)], of Downstream] by simp
    with pub_send_accepted[OF assms(1-3), of ty reply_to clk] assms(4) show ?thesis
      by (auto simp: enq_reply_def replies_def reply_view_def mk_command_def cmd_effect_def)
  qed
  then show "ring_queue (p_cfg m) Upstream (hp' b) = ring_queue (p_cfg m) Upstream (hp b)" "p_pending m' = p_pending m" "p_min_interval_ns m' = p_min_interval_ns m" "m_hdr (hp' b) = m_hdr (hp b)"
    "replies (p_cfg m) (hp' b) = enq_reply (p_cfg m) (ty, send_data data sz, reply_to) (replies (p_cfg m) (hp b))" by simp_all
qed

text \<open>The receiving call of a loop on the producer's side.\<close>

lemma pub_receive_loop:
  assumes "pub_at b m hp"
  shows "ring_queue (p_cfg m) Upstream (hp b) = [] \<Longrightarrow> pub_receive m hp = (None, m, hp)"
    and "ring_queue (p_cfg m) Upstream (hp b) = x # q \<Longrightarrow>
      \<exists>hp'. pub_receive m hp = (Some x, m\<lparr>p_recvd := p_recvd m + 1\<rparr>, hp') \<and> pub_at b m hp' \<and>
        ring_queue (p_cfg m) Upstream (hp' b) = q \<and> replies (p_cfg m) (hp' b) = replies (p_cfg m) (hp b) \<and>
        m_hdr (hp' b) = m_hdr (hp b) \<and> (\<forall>y. y \<noteq> b \<longrightarrow> hp' y = hp y)"
proof -
  show "ring_queue (p_cfg m) Upstream (hp b) = [] \<Longrightarrow> pub_receive m hp = (None, m, hp)"
    using pub_receive_eq[OF assms] by simp
  assume "ring_queue (p_cfg m) Upstream (hp b) = x # q"
  with pub_receive_eq[OF assms] obtain sm' where
    "pub_receive m hp = (Some x, m\<lparr>p_recvd := p_recvd m + 1\<rparr>, hp(b := sm'))" "cmd_effect (p_cfg m) Upstream q (hp b) sm'"
    by auto
  moreover from this(2) have "pub_at b m (hp(b := sm'))" by (rule pub_at_cmd[OF assms])
  ultimately show "\<exists>hp'. pub_receive m hp = (Some x, m\<lparr>p_recvd := p_recvd m + 1\<rparr>, hp') \<and> pub_at b m hp' \<and>
      ring_queue (p_cfg m) Upstream (hp' b) = q \<and> replies (p_cfg m) (hp' b) = replies (p_cfg m) (hp b) \<and>
      m_hdr (hp' b) = m_hdr (hp b) \<and> (\<forall>y. y \<noteq> b \<longrightarrow> hp' y = hp y)"
    by (intro exI[of _ "hp(b := sm')"]) (auto simp: cmd_effect_def replies_def)
qed

text \<open>A command sent by the owner of the channel, seen from both sides.\<close>

lemma sub_send_step:
  assumes "pub_at b p hp" and "attached (p_cfg p) b s" and "owner_ok s (hp b)"
    and "length (send_data data sz) = unat sz" and "sz \<le> cfg_max_command_bytes (p_cfg p)"
    and "length (ring_queue (p_cfg p) Upstream (hp b)) < unat (cfg_command_slots (p_cfg p))"
  shows "\<exists>hp'. sub_send ty data sz reply_to clk s hp =
      (Some (u_next_cmd s), s\<lparr>u_next_cmd := u_next_cmd s + 1, u_sent := u_sent s + 1\<rparr>, hp') \<and>
    pub_at b p hp' \<and> owner_ok s (hp' b) \<and>
    ring_queue (p_cfg p) Upstream (hp' b) =
      ring_queue (p_cfg p) Upstream (hp b) @ [mk_command ty (send_data data sz) (u_next_cmd s) reply_to (clk 1)] \<and>
    ring_queue (p_cfg p) Downstream (hp' b) = ring_queue (p_cfg p) Downstream (hp b) \<and> (\<forall>x. x \<noteq> b \<longrightarrow> hp' x = hp x) \<and>
    m_hdr (hp' b) = beat (clk 0) (m_hdr (hp b))"
proof -
  let ?c = "p_cfg p"
  note d = pub_atD[OF assms(1)]
  from sub_send_accepted[where hp = hp, OF assms(2) d(3) assms(3-6), of ty reply_to clk] obtain sm where
    send: "sub_send ty data sz reply_to clk s hp =
      (Some (u_next_cmd s), s\<lparr>u_next_cmd := u_next_cmd s + 1, u_sent := u_sent s + 1\<rparr>, hp(b := sm))"
    and eff: "cmd_effect ?c Upstream (ring_queue ?c Upstream (hp b) @
      [mk_command ty (send_data data sz) (u_next_cmd s) reply_to (clk 1)]) (upd_hdr b (beat (clk 0)) hp b) sm" by blast
  have m: "h_latest (m_hdr sm) = h_latest (m_hdr (hp b))" "m_slots sm = m_slots (hp b)"
    "h_command_owner_gen (m_hdr sm) = h_command_owner_gen (m_hdr (hp b))"
    using eff by (auto simp: cmd_effect_def beat_def)
  have "frames_inv ?c (p_write_slot p) (p_pending p) (p_frame_id p) sm"
    using d(5) m(1,2) by (simp add: frames_inv_def slot_of_def)
  then have "pub_at b p (hp(b := sm))" using assms(1) eff by (simp add: pub_at_def cmd_effect_def)
  moreover have "owner_ok s sm" using assms(3) m(3) by (simp add: owner_ok_def)
  ultimately show ?thesis using send eff by (intro exI[of _ "hp(b := sm)"]) (auto simp: cmd_effect_def)
qed

section \<open>Texts\<close>

definition bytes_of :: "string \<Rightarrow> u8 list" where
  "bytes_of s = map (\<lambda>c. of_nat (of_char c)) s"

lemma length_bytes_of [simp]: "length (bytes_of s) = length s"
  by (simp add: bytes_of_def)

text \<open>A number in decimal, as \<open>%u\<close> and \<open>std::to_string\<close> print it.\<close>

fun decimal :: "nat \<Rightarrow> string" where
  "decimal n = (if n < 10 then [char_of (48 + n)] else decimal (n div 10) @ [char_of (48 + n mod 10)])"

declare decimal.simps [simp del]

lemma length_decimal: "n < 10 ^ k \<Longrightarrow> 0 < k \<Longrightarrow> length (decimal n) \<le> k"
proof (induction k arbitrary: n)
  case (Suc k)
  show ?case
  proof (cases "n < 10")
    case True
    then show ?thesis by (simp add: decimal.simps[of n])
  next
    case False
    then have "k \<noteq> 0" using Suc.prems by (cases k) auto
    moreover have "n div 10 < 10 ^ k" using Suc.prems by (simp add: less_mult_imp_div_less mult.commute)
    ultimately have "length (decimal (n div 10)) \<le> k" using Suc.IH by simp
    then show ?thesis using False by (simp add: decimal.simps[of n])
  qed
qed simp

lemma length_decimal32: "length (decimal (unat (x :: u32))) \<le> 10"
  using unat_lt32[of x] by (intro length_decimal) simp_all

fun undecimal :: "string \<Rightarrow> nat" where
  "undecimal s = foldl (\<lambda>n c. n * 10 + (of_char c - 48)) 0 s"

lemma undecimal_decimal: "undecimal (decimal n) = n"
proof (induction n rule: decimal.induct)
  case (1 n)
  have c: "of_char (char_of (48 + d :: nat)) = 48 + d" if "d < 10" for d
    using that by (simp add: of_char_of)
  show ?case
  proof (cases "n < 10")
    case True
    then show ?thesis by (simp add: decimal.simps[of n] c)
  next
    case False
    then show ?thesis using 1 c[of "n mod 10"] by (simp add: decimal.simps[of n])
  qed
qed

lemma decimal_inj: "decimal m = decimal n \<Longrightarrow> m = n"
  by (metis undecimal_decimal)

section \<open>Frames rendered in place\<close>

text \<open>
  Storing the bytes of an image through the pointer \<open>begin_write\<close> returned, and committing, is
  \<open>publish\<close> of that image.
\<close>

lemma zero_copy:
  assumes "pub_at b m hp" and "p_pending m = None" and "publish_due clk m" and "fits (p_cfg m) width height"
    and "length bs = unat width * unat height * unat (cfg_bytes_per_pixel (p_cfg m))"
    and "begin_write width height clk m hp = (Some dst, m1, hp1)"
  shows "publish (Some bs) width height 0 clk m hp =
    (True, commit 0 (\<lambda>i. clk (Suc i)) m1 (hp1(b := (hp1 b)\<lparr>m_bytes := write_bytes (m_bytes (hp1 b)) dst bs\<rparr>)))"
proof -
  note d = pub_atD[OF assms(1)]
  let ?rb = "unat width * unat (cfg_bytes_per_pixel (p_cfg m))"
  have st: "unat (width * cfg_bytes_per_pixel (p_cfg m)) = ?rb" by (rule fits_exact(4)[OF d(1,2) assms(4)])
  have h: "0 < unat height" using assms(4) by (simp add: fits_def unat_gt_0)
  have tot: "?rb * unat height = length bs" using assms(5) by (simp add: ac_simps)
  have "(unat height - 1) * ?rb + ?rb = ?rb * unat height" using h by (cases "unat height") (simp_all add: ac_simps)
  then have le: "(unat height - 1) * unat (width * cfg_bytes_per_pixel (p_cfg m)) + ?rb \<le> length bs" using tot st by simp
  have rows: "image_rows bs ?rb ?rb (unat height) = bs" using tot by (simp add: image_rows_tight)
  have len: "length bs \<le> unat (max_payload (p_cfg m))" using assms(4,5) by (simp add: fits_def)
  have bw: "dst = slot_payload (compute_layout (p_cfg m)) (next_slot m)" "p_hdr m1 = Some b" "p_pending m1 \<noteq> None"
    "p_cfg m1 = p_cfg m" "p_write_slot m1 = next_slot m"
    using assms(6) d(4) unfolding begin_write_ok[OF assms(1-4)] by (auto simp: Let_def)
  have "render bs m1 hp1 = hp1(b := (hp1 b)\<lparr>m_bytes := write_bytes (m_bytes (hp1 b)) dst bs\<rparr>)"
    using bw len by (auto simp: render_def write_payload_def)
  with publish_steps[OF assms(1-4) _ _ assms(6), of "width * cfg_bytes_per_pixel (p_cfg m)" 0 bs] le st rows
  show ?thesis by simp
qed

section \<open>Loops over the pixels of a frame\<close>

text \<open>
  Row by row and column by column, four bytes per pixel, at offsets computed with 64 bits; \<open>px x y\<close> are
  the bytes of a pixel.
\<close>

fun raster_row :: "(u32 \<Rightarrow> u32 \<Rightarrow> u8 list) \<Rightarrow> addr \<Rightarrow> u32 \<Rightarrow> u32 \<Rightarrow> nat \<Rightarrow> bytemem \<Rightarrow> bytemem" where
  "raster_row px row y x 0 bm = bm"
| "raster_row px row y x (Suc n) bm = raster_row px row y (x + 1) n (write_bytes bm (row + ucast x * 4) (px x y))"

fun raster :: "(u32 \<Rightarrow> u32 \<Rightarrow> u8 list) \<Rightarrow> addr \<Rightarrow> u32 \<Rightarrow> u32 \<Rightarrow> nat \<Rightarrow> bytemem \<Rightarrow> bytemem" where
  "raster px dst w y 0 bm = bm"
| "raster px dst w y (Suc n) bm =
     raster px dst w (y + 1) n (raster_row px (dst + ucast y * ucast w * 4) y 0 (unat w) bm)"

definition image_line :: "(u32 \<Rightarrow> u32 \<Rightarrow> u8 list) \<Rightarrow> u32 \<Rightarrow> nat \<Rightarrow> u8 list" where
  "image_line px w y = concat (map (\<lambda>x. px (of_nat x) (of_nat y)) [0..<unat w])"

definition raster_image :: "(u32 \<Rightarrow> u32 \<Rightarrow> u8 list) \<Rightarrow> u32 \<Rightarrow> u32 \<Rightarrow> u8 list" where
  "raster_image px w h = concat (map (image_line px w) [0..<unat h])"

lemma length_image_line: "(\<And>x y. length (px x y) = 4) \<Longrightarrow> length (image_line px w y) = unat w * 4"
  by (simp add: image_line_def) (subst length_concat_equal[where n = 4], auto)

lemma length_raster_image: "(\<And>x y. length (px x y) = 4) \<Longrightarrow> length (raster_image px w h) = unat h * (unat w * 4)"
  by (simp add: raster_image_def) (subst length_concat_equal[where n = "unat w * 4"], auto simp: length_image_line)

lemma of_nat_succ: "unat (x :: u32) + Suc n < 2 ^ 32 \<Longrightarrow> unat (x + 1) = Suc (unat x)"
  using unat_add_lem[of x 1] by simp

lemma ucast_of_unat: "(ucast (x :: u32) :: u64) = of_nat (unat x)"
  using word_unat_eq_iff[of "ucast x :: u64" "of_nat (unat x)"] unat_lt32[of x] by (simp add: unat_of_nat64)

lemma pixel_offset: "ucast (x :: u32) * 4 = (of_nat (unat x * 4) :: u64)"
  by (simp only: ucast_of_unat of_nat_mult of_nat_numeral)

lemma row_offset: "ucast (y :: u32) * ucast (w :: u32) * 4 = (of_nat (unat y * (unat w * 4)) :: u64)"
  by (simp only: ucast_of_unat of_nat_mult of_nat_numeral mult.assoc)

lemma raster_row_eq:
  assumes "\<And>x y. length (px x y) = 4" and "unat x + n < 2 ^ 32"
  shows "raster_row px row y x n bm = write_bytes bm (row + of_nat (unat x * 4))
    (concat (map (\<lambda>i. px (of_nat i) y) [unat x..<unat x + n]))"
  using assms(2)
proof (induction n arbitrary: x bm)
  case (Suc n)
  have sx: "unat (x + 1) = Suc (unat x)" using Suc.prems by (intro of_nat_succ[of x n]) simp
  have x: "(of_nat (unat x) :: u32) = x" by (simp add: word_unat_eq_iff)
  have "raster_row px row y x (Suc n) bm = write_bytes (write_bytes bm (row + of_nat (unat x * 4)) (px x y))
      (row + of_nat (unat (x + 1) * 4)) (concat (map (\<lambda>i. px (of_nat i) y) [unat (x + 1)..<unat (x + 1) + n]))"
    unfolding raster_row.simps pixel_offset using Suc.prems sx by (intro Suc.IH) simp
  also have "\<dots> = write_bytes bm (row + of_nat (unat x * 4))
      (px x y @ concat (map (\<lambda>i. px (of_nat i) y) [Suc (unat x)..<unat x + Suc n]))"
  proof -
    have "row + of_nat (unat (x + 1) * 4) = row + of_nat (unat x * 4) + of_nat (length (px x y))" by (simp add: sx assms(1))
    moreover have "unat (x + 1) + n = unat x + Suc n" by (simp add: sx)
    ultimately show ?thesis by (simp only: write_bytes_append sx)
  qed
  also have "px x y @ concat (map (\<lambda>i. px (of_nat i) y) [Suc (unat x)..<unat x + Suc n]) =
      concat (map (\<lambda>i. px (of_nat i) y) [unat x..<unat x + Suc n])"
    by (simp add: upt_conv_Cons[of "unat x"] x del: upt_Suc)
  finally show ?case .
qed simp

lemma raster_eq:
  assumes "\<And>x y. length (px x y) = 4" and "unat y + n < 2 ^ 32"
  shows "raster px dst w y n bm = write_bytes bm (dst + of_nat (unat y * (unat w * 4)))
    (concat (map (image_line px w) [unat y..<unat y + n]))"
  using assms(2)
proof (induction n arbitrary: y bm)
  case (Suc n)
  have sy: "unat (y + 1) = Suc (unat y)" using Suc.prems by (intro of_nat_succ[of y n]) simp
  have y: "(of_nat (unat y) :: u32) = y" by (simp add: word_unat_eq_iff)
  have row: "raster_row px (dst + ucast y * ucast w * 4) y 0 (unat w) bm =
      write_bytes bm (dst + of_nat (unat y * (unat w * 4))) (image_line px w (unat y))"
    unfolding row_offset using raster_row_eq[OF assms(1), of 0 "unat w"] unat_lt32[of w]
    by (simp add: image_line_def y)
  have "raster px dst w y (Suc n) bm = write_bytes (write_bytes bm (dst + of_nat (unat y * (unat w * 4))) (image_line px w (unat y)))
      (dst + of_nat (unat (y + 1) * (unat w * 4))) (concat (map (image_line px w) [unat (y + 1)..<unat (y + 1) + n]))"
    unfolding raster.simps row using Suc.prems sy by (intro Suc.IH) simp
  also have "\<dots> = write_bytes bm (dst + of_nat (unat y * (unat w * 4)))
      (image_line px w (unat y) @ concat (map (image_line px w) [Suc (unat y)..<unat y + Suc n]))"
  proof -
    have "unat (y + 1) * (unat w * 4) = unat y * (unat w * 4) + length (image_line px w (unat y))"
      by (simp add: sy length_image_line[OF assms(1)])
    then have "dst + of_nat (unat (y + 1) * (unat w * 4)) =
        dst + of_nat (unat y * (unat w * 4)) + of_nat (length (image_line px w (unat y)))"
      by (simp only: of_nat_add add.assoc)
    moreover have "unat (y + 1) + n = unat y + Suc n" by (simp add: sy)
    ultimately show ?thesis by (simp only: write_bytes_append sy)
  qed
  also have "image_line px w (unat y) @ concat (map (image_line px w) [Suc (unat y)..<unat y + Suc n]) =
      concat (map (image_line px w) [unat y..<unat y + Suc n])"
    by (simp add: upt_conv_Cons[of "unat y"] del: upt_Suc)
  finally show ?case .
qed simp

lemma raster_whole:
  "(\<And>x y. length (px x y) = 4) \<Longrightarrow> raster px dst w 0 (unat h) bm = write_bytes bm dst (raster_image px w h)"
  using raster_eq[of px 0 "unat h"] unat_lt32[of h] by (simp add: raster_image_def)

text \<open>The byte \<open>c\<close> of the pixel in column \<open>x\<close> and row \<open>y\<close>.\<close>

lemma nth_raster_image:
  assumes "\<And>x y. length (px x y) = 4" and "x < unat w" and "y < unat h" and "c < 4"
  shows "raster_image px w h ! (y * (unat w * 4) + (x * 4 + c)) = px (of_nat x) (of_nat y) ! c"
proof -
  have "x * 4 + c < unat w * 4" using assms(2,4) by linarith
  then have "raster_image px w h ! (y * (unat w * 4) + (x * 4 + c)) = map (image_line px w) [0..<unat h] ! y ! (x * 4 + c)"
    unfolding raster_image_def using assms(3) by (intro nth_concat_equal) (auto simp: length_image_line[OF assms(1)])
  also have "\<dots> = map (\<lambda>x. px (of_nat x) (of_nat y)) [0..<unat w] ! x ! c"
    using assms by (simp add: image_line_def) (subst nth_concat_equal[where n = 4], auto)
  finally show ?thesis using assms(2) by simp
qed

end
