(* ===== verification/Bitmap.thy ===== *)
theory Bitmap
  imports Util
begin

text \<open>
  The BMP dump of \<open>src/llutil.cpp\<close>: \<open>put_u16\<close>, \<open>put_u32\<close> and \<open>write_bmp_bgra\<close>, with the standard
  I/O calls they use.  A run is described by what the file system grants: whether \<open>fopen\<close> and \<open>fflush\<close> succeed,
  and how many bytes the n-th \<open>fwrite\<close> takes at most.  The property reads the file back
  the way a BMP viewer does.
\<close>

section \<open>The writer\<close>

record file_run =
  io_open :: bool
  io_takes :: "nat \<Rightarrow> nat"
  io_flush :: bool

definition fwrite :: "nat \<Rightarrow> u8 list \<Rightarrow> nat \<times> u8 list" where
  "fwrite room bs = (min room (length bs), take room bs)"

definition put_u16 :: "u8 list \<Rightarrow> nat \<Rightarrow> u16 \<Rightarrow> u8 list" where
  "put_u16 p off v = p[off := ucast (v AND 0xFF), off + 1 := ucast (drop_bit 8 v AND 0xFF)]"

definition put_u32 :: "u8 list \<Rightarrow> nat \<Rightarrow> u32 \<Rightarrow> u8 list" where
  "put_u32 p off v = p[off := ucast (v AND 0xFF), off + 1 := ucast (drop_bit 8 v AND 0xFF),
     off + 2 := ucast (drop_bit 16 v AND 0xFF), off + 3 := ucast (drop_bit 24 v AND 0xFF)]"

definition bmp_header :: "u32 \<Rightarrow> u32 \<Rightarrow> u32 \<Rightarrow> u8 list" where
  "bmp_header width height pixels =
     (let h0 = replicate 54 0;
          h1 = h0[0 := 66, 1 := 77];
          h2 = put_u32 h1 2 (54 + pixels);
          h3 = put_u32 h2 10 54;
          h4 = put_u32 h3 14 40;
          h5 = put_u32 h4 18 width;
          h6 = put_u32 h5 22 height;
          h7 = put_u16 h6 26 1;
          h8 = put_u16 h7 28 24;
          h9 = put_u32 h8 30 0
      in put_u32 h9 34 pixels)"

text \<open>One row: \<open>s\<close> is the offset of the row in the source, \<open>x\<close> the column, \<open>n\<close> the columns left.\<close>

fun bmp_row :: "u8 list \<Rightarrow> u64 \<Rightarrow> u32 \<Rightarrow> nat \<Rightarrow> u8 list \<Rightarrow> u8 list" where
  "bmp_row bgra s x 0 row = row"
| "bmp_row bgra s x (Suc n) row =
     bmp_row bgra s (x + 1) n
       (row[unat (x * 3 + 0) := bgra ! (unat s + unat (x * 4 + 0)),
            unat (x * 3 + 1) := bgra ! (unat s + unat (x * 4 + 1)),
            unat (x * 3 + 2) := bgra ! (unat s + unat (x * 4 + 2))])"

text \<open>The loop over the rows, from row \<open>i\<close> with \<open>n\<close> rows left; \<open>i + 1\<close> writes have been done.\<close>

fun bmp_rows :: "file_run \<Rightarrow> u8 list \<Rightarrow> u32 \<Rightarrow> u32 \<Rightarrow> u32 \<Rightarrow> bool \<Rightarrow> u32 \<Rightarrow> u32 \<Rightarrow> nat \<Rightarrow> u8 list \<Rightarrow> u8 list
    \<Rightarrow> bool \<times> u8 list" where
  "bmp_rows io bgra width height stride flip padded_row i 0 row file = (True, file)"
| "bmp_rows io bgra width height stride flip padded_row i (Suc n) row file =
     (let y = (if flip then height - 1 - i else i);
          row1 = bmp_row bgra (ucast y * ucast stride) 0 (unat width) row;
          (written, bytes) = fwrite (io_takes io (Suc (unat i))) row1
      in if written = unat padded_row
         then bmp_rows io bgra width height stride flip padded_row (i + 1) n row1 (file @ bytes)
         else (False, file @ bytes))"

text \<open>The result, and the contents of the file if it was opened.\<close>

definition write_bmp_bgra :: "file_run \<Rightarrow> u8 list option \<Rightarrow> u32 \<Rightarrow> u32 \<Rightarrow> u32 \<Rightarrow> bool \<Rightarrow> bool \<times> u8 list option" where
  "write_bmp_bgra io bgra width height stride0 flip_vertically =
     (case bgra of None \<Rightarrow> (False, None)
      | Some b \<Rightarrow>
        if width = 0 \<or> height = 0 then (False, None)
        else let stride = (if stride0 = 0 then width * 4 else stride0);
                 row_bytes = width * 3;
                 padding = (4 - row_bytes mod 4) mod 4;
                 padded_row = row_bytes + padding;
                 pixels = padded_row * height
          in if \<not> io_open io then (False, None)
             else case fwrite (io_takes io 0) (bmp_header width height pixels) of
               (written, hdr) \<Rightarrow>
                 if written \<noteq> 54 then (False, Some hdr)
                 else (case bmp_rows io b width height stride flip_vertically padded_row 0 (unat height)
                              (replicate (unat padded_row) 0) hdr of
                         (ok, file) \<Rightarrow> (ok \<and> io_flush io, Some file)))"

section \<open>What the writer produces\<close>

lemma put_length [simp]: "length (put_u32 p off v) = length p" "length (put_u16 p off w) = length p"
  by (simp_all add: put_u32_def put_u16_def)

lemma put_splice:
  "off + 4 \<le> length p \<Longrightarrow> put_u32 p off v = take off p @ to_le32 v @ drop (off + 4) p"
  "off + 2 \<le> length p \<Longrightarrow> put_u16 p off w = take off p @ [ucast w, ucast (drop_bit 8 w)] @ drop (off + 2) p"
proof -
  show "put_u32 p off v = take off p @ to_le32 v @ drop (off + 4) p" if l: "off + 4 \<le> length p"
  proof (rule nth_equalityI)
    fix i assume "i < length (put_u32 p off v)"
    with l show "put_u32 p off v ! i = (take off p @ to_le32 v @ drop (off + 4) p) ! i"
      by (auto simp: put_u32_def to_le32_def nth_append nth_list_update nth_Cons' min_def)
  qed (use l in \<open>simp add: put_u32_def\<close>)
  show "put_u16 p off w = take off p @ [ucast w, ucast (drop_bit 8 w)] @ drop (off + 2) p" if l: "off + 2 \<le> length p"
  proof (rule nth_equalityI)
    fix i assume "i < length (put_u16 p off w)"
    with l show "put_u16 p off w ! i = (take off p @ [ucast w, ucast (drop_bit 8 w)] @ drop (off + 2) p) ! i"
      by (auto simp: put_u16_def nth_append nth_list_update nth_Cons' min_def intro!: arg_cong[where f = "(!) p"])
  qed (use l in \<open>simp add: put_u16_def\<close>)
qed

lemma bmp_header_bytes:
  "bmp_header w h px = [66, 77] @ to_le32 (54 + px) @ replicate 4 0 @ to_le32 54 @ to_le32 40 @ to_le32 w @ to_le32 h @
     [1, 0, 24, 0] @ to_le32 0 @ to_le32 px @ replicate 16 0"
proof -
  have "(replicate 54 0)[0 := 66, 1 := 77] = [66, 77] @ replicate 52 (0 :: u8)" by (simp add: numeral_eq_Suc)
  then show ?thesis unfolding bmp_header_def Let_def by (simp add: put_splice)
qed

lemma length_bmp_header [simp]: "length (bmp_header w h px) = 54"
  by (simp add: bmp_header_bytes)

text \<open>The bytes of a row: blue, green and red of each pixel, and the padding.\<close>

definition bgr :: "u8 list \<Rightarrow> nat \<Rightarrow> nat \<Rightarrow> u8 list" where
  "bgr b s x = [b ! (s + x * 4), b ! (s + x * 4 + 1), b ! (s + x * 4 + 2)]"

definition bmp_line :: "u8 list \<Rightarrow> nat \<Rightarrow> nat \<Rightarrow> nat \<Rightarrow> u8 list" where
  "bmp_line b s w pad = concat (map (bgr b s) [0..<w]) @ replicate pad 0"

lemma length_concat_bgr: "length (concat (map (bgr b s) xs)) = 3 * length xs"
  by (induction xs) (simp_all add: bgr_def)

lemma nth_concat_bgr:
  "x < length xs \<Longrightarrow> c < 3 \<Longrightarrow> concat (map (bgr b s) xs) ! (3 * x + c) = b ! (s + (xs ! x) * 4 + c)"
proof (induction xs arbitrary: x)
  case (Cons y xs)
  have "c = 0 \<or> c = 1 \<or> c = 2" using Cons.prems(2) by auto
  with Cons show ?case by (cases x) (auto simp: bgr_def nth_append)
qed simp

lemma length_bmp_line [simp]: "length (bmp_line b s w pad) = 3 * w + pad"
  by (simp add: bmp_line_def length_concat_bgr)

lemma nth_bmp_line: "x < w \<Longrightarrow> c < 3 \<Longrightarrow> bmp_line b s w pad ! (3 * x + c) = b ! (s + x * 4 + c)"
  by (simp add: bmp_line_def nth_append length_concat_bgr nth_concat_bgr)

lemma small_index:
  assumes "unat (x :: u32) * 4 + 3 < 2 ^ 32" and "c \<le> 3"
  shows "unat (x * 3 + of_nat c) = unat x * 3 + c" and "unat (x * 4 + of_nat c) = unat x * 4 + c"
proof -
  have u: "unat (x * of_nat k + of_nat c) = unat x * k + c" if "k = 3 \<or> k = 4" for k
  proof -
    have "unat (x * of_nat k) = unat x * k" using assms(1) that by (subst unat_mult32) (auto simp: unat_of_nat32)
    moreover have "unat x * k + c < 2 ^ 32" using assms that by auto
    ultimately show ?thesis using assms(2) unat_add_lem[of "x * of_nat k" "of_nat c"] by (simp add: unat_of_nat32)
  qed
  from u[of 3] u[of 4] show "unat (x * 3 + of_nat c) = unat x * 3 + c" "unat (x * 4 + of_nat c) = unat x * 4 + c" by simp_all
qed

lemma bmp_row_eq:
  assumes "unat x + n = w" and "w * 4 < 2 ^ 32" and "length A = 3 * unat x" and "length B = 3 * n"
  shows "bmp_row b s x n (A @ B @ R) = A @ concat (map (bgr b (unat s)) [unat x..<w]) @ R"
  using assms
proof (induction n arbitrary: x A B)
  case (Suc n)
  obtain b0 b1 b2 B' where B: "B = b0 # b1 # b2 # B'" "length B' = 3 * n"
    using Suc.prems(4) by (auto simp: length_Suc_conv eval_nat_numeral)
  have sm: "unat x * 4 + 3 < 2 ^ 32" using Suc.prems(1,2) by simp
  note i = small_index[OF sm, of 0] small_index[OF sm, of 1] small_index[OF sm, of 2]
  have sx: "unat (x + 1) = Suc (unat x)" using Suc.prems(1,2) unat_add_lem[of x 1] by simp
  have "bmp_row b s x (Suc n) (A @ B @ R) = bmp_row b s (x + 1) n ((A @ bgr b (unat s) (unat x)) @ B' @ R)"
    using i Suc.prems(3) by (simp add: B(1) bgr_def list_update_append mult.commute add.assoc)
  also have "\<dots> = (A @ bgr b (unat s) (unat x)) @ concat (map (bgr b (unat s)) [unat (x + 1)..<w]) @ R"
    using Suc.prems(1-3) B(2) sx by (intro Suc.IH) (auto simp: bgr_def)
  also have "\<dots> = A @ concat (map (bgr b (unat s)) [unat x..<w]) @ R"
    using Suc.prems(1) sx by (simp add: upt_conv_Cons[of "unat x" w])
  finally show ?case .
qed simp

definition bmp_row_no :: "bool \<Rightarrow> u32 \<Rightarrow> nat \<Rightarrow> nat" where
  "bmp_row_no flip height j = (if flip then unat height - 1 - j else j)"

lemma bmp_row_offset:
  assumes "unat i < unat height"
  shows "unat (ucast (if flip then height - 1 - i else i) * ucast (stride :: u32) :: u64) = bmp_row_no flip height (unat i) * unat stride"
proof -
  let ?y = "if flip then height - 1 - i else i"
  have "unat (height - 1) = unat height - 1" using assms by (intro unat_minus_one) auto
  moreover from this have "i \<le> height - 1" using assms by (simp add: word_le_unat)
  ultimately have y: "unat ?y = bmp_row_no flip height (unat i)" by (simp add: bmp_row_no_def unat_sub word_le_nat_alt)
  have "unat ?y * unat stride < 2 ^ 32 * 2 ^ 32"
    using unat_lt32[of ?y] unat_lt32[of stride] by (intro mult_strict_mono) auto
  then have "unat (ucast ?y * ucast stride :: u64) = unat ?y * unat stride"
    by (subst unat_mult64) (simp_all only: unat_ucast_32_64, simp)
  then show ?thesis by (simp only: y)
qed

lemma bmp_rows_eq:
  assumes "unat i + n = unat height" and "unat width * 4 < 2 ^ 32" and "unat padded_row = 3 * unat width + pad"
    and "length B = 3 * unat width"
    and "bmp_rows io b width height stride flip padded_row i n (B @ replicate pad 0) cs = (ok, cs')"
  shows "(ok \<longleftrightarrow> (\<forall>j\<in>{unat i..<unat height}. 3 * unat width + pad \<le> io_takes io (Suc j))) \<and>
    (ok \<longrightarrow> cs' = cs @ concat (map (\<lambda>j. bmp_line b (bmp_row_no flip height j * unat stride) (unat width) pad)
      [unat i..<unat height]))"
  using assms(1,4,5)
proof (induction n arbitrary: i B cs)
  case 0
  then show ?case by simp
next
  case (Suc n)
  let ?w = "unat width" and ?y = "if flip then height - 1 - i else i"
  have lt: "unat i < unat height" using Suc.prems(1) by simp
  have s: "unat (ucast ?y * ucast stride :: u64) = bmp_row_no flip height (unat i) * unat stride" by (rule bmp_row_offset[OF lt])
  let ?B = "concat (map (bgr b (bmp_row_no flip height (unat i) * unat stride)) [0..<?w])"
  have row: "bmp_row b (ucast ?y * ucast stride) 0 ?w (B @ replicate pad 0) = ?B @ replicate pad 0"
    using bmp_row_eq[of 0 ?w ?w "[]" B b "ucast ?y * ucast stride" "replicate pad 0"] assms(2) Suc.prems(2) s by simp
  have line: "?B @ replicate pad 0 = bmp_line b (bmp_row_no flip height (unat i) * unat stride) ?w pad"
    by (simp add: bmp_line_def)
  have si: "unat (i + 1) = Suc (unat i)" using lt unat_lt32[of height] unat_add_lem[of i 1] by simp
  have iv: "{unat i..<unat height} = insert (unat i) {Suc (unat i)..<unat height}"
    "[unat i..<unat height] = unat i # [Suc (unat i)..<unat height]"
    using lt by (auto simp: upt_conv_Cons)
  have lb: "length ?B = 3 * ?w" by (simp add: length_concat_bgr)
  let ?L = "bmp_line b (bmp_row_no flip height (unat i) * unat stride) ?w pad"
  have fw: "fst (fwrite (io_takes io (Suc (unat i))) ?L) = unat padded_row \<longleftrightarrow> 3 * ?w + pad \<le> io_takes io (Suc (unat i))"
    by (auto simp: fwrite_def assms(3))
  note eq = Suc.prems(3)[unfolded bmp_rows.simps Let_def row line case_prod_beta fw]
  show ?case
  proof (cases "3 * ?w + pad \<le> io_takes io (Suc (unat i))")
    case True
    then have t: "snd (fwrite (io_takes io (Suc (unat i))) ?L) = ?L" by (simp add: fwrite_def)
    have "bmp_rows io b width height stride flip padded_row (i + 1) n (?B @ replicate pad 0) (cs @ ?L) = (ok, cs')"
      unfolding line using eq True by (simp only: t if_True)
    from Suc.IH[OF _ lb this] True Suc.prems(1) si show ?thesis by (simp add: iv)
  next
    case False
    with eq show ?thesis by (simp add: iv)
  qed
qed

section \<open>Sizes\<close>

definition bmp_pad :: "nat \<Rightarrow> nat" where
  "bmp_pad w = (4 - 3 * w mod 4) mod 4"

lemma bmp_widths:
  assumes "unat (width :: u32) * 4 < 2 ^ 32"
  shows "unat (width * 3 + (4 - width * 3 mod 4) mod 4) = 3 * unat width + bmp_pad (unat width)"
proof -
  have r: "unat (width * 3) = 3 * unat width" using assms by (subst unat_mult32) auto
  have "unat (4 - width * 3 mod 4) = 4 - 3 * unat width mod 4"
  proof -
    have "unat (width * 3 mod 4) = 3 * unat width mod 4" by (simp add: unat_mod r)
    moreover from this have "width * 3 mod 4 \<le> 4" by (simp add: word_le_unat)
    ultimately show ?thesis by (simp add: unat_sub)
  qed
  then have p: "unat ((4 - width * 3 mod 4) mod 4) = bmp_pad (unat width)" by (simp add: unat_mod bmp_pad_def)
  have "bmp_pad (unat width) < 4" by (simp add: bmp_pad_def)
  then show ?thesis using assms r p unat_add_lem[of "width * 3" "(4 - width * 3 mod 4) mod 4"] by simp
qed

lemma bmp_rows_aligned: "4 dvd 3 * w + bmp_pad w"
proof -
  define k where "k = 3 * w mod 4"
  have k: "k = 0 \<or> k = 1 \<or> k = 2 \<or> k = 3" unfolding k_def by linarith
  then have "4 dvd k + (4 - k) mod 4" by auto
  then have "4 dvd 4 * (3 * w div 4) + (k + (4 - k) mod 4)" by simp
  also have "4 * (3 * w div 4) + (k + (4 - k) mod 4) = 3 * w + bmp_pad w"
    unfolding k_def bmp_pad_def by (simp only: add.assoc[symmetric] mult_div_mod_eq)
  finally show ?thesis .
qed

text \<open>The file that is written when no operation fails.\<close>

definition bmp_file :: "u8 list \<Rightarrow> u32 \<Rightarrow> u32 \<Rightarrow> u32 \<Rightarrow> bool \<Rightarrow> u8 list" where
  "bmp_file b width height st flip = bmp_header width height ((width * 3 + (4 - width * 3 mod 4) mod 4) * height) @
     concat (map (\<lambda>j. bmp_line b (bmp_row_no flip height j * unat st) (unat width) (bmp_pad (unat width))) [0..<unat height])"

lemma bmp_row_no_twice: "j < unat height \<Longrightarrow> bmp_row_no flip height (bmp_row_no flip height j) = j"
  "j < unat height \<Longrightarrow> bmp_row_no flip height j < unat height"
  by (auto simp: bmp_row_no_def)

lemma nth_bmp_line_pad: "3 * w \<le> k \<Longrightarrow> k < 3 * w + pad \<Longrightarrow> bmp_line b s w pad ! k = 0"
  by (simp add: bmp_line_def nth_append length_concat_bgr)

lemma bmp_file_contents:
  assumes "unat width * 4 < 2 ^ 32" and "pr = 3 * unat width + bmp_pad (unat width)" and "54 + pr * unat height < 2 ^ 32"
    and "f = bmp_file b width height st flip"
  shows "length f = 54 + pr * unat height"
    "take 54 f = [66, 77] @ to_le32 (of_nat (54 + pr * unat height)) @ replicate 4 0 @ to_le32 54 @ to_le32 40 @
      to_le32 width @ to_le32 height @ [1, 0, 24, 0] @ to_le32 0 @ to_le32 (of_nat (pr * unat height)) @ replicate 16 0"
    "x < unat width \<Longrightarrow> y < unat height \<Longrightarrow> c < 3 \<Longrightarrow>
      f ! (54 + bmp_row_no flip height y * pr + (3 * x + c)) = b ! (y * unat st + x * 4 + c)"
    "y < unat height \<Longrightarrow> 3 * unat width \<le> k \<Longrightarrow> k < pr \<Longrightarrow> f ! (54 + y * pr + k) = 0"
proof -
  let ?w = "unat width" and ?h = "unat height" and ?prw = "width * 3 + (4 - width * 3 mod 4) mod 4"
  let ?ls = "map (\<lambda>j. bmp_line b (bmp_row_no flip height j * unat st) ?w (bmp_pad ?w)) [0..<?h]"
  note f = assms(4)[unfolded bmp_file_def]
  have ll: "length l = pr" if "l \<in> set ?ls" for l using that assms(2) by auto
  show "length f = 54 + pr * ?h" using length_concat_equal[of ?ls pr] ll by (simp add: f)
  have "unat (?prw * height) = pr * ?h" using assms(2,3) bmp_widths[OF assms(1)] by (subst unat_mult32) auto
  then have "?prw * height = of_nat (pr * ?h)" using assms(3) unat_of_nat32[of "pr * ?h"] by (simp only: word_unat_eq_iff)
  then have "bmp_header width height (?prw * height) = bmp_header width height (of_nat (pr * ?h))" by simp
  then show "take 54 f = [66, 77] @ to_le32 (of_nat (54 + pr * ?h)) @ replicate 4 0 @ to_le32 54 @ to_le32 40 @
      to_le32 width @ to_le32 height @ [1, 0, 24, 0] @ to_le32 0 @ to_le32 (of_nat (pr * ?h)) @ replicate 16 0"
    unfolding f by (simp add: bmp_header_bytes)
  have at: "f ! (54 + j * pr + k) = ?ls ! j ! k" if "j < ?h" "k < pr" for j k
    using that nth_concat_equal[OF ll, of ?ls j k] by (simp add: f nth_append add.assoc)
  show "f ! (54 + bmp_row_no flip height y * pr + (3 * x + c)) = b ! (y * unat st + x * 4 + c)"
    if a: "x < ?w" "y < ?h" "c < 3"
    using at[of "bmp_row_no flip height y" "3 * x + c"] a assms(2) by (simp add: nth_bmp_line bmp_row_no_twice)
  show "f ! (54 + y * pr + k) = 0" if a: "y < ?h" "3 * ?w \<le> k" "k < pr"
    using at[of y k] a assms(2) by (simp add: nth_bmp_line_pad)
qed

text \<open>When the call succeeds, and what the file then holds.\<close>

lemma bmp_result:
  assumes "write_bmp_bgra io (Some b) width height stride flip = (ok, out)"
    and "width \<noteq> 0" and "height \<noteq> 0" and "unat width * 4 < 2 ^ 32"
    and "st = (if stride = 0 then width * 4 else stride)"
    and "pr = 3 * unat width + bmp_pad (unat width)"
  shows "(ok \<longleftrightarrow> io_open io \<and> 54 \<le> io_takes io 0 \<and> (\<forall>j<unat height. pr \<le> io_takes io (Suc j)) \<and> io_flush io) \<and>
    (ok \<longrightarrow> out = Some (bmp_file b width height st flip))"
proof -
  let ?w = "unat width" and ?h = "unat height"
  let ?pad = "bmp_pad ?w" and ?prw = "width * 3 + (4 - width * 3 mod 4) mod 4"
  let ?hdr = "bmp_header width height (?prw * height)"
  have prw: "unat ?prw = 3 * ?w + ?pad" by (rule bmp_widths[OF assms(4)])
  have w54: "fst (fwrite (io_takes io 0) ?hdr) = 54 \<longleftrightarrow> 54 \<le> io_takes io 0"
    "54 \<le> io_takes io 0 \<Longrightarrow> snd (fwrite (io_takes io 0) ?hdr) = ?hdr"
    by (auto simp: fwrite_def)
  have e: "write_bmp_bgra io (Some b) width height stride flip =
      (if \<not> io_open io then (False, None)
       else if \<not> 54 \<le> io_takes io 0 then (False, Some (snd (fwrite (io_takes io 0) ?hdr)))
       else case bmp_rows io b width height st flip ?prw 0 ?h (replicate (unat ?prw) 0) ?hdr of
         (ok, file) \<Rightarrow> (ok \<and> io_flush io, Some file))"
    using assms(2,3,5) w54 by (auto simp: write_bmp_bgra_def Let_def case_prod_beta)
  show ?thesis
  proof (cases "io_open io \<and> 54 \<le> io_takes io 0")
    case False
    with assms(1)[unfolded e] have "\<not> ok" by (auto split: if_splits)
    with False show ?thesis by blast
  next
    case True
    obtain ok' f where r: "bmp_rows io b width height st flip ?prw 0 ?h (replicate (unat ?prw) 0) ?hdr = (ok', f)" by force
    have o: "ok = (ok' \<and> io_flush io)" "out = Some f" using assms(1)[unfolded e] True r by auto
    have "replicate (unat ?prw) 0 = replicate (3 * ?w) (0 :: u8) @ replicate ?pad 0" by (simp add: prw replicate_add)
    from bmp_rows_eq[OF _ assms(4) prw _ r[unfolded this]]
    have rs: "ok' \<longleftrightarrow> (\<forall>j<?h. pr \<le> io_takes io (Suc j))" "ok' \<Longrightarrow> f = bmp_file b width height st flip"
      using assms(6) by (auto simp: atLeast0LessThan bmp_file_def)
    then show ?thesis using True o by blast
  qed
qed

section \<open>Properties\<close>

text \<open>
  C20.  The BMP dump of an image that is not empty, whose buffer holds its last row and whose file
  stays below 4 GiB.  The call succeeds exactly when the file could be opened, every write took all
  its bytes and the flush succeeded.  The file then is an uncompressed 24-bit bitmap: its first 54
  bytes are exactly the two headers of the format (signature, size of the file, offset of the
  pixels; 40 bytes of information header, width, height, one plane, 24 bits, no compression, size of
  the pixels, and no palette or resolution), rows are padded with zeros to a multiple of four bytes,
  and the blue, green and red of the source's pixel in column x and row y are in column x of the
  file's row y, or, when the image is flipped, of the row that as many others follow as precede y:
  a viewer, which takes the first row of the file for the lowest one, then shows the source's first
  row on top.
\<close>

theorem bmp_readable:
  assumes "write_bmp_bgra io (Some b) width height stride flip = (ok, out)"
    and "width \<noteq> 0" and "height \<noteq> 0" and "unat width * 4 < 2 ^ 32"
    and "st = (if stride = 0 then width * 4 else stride)"
    and "(unat height - 1) * unat st + unat width * 4 \<le> length b"
    and "pr = 3 * unat width + bmp_pad (unat width)" and "54 + pr * unat height < 2 ^ 32"
  shows "4 dvd pr \<and> pr < 3 * unat width + 4 \<and>
    (ok \<longleftrightarrow> io_open io \<and> 54 \<le> io_takes io 0 \<and> (\<forall>j<unat height. pr \<le> io_takes io (Suc j)) \<and> io_flush io) \<and>
    (ok \<longrightarrow> (\<exists>f. out = Some f \<and> length f = 54 + pr * unat height \<and>
       take 54 f = [66, 77] @ to_le32 (of_nat (54 + pr * unat height)) @ replicate 4 0 @ to_le32 54 @ to_le32 40 @
         to_le32 width @ to_le32 height @ [1, 0, 24, 0] @ to_le32 0 @ to_le32 (of_nat (pr * unat height)) @ replicate 16 0 \<and>
       (\<forall>x y c. x < unat width \<and> y < unat height \<and> c < 3 \<longrightarrow>
          f ! (54 + (if flip then unat height - 1 - y else y) * pr + (3 * x + c)) = b ! (y * unat st + x * 4 + c)) \<and>
       (\<forall>y k. y < unat height \<and> 3 * unat width \<le> k \<and> k < pr \<longrightarrow> f ! (54 + y * pr + k) = 0)))"
proof -
  have "4 dvd pr" unfolding assms(7) by (rule bmp_rows_aligned)
  moreover have "pr < 3 * unat width + 4" by (simp add: assms(7) bmp_pad_def)
  moreover note bmp_result[OF assms(1-5,7)] bmp_file_contents[where b = b and st = st and flip = flip, OF assms(4,7,8) refl, unfolded bmp_row_no_def]
  ultimately show ?thesis by simp
qed

theorem bmp_readable_witness:
  "\<exists>f. write_bmp_bgra \<lparr>io_open = True, io_takes = (\<lambda>_. 100), io_flush = True\<rparr> (Some [1, 2, 3, 4, 5, 6, 7, 8]) 1 2 0 True =
      (True, Some f) \<and> length f = 62 \<and> f ! 58 = 1 \<and> f ! 54 = 5 \<and> f ! 57 = 0"
proof -
  let ?io = "\<lparr>io_open = True, io_takes = (\<lambda>_. 100), io_flush = True\<rparr>" and ?b = "[1, 2, 3, 4, 5, 6, 7, 8] :: u8 list"
  obtain ok out where r: "write_bmp_bgra ?io (Some ?b) 1 2 0 True = (ok, out)" by force
  note t = bmp_readable[OF r, of 4 4]
  have pad: "bmp_pad 1 = 1" by (simp add: bmp_pad_def)
  have ok: ok using t[THEN conjunct2, THEN conjunct2, THEN conjunct1] pad by simp
  with t[THEN conjunct2, THEN conjunct2, THEN conjunct2] pad obtain f where f: "out = Some f" "length f = 62"
    "\<forall>x y c. x < 1 \<and> y < 2 \<and> c < 3 \<longrightarrow> f ! (54 + (2 - 1 - y) * 4 + (3 * x + c)) = ?b ! (y * 4 + x * 4 + c)"
    "\<forall>y k. y < 2 \<and> 3 \<le> k \<and> k < 4 \<longrightarrow> f ! (54 + y * 4 + k) = 0"
    by auto
  have "f ! 58 = 1" using f(3)[rule_format, of 0 0 0] by simp
  moreover have "f ! 54 = 5" using f(3)[rule_format, of 0 1 0] by simp
  moreover have "f ! 57 = 0" using f(4)[rule_format, of 0 3] by simp
  ultimately show ?thesis using r ok f(1,2) by auto
qed

end
