(* ===== verification/Minimal.thy ===== *)
theory Minimal
  imports Command_Loop Bitmap
begin

text \<open>
  \<open>examples/minimal.cpp\<close>: producer and consumer in one process, no loop.  The whole program is a function
  from the name space and the memory to its exit code, the lines it prints and the file it writes; the
  property runs it from a free name and shows every step succeed, the pixels it rendered included.
\<close>

section \<open>The program\<close>

definition kHello :: u32 where "kHello = 1"
definition kHelloAck :: u32 where "kHelloAck = 2"

definition hello_text :: "u8 list" where "hello_text = bytes_of ''hello from the consumer''"
definition ack_text :: "u8 list" where "ack_text = bytes_of ''ack from the producer''"

definition minimal_config :: LLConfig where
  "minimal_config = LLConfig_default\<lparr>cfg_name := ''minimal_demo'', cfg_max_width := 256, cfg_max_height := 256\<rparr>"

datatype minimal_event =
    M_Failed string
  | M_Bytes u64
  | M_Connected bool
  | M_Frame LLFrameInfo
  | M_NoNewFrame
  | M_ProducerGot u64 "u8 list"
  | M_ConsumerGot u64 "u8 list"
  | M_Wrote

record minimal =
  mn_pub :: LLPublisher
  mn_sub :: LLSubscriber
  mn_events :: "minimal_event list"

definition say :: "minimal_event \<Rightarrow> minimal \<Rightarrow> minimal" where
  "say e s = s\<lparr>mn_events := mn_events s @ [e]\<rparr>"

definition minimal_pixel :: "u32 \<Rightarrow> u32 \<Rightarrow> u8 list" where
  "minimal_pixel x y = [ucast (x * 2), ucast (y * 4), 0x40, 0xFF]"

text \<open>Step 3: a frame of 128 by 64 pixels, rendered in place.\<close>

definition minimal_frame :: "clock \<Rightarrow> LLPublisher \<Rightarrow> heap \<Rightarrow> LLPublisher \<times> heap" where
  "minimal_frame clk pub hp =
     (case begin_write 128 64 clk pub hp of
        (None, pub1, hp1) \<Rightarrow> (pub1, hp1)
      | (Some dst, pub1, hp1) \<Rightarrow>
          (case p_hdr pub1 of None \<Rightarrow> (pub1, hp1)
           | Some b \<Rightarrow> commit 0 (\<lambda>i. clk (Suc i)) pub1
               (hp1(b := (hp1 b)\<lparr>m_bytes := raster minimal_pixel dst 128 0 64 (m_bytes (hp1 b))\<rparr>))))"

text \<open>Step 5: the two command loops; \<open>clks i\<close> are the clock readings around the i-th command.\<close>

definition minimal_pub_recv :: "minimal \<times> heap \<Rightarrow> LLShmCommand option \<times> minimal \<times> heap" where
  "minimal_pub_recv st = (case st of (s, hp) \<Rightarrow>
     case pub_receive (mn_pub s) hp of (x, pub, hp1) \<Rightarrow> (x, s\<lparr>mn_pub := pub\<rparr>, hp1))"

definition minimal_pub_handle :: "(u64 \<Rightarrow> clock) \<Rightarrow> LLShmCommand \<Rightarrow> minimal \<times> heap \<Rightarrow> minimal \<times> heap" where
  "minimal_pub_handle clks cmd st = (case st of (s, hp) \<Rightarrow>
     let s1 = say (M_ProducerGot (cmd_id cmd) (cmd_data cmd)) s in
     case pub_send_text kHelloAck ack_text (cmd_id cmd) (clks (p_recvd (mn_pub s1))) (mn_pub s1) hp of
       (_, pub, hp1) \<Rightarrow> (s1\<lparr>mn_pub := pub\<rparr>, hp1))"

definition minimal_sub_recv :: "(u64 \<Rightarrow> clock) \<Rightarrow> minimal \<times> heap \<Rightarrow> LLShmCommand option \<times> minimal \<times> heap" where
  "minimal_sub_recv clks st = (case st of (s, hp) \<Rightarrow>
     case sub_receive (clks (u_recvd (mn_sub s))) (mn_sub s) hp of (x, sub, hp1) \<Rightarrow> (x, s\<lparr>mn_sub := sub\<rparr>, hp1))"

definition minimal_sub_handle :: "LLShmCommand \<Rightarrow> minimal \<times> heap \<Rightarrow> minimal \<times> heap" where
  "minimal_sub_handle cmd st = (case st of (s, hp) \<Rightarrow> (say (M_ConsumerGot (cmd_reply_to cmd) (cmd_data cmd)) s, hp))"

definition minimal_commands :: "nat \<Rightarrow> clock \<Rightarrow> (u64 \<Rightarrow> clock) \<Rightarrow> (u64 \<Rightarrow> clock) \<Rightarrow> minimal \<times> heap \<Rightarrow> (minimal \<times> heap) option" where
  "minimal_commands fuel clk pclks sclks st = (case st of (s, hp) \<Rightarrow>
     case sub_send_text kHello hello_text 0 clk (mn_sub s) hp of
       (_, sub, hp1) \<Rightarrow>
         (case drain fuel minimal_pub_recv (minimal_pub_handle pclks) (s\<lparr>mn_sub := sub\<rparr>, hp1) of
            None \<Rightarrow> None
          | Some st1 \<Rightarrow> drain fuel (minimal_sub_recv sclks) minimal_sub_handle st1))"

text \<open>Step 4: the two reads; the second one keeps buffer and info.\<close>

definition minimal_reads :: "'k bip_ops \<Rightarrow> (nat \<Rightarrow> clock) \<Rightarrow> minimal \<Rightarrow> 'k \<Rightarrow> heap
    \<Rightarrow> (u8 list \<times> LLFrameInfo) \<times> minimal \<times> 'k \<times> heap" where
  "minimal_reads ops t s k hp =
     (case read_latest_vec ops [] (t 3) (t 4) (t 5) calm [] (mn_sub s) k hp of
        ((r1, px1, i1), sub1, k1, hp1) \<Rightarrow>
          let info1 = (case i1 of Some fi \<Rightarrow> fi | None \<Rightarrow> LLFrameInfo_zero);
              s1 = s\<lparr>mn_sub := sub1\<rparr>;
              s2 = (if r1 = Read_Ok then say (M_Frame info1) s1 else s1)
          in case read_latest_vec ops [] (t 6) (t 7) (t 8) calm px1 (mn_sub s2) k1 hp1 of
               ((r2, px2, i2), sub2, k2, hp2) \<Rightarrow>
                 let info2 = (case i2 of Some fi \<Rightarrow> fi | None \<Rightarrow> info1);
                     s3 = s2\<lparr>mn_sub := sub2\<rparr>
                 in ((px2, info2), if r2 = NoNewFrame then say M_NoNewFrame s3 else s3, k2, hp2))"

text \<open>
  The program: \<open>t i\<close> are the clock readings of the i-th call.  The result is the exit code, what is
  printed, and the contents of \<open>minimal.bmp\<close> if it was opened.  The destructors run in reverse order of
  construction.
\<close>

definition minimal_main :: "nat \<Rightarrow> platform \<Rightarrow> 'k bip_ops \<Rightarrow> (nat \<Rightarrow> clock) \<Rightarrow> u64 \<Rightarrow> (u64 \<Rightarrow> clock) \<Rightarrow> (u64 \<Rightarrow> clock)
    \<Rightarrow> file_run \<Rightarrow> 'k \<Rightarrow> heap \<Rightarrow> ((nat \<times> minimal_event list \<times> u8 list option) \<times> 'k \<times> heap) option" where
  "minimal_main fuel pf ops t wall pclks sclks io k hp =
     (case publisher_create pf ops minimal_config (t 0) wall k hp of
        ((None, st), k1, hp1) \<Rightarrow> Some ((1, [M_Failed (to_string st)], None), k1, hp1)
      | ((Some pub, st), k1, hp1) \<Rightarrow>
          (case subscriber_open ops [] (cfg_name minimal_config) (t 1) k1 hp1 of
             (sub, k2, hp2) \<Rightarrow>
               (case minimal_frame (t 2) pub hp2 of
                  (pub1, hp3) \<Rightarrow>
                    let s = \<lparr>mn_pub = pub1, mn_sub = sub,
                             mn_events = [M_Bytes (segment_bytes minimal_config), M_Connected (connected sub)]\<rparr>
                    in case minimal_reads ops t s k2 hp3 of
                         ((pixels, info), s1, k3, hp4) \<Rightarrow>
                           (case minimal_commands fuel (t 9) pclks sclks (s1, hp4) of
                              None \<Rightarrow> None
                            | Some (s2, hp5) \<Rightarrow>
                                (case write_bmp_bgra io (Some pixels) (fi_width info) (fi_height info) (fi_stride info) True of
                                   (wrote, file) \<Rightarrow>
                                     let s3 = (if wrote then say M_Wrote s2 else s2)
                                     in case subscriber_destroy ops (mn_sub s3) k3 hp5 of
                                          (k4, hp6) \<Rightarrow>
                                            (case publisher_destroy pf ops (mn_pub s3) k4 hp6 of
                                               (k5, hp7) \<Rightarrow> Some ((0, mn_events s3, file), k5, hp7)))))))"

section \<open>The command loops\<close>

lemma minimal_config_simps [simp]:
  "cfg_max_command_bytes minimal_config = 512" "cfg_command_slots minimal_config = 64" "cfg_bytes_per_pixel minimal_config = 4"
  "cfg_name minimal_config = ''minimal_demo''" "cfg_slot_count minimal_config = 3" "max_payload minimal_config = 262144"
  by (simp_all add: minimal_config_def LLConfig_default_def max_payload_def)

lemma minimal_config_valid: "config_valid minimal_config"
  by (simp add: config_valid_def minimal_config_def LLConfig_default_def k_defs)

lemma minimal_total: "L_total_size (compute_layout minimal_config) \<le> kMaxSegment"
  by (simp add: compute_layout_def align_up_def k_defs)

lemma texts_fit:
  "length (send_data (Some ack_text) (of_nat (length ack_text))) = unat (of_nat (length ack_text) :: u32)"
  "(of_nat (length ack_text) :: u32) \<le> 512" "send_data (Some ack_text) (of_nat (length ack_text)) = ack_text"
  "length (send_data (Some hello_text) (of_nat (length hello_text))) = unat (of_nat (length hello_text) :: u32)"
  "(of_nat (length hello_text) :: u32) \<le> 512" "send_data (Some hello_text) (of_nat (length hello_text)) = hello_text"
  by (simp_all add: send_data_def ack_text_def hello_text_def)

definition minimal_pub_inv :: "oid \<Rightarrow> LLHeader \<Rightarrow> minimal \<times> heap \<Rightarrow> bool" where
  "minimal_pub_inv b h st \<longleftrightarrow> pub_at b (mn_pub (fst st)) (snd st) \<and> p_cfg (mn_pub (fst st)) = minimal_config \<and>
     m_hdr (snd st b) = h"

definition minimal_sub_inv :: "oid \<Rightarrow> minimal \<times> heap \<Rightarrow> bool" where
  "minimal_sub_inv b st \<longleftrightarrow> attached minimal_config b (mn_sub (fst st)) \<and> seg_inv minimal_config (snd st b) \<and>
     owner_ok (mn_sub (fst st)) (snd st b)"

definition minimal_pub_view :: "oid \<Rightarrow> minimal \<times> heap \<Rightarrow> minimal_event list \<times> LLSubscriber \<times> (u32 \<times> u8 list \<times> u64) list" where
  "minimal_pub_view b st = (mn_events (fst st), mn_sub (fst st), replies minimal_config (snd st b))"

definition minimal_pub_step :: "LLShmCommand \<Rightarrow> minimal_event list \<times> LLSubscriber \<times> (u32 \<times> u8 list \<times> u64) list
    \<Rightarrow> minimal_event list \<times> LLSubscriber \<times> (u32 \<times> u8 list \<times> u64) list" where
  "minimal_pub_step cmd v = (case v of (es, sub, q) \<Rightarrow>
     (es @ [M_ProducerGot (cmd_id cmd) (cmd_data cmd)], sub, enq_reply minimal_config (kHelloAck, ack_text, cmd_id cmd) q))"

definition minimal_sub_step :: "LLShmCommand \<Rightarrow> minimal_event list \<Rightarrow> minimal_event list" where
  "minimal_sub_step cmd es = es @ [M_ConsumerGot (cmd_reply_to cmd) (cmd_data cmd)]"

interpretation minimal_pub_loop: command_loop minimal_pub_recv "minimal_pub_handle clks"
  "\<lambda>st. ring_queue minimal_config Upstream (snd st b)" "minimal_pub_inv b h" "minimal_pub_view b" minimal_pub_step for clks b h
proof unfold_locales
  fix st :: "minimal \<times> heap"
  assume inv: "minimal_pub_inv b h st"
  obtain s hp where st: "st = (s, hp)" by force
  have at: "pub_at b (mn_pub s) hp" "p_cfg (mn_pub s) = minimal_config" using inv by (simp_all add: st minimal_pub_inv_def)
  show "\<exists>s'. minimal_pub_recv st = (None, s') \<and> minimal_pub_inv b h s' \<and> ring_queue minimal_config Upstream (snd s' b) = [] \<and>
      minimal_pub_view b s' = minimal_pub_view b st" if "ring_queue minimal_config Upstream (snd st b) = []"
    using pub_receive_loop(1)[OF at(1)] that at inv by (simp add: st minimal_pub_recv_def)
  show "\<exists>s'. minimal_pub_recv st = (Some x, s') \<and> minimal_pub_inv b h s' \<and> ring_queue minimal_config Upstream (snd s' b) = q \<and>
      minimal_pub_view b s' = minimal_pub_view b st" if "ring_queue minimal_config Upstream (snd st b) = x # q" for x q
    using pub_receive_loop(2)[OF at(1), of x q] that at inv
    by (auto simp: st minimal_pub_recv_def minimal_pub_inv_def minimal_pub_view_def)
  show "minimal_pub_inv b h (minimal_pub_handle clks x st) \<and>
      ring_queue minimal_config Upstream (snd (minimal_pub_handle clks x st) b) = ring_queue minimal_config Upstream (snd st b) \<and>
      minimal_pub_view b (minimal_pub_handle clks x st) = minimal_pub_step x (minimal_pub_view b st)" for x
  proof -
    obtain r pub hp1 where send: "pub_send kHelloAck (Some ack_text) (of_nat (length ack_text)) (cmd_id x)
        (clks (p_recvd (mn_pub s))) (mn_pub s) hp = (r, pub, hp1)" by (metis surj_pair)
    have "(of_nat (length ack_text) :: u32) \<le> cfg_max_command_bytes (p_cfg (mn_pub s))" using texts_fit(2) at(2) by simp
    note rep = pub_send_reply[OF at(1) texts_fit(1) this send, unfolded at(2) texts_fit(3)]
    have h: "minimal_pub_handle clks x st =
        (s\<lparr>mn_pub := pub, mn_events := mn_events s @ [M_ProducerGot (cmd_id x) (cmd_data x)]\<rparr>, hp1)"
      by (simp add: st minimal_pub_handle_def say_def pub_send_text_def send)
    have "m_hdr (hp b) = h" using inv by (simp add: st minimal_pub_inv_def)
    then show ?thesis unfolding h using rep(1-4,8)
      by (simp add: st minimal_pub_inv_def minimal_pub_view_def minimal_pub_step_def)
  qed
qed

lemma attached_recvd [simp]:
  "attached c b (m\<lparr>u_recvd := x\<rparr>) = attached c b m" "owner_ok (m\<lparr>u_recvd := x, u_last_progress := y\<rparr>) sm = owner_ok m sm"
  "attached c b (m\<lparr>u_next_cmd := x, u_sent := y\<rparr>) = attached c b m"
  "owner_ok (m\<lparr>u_next_cmd := x, u_sent := y\<rparr>) sm = owner_ok m sm"
  by (simp_all add: attached_def owner_ok_def)

interpretation minimal_sub_loop: command_loop "minimal_sub_recv clks" minimal_sub_handle
  "\<lambda>st. ring_queue minimal_config Downstream (snd st b)" "minimal_sub_inv b" "\<lambda>st. mn_events (fst st)" minimal_sub_step for clks b
proof unfold_locales
  fix st :: "minimal \<times> heap"
  assume inv: "minimal_sub_inv b st"
  obtain s hp where st: "st = (s, hp)" by force
  have at: "attached minimal_config b (mn_sub s)" "seg_inv minimal_config (hp b)" "owner_ok (mn_sub s) (hp b)"
    using inv by (simp_all add: st minimal_sub_inv_def)
  let ?clk = "clks (u_recvd (mn_sub s))"
  note rc = sub_receive_eq[where hp = hp and clk = ?clk, OF at]
  have ow: "owner_ok (mn_sub s) (upd_hdr b (beat t) hp b)" for t using at(3) by (simp add: owner_ok_def beat_def)
  show "\<exists>s'. minimal_sub_recv clks st = (None, s') \<and> minimal_sub_inv b s' \<and> ring_queue minimal_config Downstream (snd s' b) = [] \<and>
      mn_events (fst s') = mn_events (fst st)" if "ring_queue minimal_config Downstream (snd st b) = []"
    using rc that at seg_inv_beat[where hp = hp, OF at(2)] ow by (auto simp: st minimal_sub_recv_def minimal_sub_inv_def)
  show "\<exists>s'. minimal_sub_recv clks st = (Some x, s') \<and> minimal_sub_inv b s' \<and> ring_queue minimal_config Downstream (snd s' b) = q \<and>
      mn_events (fst s') = mn_events (fst st)" if "ring_queue minimal_config Downstream (snd st b) = x # q" for x q
  proof -
    from rc that obtain sm' where r': "sub_receive ?clk (mn_sub s) hp =
        (Some x, (mn_sub s)\<lparr>u_recvd := u_recvd (mn_sub s) + 1, u_last_progress := ?clk 1\<rparr>, hp(b := sm'))"
      and e: "cmd_effect minimal_config Downstream q (upd_hdr b (beat (?clk 0)) hp b) sm'" by (auto simp: st)
    have "m_hdr sm' = m_hdr (upd_hdr b (beat (?clk 0)) hp b)" "seg_inv minimal_config sm'"
      "ring_queue minimal_config Downstream sm' = q" using e by (auto simp: cmd_effect_def)
    then show ?thesis using r' at ow[of "?clk 0"]
      by (auto simp: st minimal_sub_recv_def minimal_sub_inv_def owner_ok_def)
  qed
  show "minimal_sub_inv b (minimal_sub_handle x st) \<and>
      ring_queue minimal_config Downstream (snd (minimal_sub_handle x st) b) = ring_queue minimal_config Downstream (snd st b) \<and>
      mn_events (fst (minimal_sub_handle x st)) = minimal_sub_step x (mn_events (fst st))" for x
    using inv by (simp add: st minimal_sub_handle_def minimal_sub_inv_def minimal_sub_step_def say_def)
qed

section \<open>The run\<close>

definition minimal_image :: "u8 list" where
  "minimal_image = raster_image minimal_pixel 128 64"

lemma length_minimal_image [simp]: "length minimal_image = 32768"
  by (simp add: minimal_image_def length_raster_image minimal_pixel_def)

text \<open>The reader's buffer, grown to the largest frame of the channel.\<close>

definition minimal_buffer :: "u8 list" where
  "minimal_buffer = minimal_image @ replicate (unat (max_payload minimal_config) - 32768) 0"

lemma length_minimal_buffer [simp]: "length minimal_buffer = 262144"
  by (simp only: minimal_buffer_def length_append length_replicate length_minimal_image) simp

text \<open>Producer and consumer in order, nothing published and nothing sent.\<close>

definition minimal_ready :: "oid \<Rightarrow> LLPublisher \<Rightarrow> LLSubscriber \<Rightarrow> heap \<Rightarrow> bool" where
  "minimal_ready b pub sub hp \<longleftrightarrow> pub_at b pub hp \<and> p_cfg pub = minimal_config \<and> p_pending pub = None \<and> p_frame_id pub = 0 \<and>
     p_min_interval_ns pub = 0 \<and> attached minimal_config b sub \<and> owner_ok sub (hp b) \<and>
     (\<forall>d. ring_queue minimal_config d (hp b) = []) \<and> h_shutdown (m_hdr (hp b)) = 0 \<and> u_last_frame sub = 0 \<and> u_next_cmd sub = 1 \<and>
     u_min_read_ns sub = 0 \<and> u_stale_ns sub = 500000000"

lemma minimal_starts:
  assumes "segment_store ok bound alloc pf ops" and "ok k" and "bound k ''minimal_demo'' = None"
  shows "\<exists>pub k1 hp1 sub k2 hp2 b. publisher_create pf ops minimal_config clk wall k hp = ((Some pub, LLStatus_Ok), k1, hp1) \<and>
    subscriber_open ops [] ''minimal_demo'' clk' k1 hp1 = (sub, k2, hp2) \<and> minimal_ready b pub sub hp2 \<and> u_last_progress sub = clk' 0"
proof -
  let ?sz = "L_total_size (compute_layout minimal_config)"
  from segment_store.create_fresh[OF assms(1,2) _ minimal_config_valid minimal_total, of clk wall hp] assms(3) obtain seg b k1 where
    c: "publisher_create pf ops minimal_config clk wall k hp = ((Some (new_publisher minimal_config seg b), LLStatus_Ok), k1,
      hp(b := init_segment minimal_config (make_session_id wall (clk 1)) (clk 2) (hp b)))" (is "_ = (_, _, ?hp1)")
    and k1: "ok k1" "bound k1 = (bound k)(''minimal_demo'' \<mapsto> (b, ?sz))" by auto
  let ?pub = "new_publisher minimal_config seg b"
  have at: "pub_at b ?pub ?hp1" by (rule new_publisher_at[OF minimal_config_valid minimal_total])
  have z: "h_command_owner_gen (m_hdr (?hp1 b)) = 0" "h_shutdown (m_hdr (?hp1 b)) = 0"
    by (simp_all add: init_segment_def Let_def LLHeader_zero_def)
  have "hdr_describes minimal_config (m_hdr (?hp1 b))" by (simp add: hdr_describes_init)
  from segment_store.open_owner[where hp = ?hp1 and b = b and name = "''minimal_demo''" and sz = ?sz and clk = clk',
      OF assms(1) k1(1) _ minimal_config_valid this _ z(1)] k1(2)
  obtain sub k2 t g where o: "subscriber_open ops [] ''minimal_demo'' clk' k1 ?hp1 =
      (sub, k2, upd_hdr b (\<lambda>_. take_claim g t (m_hdr (?hp1 b))) ?hp1)" (is "_ = (_, _, ?hp2)")
    and s: "attached minimal_config b sub" "u_owns_commands sub" "u_owner_gen sub = g" "u_last_frame sub = 0" "u_next_cmd sub = 1"
      "u_min_read_ns sub = 0" "u_last_progress sub = clk' 0" "u_stale_ns sub = 500000000" by auto
  have same: "same_but_owner (m_hdr (?hp1 b)) (take_claim g t (m_hdr (?hp1 b)))" by (simp add: same_but_owner_def)
  have "pub_at b ?pub ?hp2" by (rule pub_at_owner[OF at same])
  moreover have "owner_ok sub (?hp2 b)" using s by (simp add: owner_ok_def take_claim_def)
  moreover have "h_shutdown (m_hdr (?hp2 b)) = 0" using z(2) by (simp add: take_claim_def)
  moreover have "ring_queue minimal_config d (?hp2 b) = []" for d
    using seg_inv_init(2)[OF minimal_config_valid minimal_total] by simp
  moreover have "p_cfg ?pub = minimal_config" "p_pending ?pub = None" "p_frame_id ?pub = 0" "p_min_interval_ns ?pub = 0"
    by (simp_all add: new_publisher_def LLPublisher_new_def)
  ultimately have "minimal_ready b ?pub sub ?hp2" using s unfolding minimal_ready_def by blast
  then show ?thesis using c o s(7) by blast
qed

text \<open>The frame in place is \<open>publish\<close> of the image, and the reader finds it.\<close>

lemma minimal_publishes:
  assumes "minimal_ready b pub sub hp" and "minimal_frame clk pub hp = (pub', hp')"
  shows "publish (Some minimal_image) 128 64 0 clk pub hp = (True, pub', hp')"
proof -
  have at: "pub_at b pub hp" "p_pending pub = None" "publish_due clk pub" and c: "p_cfg pub = minimal_config" and f0: "p_frame_id pub = 0"
    using assms(1) by (simp_all add: minimal_ready_def publish_due_def)
  have f: "fits (p_cfg pub) 128 64" by (simp add: c fits_def)
  obtain dst m1 hp1 where bw: "begin_write 128 64 clk pub hp = (Some dst, m1, hp1)" and m1: "p_hdr m1 = Some b"
    using begin_write_ok[OF at f] pub_atD(4)[OF at(1)] by (simp add: Let_def)
  have "length minimal_image = unat (128 :: u32) * unat (64 :: u32) * unat (cfg_bytes_per_pixel (p_cfg pub))" by (simp add: c)
  note z = zero_copy[OF at f this bw]
  have "raster minimal_pixel dst 128 0 (unat (64 :: u32)) (m_bytes (hp1 b)) = write_bytes (m_bytes (hp1 b)) dst minimal_image"
    unfolding minimal_image_def by (rule raster_whole) (simp add: minimal_pixel_def)
  then show ?thesis using z bw m1 assms(2) by (simp add: minimal_frame_def)
qed

text \<open>Producer and consumer after the frame went through.\<close>

definition minimal_read :: "oid \<Rightarrow> LLPublisher \<Rightarrow> LLSubscriber \<Rightarrow> heap \<Rightarrow> bool" where
  "minimal_read b pub sub hp \<longleftrightarrow> pub_at b pub hp \<and> p_cfg pub = minimal_config \<and> attached minimal_config b sub \<and>
     owner_ok sub (hp b) \<and> (\<forall>d. ring_queue minimal_config d (hp b) = []) \<and> u_next_cmd sub = 1"

lemma minimal_reads_ok:
  assumes "minimal_ready b (mn_pub s0) (mn_sub s0) hp" and "minimal_frame clk (mn_pub s0) hp = (pub, hp1)"
    and "t 3 0 - u_last_progress (mn_sub s0) < 500000000" and "t 4 0 - u_last_progress (mn_sub s0) < 500000000"
    and "t 6 0 - t 5 1 < 500000000" and "t 7 0 - t 5 1 < 500000000"
    and "info = published_info minimal_config 1 (clk 1) 128 64" and "s = s0\<lparr>mn_pub := pub\<rparr>"
  shows "\<exists>sub hp'. minimal_reads ops t s k hp1 =
      ((minimal_buffer, info),
       s\<lparr>mn_sub := sub, mn_events := mn_events s @ [M_Frame info, M_NoNewFrame]\<rparr>, k, hp') \<and> minimal_read b pub sub hp'"
proof -
  note rd = assms(1)[unfolded minimal_ready_def]
  have at: "pub_at b (mn_pub s0) hp" "p_pending (mn_pub s0) = None" "publish_due clk (mn_pub s0)"
    and c: "p_cfg (mn_pub s0) = minimal_config" and f0: "p_frame_id (mn_pub s0) = 0"
    and sub: "attached minimal_config b (mn_sub s0)" "owner_ok (mn_sub s0) (hp b)" "u_last_frame (mn_sub s0) = 0" "u_next_cmd (mn_sub s0) = 1"
      "u_min_read_ns (mn_sub s0) = 0" "u_stale_ns (mn_sub s0) = 500000000"
    using rd by (simp_all add: publish_due_def)
  have f: "fits (p_cfg (mn_pub s0)) 128 64" by (simp add: c fits_def)
  have len: "(unat (64 :: u32) - 1) * unat (128 * cfg_bytes_per_pixel (p_cfg (mn_pub s0))) +
      unat (128 :: u32) * unat (cfg_bytes_per_pixel (p_cfg (mn_pub s0))) \<le> length minimal_image" by (simp add: c)
  have fid: "unat (p_frame_id (mn_pub s0)) + 1 < 2 ^ 62" by (simp add: f0)
  define j where "j = next_slot (mn_pub s0)"
  have st: "128 * cfg_bytes_per_pixel (p_cfg (mn_pub s0)) = (if (0 :: u32) = 0 then 128 * cfg_bytes_per_pixel (p_cfg (mn_pub s0)) else 0)"
    by simp
  note pc = published_current[OF at f st len fid minimal_publishes[OF assms(1,2)] c[symmetric] j_def refl refl, simplified f0]
  let ?sub = "after_read (t 5 1) info (mn_sub s0)" and ?hp = "upd_hdr b (beat (t 7 1)) hp1"
  have ow: "owner_ok (mn_sub s0) (hp1 b)" "owner_ok ?sub (hp1 b)" using sub(2) pc(17) by (simp_all add: owner_ok_def after_read_def)
  have px: "slot_bytes minimal_config (hp1 b) j = minimal_image" using pc(11) by (simp add: c image_rows_tight)
  have si: "slot_info (slot_of minimal_config (hp1 b) j) = info" using pc(10) assms(7) by simp
  have r1: "read_latest_vec ops [] (t 3) (t 4) (t 5) calm [] (mn_sub s0) k hp1 =
      ((Read_Ok, minimal_buffer, Some info), ?sub, k, upd_hdr b (beat (t 4 1)) hp1)"
  proof -
    have n: "unat (s_payload_bytes (slot_of minimal_config (hp1 b) j)) = 32768" using pc(7) by simp
    have "read_latest_vec ops [] (t 3) (t 4) (t 5) calm [] (mn_sub s0) k hp1 =
        ((Read_Ok, minimal_image @ replicate (unat (max_payload minimal_config) - 32768) 0, Some info), ?sub, k, upd_hdr b (beat (t 4 1)) hp1)"
      using pc(6) assms(3,4) sub ow(1)
      by (subst vec_current[where hp = hp1 and dst = "[]", OF sub(1) pc(1-5), unfolded n px si]) simp_all
    then show ?thesis unfolding minimal_buffer_def .
  qed
  have r2: "read_latest_vec ops [] (t 6) (t 7) (t 8) calm (minimal_buffer) ?sub k (upd_hdr b (beat (t 4 1)) hp1) =
      ((NoNewFrame, minimal_buffer, None), ?sub, k, ?hp)"
  proof -
    have "drop_bit 2 (h_latest (m_hdr (hp1 b))) = 1" using pc(2) unpack_id[of 1 j] unfolding pc(3) by (simp add: word_less_nat_alt)
    then show ?thesis using rd pc(18) assms(5-7) ow(2) sub
      by (subst vec_again[where c = minimal_config and b = b]) (simp_all add: beat_def after_read_def published_info_def attached_def)
  qed
  have "pub_at b pub ?hp"
    using pub_at_owner[OF pc(12), of "beat (t 7 1) (m_hdr (hp1 b))"] by (simp add: same_but_owner_def beat_def upd_hdr_def)
  moreover have "ring_queue minimal_config d (?hp b) = []" for d using rd pc(16)[of d] by simp
  ultimately have "minimal_read b pub ?sub ?hp"
    using pc(13) sub(1,4) ow(2) by (simp add: minimal_read_def after_read_def attached_def)
  moreover have "minimal_reads ops t s k hp1 = ((minimal_buffer, info),
       s\<lparr>mn_sub := ?sub, mn_events := mn_events s @ [M_Frame info, M_NoNewFrame]\<rparr>, k, ?hp)"
    using r1 r2 by (simp add: minimal_reads_def assms(8) say_def)
  ultimately show ?thesis by blast
qed

lemma minimal_commands_ok:
  assumes "minimal_read b (mn_pub s) (mn_sub s) hp" and "2 \<le> fuel"
  shows "\<exists>s' hp'. minimal_commands fuel clk pclks sclks (s, hp) = Some (s', hp') \<and>
    mn_events s' = mn_events s @ [M_ProducerGot 1 hello_text, M_ConsumerGot 1 ack_text]"
proof -
  note at = assms(1)[unfolded minimal_read_def]
  have a: "attached (p_cfg (mn_pub s)) b (mn_sub s)" "owner_ok (mn_sub s) (hp b)"
    "(of_nat (length hello_text) :: u32) \<le> cfg_max_command_bytes (p_cfg (mn_pub s))"
    "length (ring_queue (p_cfg (mn_pub s)) Upstream (hp b)) < unat (cfg_command_slots (p_cfg (mn_pub s)))"
    using at texts_fit(5) by simp_all
  let ?sub = "(mn_sub s)\<lparr>u_next_cmd := 2, u_sent := u_sent (mn_sub s) + 1\<rparr>"
  from sub_send_step[where hp = hp and data = "Some hello_text", OF _ a(1,2) texts_fit(4) a(3,4), of kHello 0 clk] at obtain hp1 where
    sd: "sub_send kHello (Some hello_text) (of_nat (length hello_text)) 0 clk (mn_sub s) hp = (Some 1, ?sub, hp1)"
    and at1: "pub_at b (mn_pub s) hp1" "owner_ok (mn_sub s) (hp1 b)"
    and q1: "ring_queue minimal_config Upstream (hp1 b) = [mk_command kHello hello_text 1 0 (clk 1)]"
      "ring_queue minimal_config Downstream (hp1 b) = []"
    by (auto simp: texts_fit(6))
  let ?s = "s\<lparr>mn_sub := ?sub\<rparr>"
  have "minimal_pub_inv b (m_hdr (hp1 b)) (?s, hp1)" using at at1 by (simp add: minimal_pub_inv_def)
  from minimal_pub_loop.drains[OF this, of fuel pclks] assms(2) q1 obtain s2 hp2 where
    d2: "drain fuel minimal_pub_recv (minimal_pub_handle pclks) (?s, hp1) = Some (s2, hp2)"
    and i2: "minimal_pub_inv b (m_hdr (hp1 b)) (s2, hp2)"
    and v2: "minimal_pub_view b (s2, hp2) = minimal_pub_step (mk_command kHello hello_text 1 0 (clk 1)) (minimal_pub_view b (?s, hp1))"
    by auto
  have v: "mn_events s2 = mn_events s @ [M_ProducerGot 1 hello_text]" "mn_sub s2 = ?sub" "replies minimal_config (hp2 b) = [(kHelloAck, ack_text, 1)]"
    using v2 q1 by (simp_all add: minimal_pub_view_def minimal_pub_step_def replies_def enq_reply_def mk_command_def)
  then obtain x where x: "ring_queue minimal_config Downstream (hp2 b) = [x]" "cmd_data x = ack_text" "cmd_reply_to x = 1"
    by (auto simp: replies_def reply_view_def)
  have "m_hdr (hp2 b) = m_hdr (hp1 b)" "seg_inv minimal_config (hp2 b)"
    using i2 pub_atD(3)[of b "mn_pub s2" hp2] by (simp_all add: minimal_pub_inv_def)
  then have "minimal_sub_inv b (s2, hp2)" using at at1(2) v(2) by (simp add: minimal_sub_inv_def owner_ok_def)
  from minimal_sub_loop.drains[OF this, of fuel sclks] assms(2) x obtain s3 hp3 where
    "drain fuel (minimal_sub_recv sclks) minimal_sub_handle (s2, hp2) = Some (s3, hp3)"
    "mn_events s3 = mn_events s2 @ [M_ConsumerGot 1 ack_text]"
    by (auto simp: minimal_sub_step_def)
  then show ?thesis using sd d2 v(1) by (simp add: minimal_commands_def sub_send_text_def)
qed

text \<open>The bitmap of what was read shows the frame that was rendered, its first row on top.\<close>

lemma nth_minimal_buffer:
  assumes "x < 128" and "y < 64" and "c < 3"
  shows "minimal_buffer ! (y * 512 + x * 4 + c) = [of_nat (2 * x), of_nat (4 * y), 0x40] ! c"
proof -
  have "y * 512 + x * 4 + c < 32768" using assms by linarith
  then have "minimal_buffer ! (y * 512 + x * 4 + c) = minimal_image ! (y * 512 + x * 4 + c)"
    by (simp add: minimal_buffer_def nth_append)
  also have "\<dots> = minimal_pixel (of_nat x) (of_nat y) ! c"
  proof -
    have u: "unat (128 :: u32) = 128" "unat (64 :: u32) = 64" "\<And>x y. length (minimal_pixel x y) = 4"
      by (simp_all add: minimal_pixel_def)
    then show ?thesis using nth_raster_image[of minimal_pixel x 128 y 64 c] assms unfolding u minimal_image_def by (simp add: add.assoc)
  qed
  also have "\<dots> = [of_nat (2 * x), of_nat (4 * y), 0x40] ! c"
  proof -
    have u: "ucast (of_nat n :: u32) = (of_nat n :: u8)" if "n < 2 ^ 32" for n
      using that by (simp add: unsigned_of_nat take_bit_nat_eq_self)
    have "c = 0 \<or> c = 1 \<or> c = 2" using assms(3) by linarith
    then show ?thesis using u[of "2 * x"] u[of "4 * y"] assms by (auto simp: minimal_pixel_def mult.commute)
  qed
  finally show ?thesis .
qed

definition minimal_bitmap :: "u8 list \<Rightarrow> bool" where
  "minimal_bitmap f \<longleftrightarrow> length f = 54 + 64 * 384 \<and> take 54 f = bmp_header 128 64 24576 \<and>
     (\<forall>x<128. \<forall>y<64. \<forall>c<3. f ! (54 + (63 - y) * 384 + (3 * x + c)) = [of_nat (2 * x), of_nat (4 * y), 0x40] ! c)"

lemma minimal_writes:
  assumes "io_open io" and "io_flush io" and "\<And>i. 384 \<le> io_takes io i"
  shows "\<exists>f. write_bmp_bgra io (Some minimal_buffer) 128 64 512 True = (True, Some f) \<and> minimal_bitmap f"
proof -
  let ?f = "bmp_file minimal_buffer 128 64 512 True"
  obtain ok out where w: "write_bmp_bgra io (Some minimal_buffer) 128 64 512 True = (ok, out)" by force
  have "54 \<le> io_takes io 0" using assms(3)[of 0] by simp
  with bmp_result[OF w, of 512 384] assms have "ok" "out = Some ?f" by (simp_all add: bmp_pad_def)
  moreover have "minimal_bitmap ?f"
    using bmp_file_contents(1-3)[where width = 128 and height = 64 and pr = 384 and b = minimal_buffer and st = 512
        and flip = True, OF _ _ _ refl] nth_minimal_buffer
    by (simp add: minimal_bitmap_def bmp_pad_def bmp_header_bytes bmp_row_no_def)
  ultimately show ?thesis using w by simp
qed

section \<open>Property\<close>

text \<open>
  C24.  The minimal program works: started while the name \<open>minimal_demo\<close> is free, on a machine whose
  clock does not stall for half a second between the calls and whose disk takes the bitmap, it
  connects, reads a frame of the geometry it rendered in place, finds no second new frame, gets its
  greeting delivered and acknowledged under the greeting's id, and exits with 0.  The bitmap it
  writes from the buffer it read into holds the picture it rendered: blue, green and red of every
  pixel are those that the rendering loop computes for it, in the row where a viewer looks for it.
\<close>

theorem minimal_runs:
  assumes "segment_store ok bound alloc pf ops" and "ok k" and "bound k ''minimal_demo'' = None" and "2 \<le> fuel"
    and "t 3 0 - t 1 0 < 500000000" and "t 4 0 - t 1 0 < 500000000"
    and "t 6 0 - t 5 1 < 500000000" and "t 7 0 - t 5 1 < 500000000"
    and "io_open io" and "io_flush io" and "\<And>i. 384 \<le> io_takes io i"
  shows "\<exists>k' hp' f. minimal_main fuel pf ops t wall pclks sclks io k hp =
    Some ((0, [M_Bytes (segment_bytes minimal_config), M_Connected True, M_Frame (published_info minimal_config 1 (t 2 1) 128 64),
        M_NoNewFrame, M_ProducerGot 1 hello_text, M_ConsumerGot 1 ack_text, M_Wrote], Some f), k', hp') \<and>
    length f = 54 + 64 * 384 \<and> take 54 f = bmp_header 128 64 24576 \<and>
    (\<forall>x<128. \<forall>y<64. \<forall>c<3. f ! (54 + (63 - y) * 384 + (3 * x + c)) = [of_nat (2 * x), of_nat (4 * y), 0x40] ! c)"
proof -
  note start = minimal_starts[where ok = ok and k = k and bound = bound, OF assms(1-3), of "t 0" wall hp "t 1"]
  from start obtain pub k1 hp1 sub k2 hp2 b where
    c: "publisher_create pf ops minimal_config (t 0) wall k hp = ((Some pub, LLStatus_Ok), k1, hp1)"
    and o: "subscriber_open ops [] ''minimal_demo'' (t 1) k1 hp1 = (sub, k2, hp2)"
    and rd: "minimal_ready b pub sub hp2" and lp: "u_last_progress sub = t 1 0" by (elim exE conjE)
  have cn: "connected sub" using rd by (simp add: minimal_ready_def attached_def connected_def)
  obtain pub1 hp3 where fr: "minimal_frame (t 2) pub hp2 = (pub1, hp3)" by force
  let ?es = "[M_Bytes (segment_bytes minimal_config), M_Connected True]"
  let ?init = "\<lparr>mn_pub = pub, mn_sub = sub, mn_events = ?es\<rparr>" and ?s = "\<lparr>mn_pub = pub1, mn_sub = sub, mn_events = ?es\<rparr>"
  let ?i = "published_info minimal_config 1 (t 2 1) 128 64" and ?px = "minimal_buffer"
  have pre: "minimal_ready b (mn_pub ?init) (mn_sub ?init) hp2" "minimal_frame (t 2) (mn_pub ?init) hp2 = (pub1, hp3)"
    "t 3 0 - u_last_progress (mn_sub ?init) < 500000000" "t 4 0 - u_last_progress (mn_sub ?init) < 500000000"
    "?s = ?init\<lparr>mn_pub := pub1\<rparr>"
    using rd fr assms(5,6) by (simp_all add: lp)
  from minimal_reads_ok[where s = ?s, OF pre(1-4) assms(7,8) refl pre(5), of ops k2] obtain sub1 hp4 where
    r: "minimal_reads ops t ?s k2 hp3 = ((?px, ?i), ?s\<lparr>mn_sub := sub1, mn_events := mn_events ?s @ [M_Frame ?i, M_NoNewFrame]\<rparr>, k2, hp4)"
    and mr: "minimal_read b pub1 sub1 hp4" by (elim exE conjE)
  let ?done = "?s\<lparr>mn_sub := sub1, mn_events := mn_events ?s @ [M_Frame ?i, M_NoNewFrame]\<rparr>"
  have "minimal_read b (mn_pub ?done) (mn_sub ?done) hp4" using mr by simp
  from minimal_commands_ok[OF this assms(4), of "t 9" pclks sclks] obtain s2 hp5 where
    cm: "minimal_commands fuel (t 9) pclks sclks (?done, hp4) = Some (s2, hp5)"
    and e: "mn_events s2 = mn_events ?done @ [M_ProducerGot 1 hello_text, M_ConsumerGot 1 ack_text]" by blast
  obtain f where wr: "write_bmp_bgra io (Some ?px) 128 64 512 True = (True, Some f)" and f: "minimal_bitmap f"
    using minimal_writes[OF assms(9-11)] by blast
  have i: "fi_width ?i = 128" "fi_height ?i = 64" "fi_stride ?i = 512" by (simp_all add: published_info_def)
  obtain k3 hp6 where d1: "subscriber_destroy ops (mn_sub s2) k2 hp5 = (k3, hp6)" by force
  obtain k4 hp7 where d2: "publisher_destroy pf ops (mn_pub s2) k3 hp6 = (k4, hp7)" by force
  show ?thesis
    unfolding minimal_main_def c prod.case option.case minimal_config_simps(4) o fr Let_def cn[THEN Eq_TrueI] r cm i wr
    using d1 d2 e f by (simp add: say_def minimal_bitmap_def)
qed

theorem minimal_runs_witness:
  "\<exists>k hp f. minimal_main 2 Posix posix_ops (\<lambda>_ _. 5) 9 (\<lambda>_ _. 5) (\<lambda>_ _. 5)
      \<lparr>io_open = True, io_takes = (\<lambda>_. 400), io_flush = True\<rparr> posix_empty (\<lambda>_. smem_zero) =
    Some ((0, [M_Bytes (segment_bytes minimal_config), M_Connected True, M_Frame (published_info minimal_config 1 5 128 64),
        M_NoNewFrame, M_ProducerGot 1 hello_text, M_ConsumerGot 1 ack_text, M_Wrote], Some f), k, hp) \<and>
    take 3 (drop (54 + 63 * 384 + 30) f) = [20, 0, 0x40]"
proof -
  let ?io = "\<lparr>io_open = True, io_takes = (\<lambda>_. 400), io_flush = True\<rparr>"
  from minimal_runs[OF posix.segment_store_axioms posix_empty_ok, where fuel = 2 and t = "\<lambda>_ _. 5" and io = ?io and wall = 9
      and pclks = "\<lambda>_ _. 5" and sclks = "\<lambda>_ _. 5" and hp = "\<lambda>_. smem_zero"]
  obtain k hp f where r: "minimal_main 2 Posix posix_ops (\<lambda>_ _. 5) 9 (\<lambda>_ _. 5) (\<lambda>_ _. 5) ?io posix_empty (\<lambda>_. smem_zero) =
      Some ((0, [M_Bytes (segment_bytes minimal_config), M_Connected True, M_Frame (published_info minimal_config 1 5 128 64),
        M_NoNewFrame, M_ProducerGot 1 hello_text, M_ConsumerGot 1 ack_text, M_Wrote], Some f), k, hp)"
    and l: "length f = 54 + 64 * 384"
    and px: "\<forall>x<128. \<forall>y<64. \<forall>c<3. f ! (54 + (63 - y) * 384 + (3 * x + c)) = [of_nat (2 * x), of_nat (4 * y), 0x40] ! c"
    by (auto simp: posix_empty_bound)
  have "take 3 (drop n f) = [f ! n, f ! (n + 1), f ! (n + 2)]" if "n + 2 < length f" for n
    using that by (simp add: numeral_eq_Suc Cons_nth_drop_Suc[symmetric])
  from this[of "54 + 63 * 384 + 30"] px[rule_format, of 10 0 0] px[rule_format, of 10 0 1] px[rule_format, of 10 0 2]
  have "take 3 (drop (54 + 63 * 384 + 30) f) = [20, 0, 0x40]" by (simp add: l)
  with r show ?thesis by blast
qed

end
