(* ===== verification/Demo_Sender.thy ===== *)
theory Demo_Sender
  imports Command_Loop
begin

text \<open>
  \<open>examples/sender.cpp\<close>: the demo producer.  It drains its command queue, answers pings and size
  requests, and renders the next frame straight into the slot.  The command loop refines a small server on the
  requested size and the queue of replies; a frame is the gradient the program draws.
  Console output and sleeping are left out.
\<close>

section \<open>State and set-up\<close>

record sender =
  sn_pub :: LLPublisher
  sn_w :: u32
  sn_h :: u32

definition sender_config :: LLConfig where
  "sender_config = LLConfig_default\<lparr>cfg_name := ''shmframe_demo'', cfg_max_width := 1280, cfg_max_height := 720\<rparr>"

definition sender_start :: "platform \<Rightarrow> 'k bip_ops \<Rightarrow> u32 \<Rightarrow> u32 \<Rightarrow> clock \<Rightarrow> u64 \<Rightarrow> 'k \<Rightarrow> heap
    \<Rightarrow> (string + sender) \<times> 'k \<times> heap" where
  "sender_start pf ops w h clk wall k hp =
     (case publisher_create pf ops sender_config clk wall k hp of
        ((None, st), k1, hp1) \<Rightarrow> (Inl (''publisher failed: '' @ to_string st), k1, hp1)
      | ((Some pub, st), k1, hp1) \<Rightarrow> (Inr \<lparr>sn_pub = pub, sn_w = w, sn_h = h\<rparr>, k1, hp1))"

section \<open>Commands\<close>

definition resized_note :: "u32 \<Rightarrow> u32 \<Rightarrow> u8 list" where
  "resized_note w h = bytes_of (''resized to '' @ decimal (unat w) @ ''x'' @ decimal (unat h))"

definition rejected_note :: "u8 list" where
  "rejected_note = bytes_of (''rejected (max '' @ decimal (unat (cfg_max_width sender_config)) @ ''x'' @
     decimal (unat (cfg_max_height sender_config)) @ '')'')"

text \<open>The body of the loop; \<open>clks i\<close> are the clock readings while the i-th command is handled.\<close>

definition sender_handle :: "(u64 \<Rightarrow> clock) \<Rightarrow> LLShmCommand \<Rightarrow> sender \<times> heap \<Rightarrow> sender \<times> heap" where
  "sender_handle clks cmd st =
     (case st of (s, hp) \<Rightarrow>
        let clk = clks (p_recvd (sn_pub s)) in
        if cmd_type cmd = kPing then
          (case pub_send kPong None 0 (cmd_id cmd) clk (sn_pub s) hp of (_, pub, hp1) \<Rightarrow> (s\<lparr>sn_pub := pub\<rparr>, hp1))
        else if cmd_type cmd = kSetSize then
          (case proto_unpack_size (cmd_data cmd) (length (cmd_data cmd)) of
             Some (nw, nh) \<Rightarrow>
               if ucast nw * ucast nh * 4 \<le> max_payload sender_config \<and> nw \<noteq> 0 \<and> nh \<noteq> 0 then
                 let s1 = s\<lparr>sn_w := nw, sn_h := nh\<rparr>; note = resized_note nw nh in
                 (case pub_send kSizeAck (Some note) (of_nat (length note)) (cmd_id cmd) clk (sn_pub s1) hp of
                    (_, pub, hp1) \<Rightarrow> (s1\<lparr>sn_pub := pub\<rparr>, hp1))
               else
                 (case pub_send kLog (Some rejected_note) (of_nat (length rejected_note)) (cmd_id cmd) clk (sn_pub s) hp of
                    (_, pub, hp1) \<Rightarrow> (s\<lparr>sn_pub := pub\<rparr>, hp1))
           | None \<Rightarrow>
               (case pub_send kLog (Some rejected_note) (of_nat (length rejected_note)) (cmd_id cmd) clk (sn_pub s) hp of
                  (_, pub, hp1) \<Rightarrow> (s\<lparr>sn_pub := pub\<rparr>, hp1)))
        else (s, hp))"

definition sender_recv :: "sender \<times> heap \<Rightarrow> LLShmCommand option \<times> sender \<times> heap" where
  "sender_recv st = (case st of (s, hp) \<Rightarrow>
     case pub_receive (sn_pub s) hp of (r, pub, hp1) \<Rightarrow> (r, s\<lparr>sn_pub := pub\<rparr>, hp1))"

definition sender_commands :: "nat \<Rightarrow> (u64 \<Rightarrow> clock) \<Rightarrow> sender \<times> heap \<Rightarrow> (sender \<times> heap) option" where
  "sender_commands fuel clks = drain fuel sender_recv (sender_handle clks)"

section \<open>Frames\<close>

text \<open>\<open>render\<close>: four stores per pixel, at offsets computed with 64 bits.\<close>

definition sender_pixel :: "u32 \<Rightarrow> u32 \<Rightarrow> u8 \<Rightarrow> u32 \<Rightarrow> u32 \<Rightarrow> u8 list" where
  "sender_pixel w h sweep x y = [ucast (x * 255 div w), ucast (y * 255 div h), sweep, 0xFF]"

definition sender_render :: "addr \<Rightarrow> u32 \<Rightarrow> u32 \<Rightarrow> u64 \<Rightarrow> bytemem \<Rightarrow> bytemem" where
  "sender_render dst w h frame bm = raster (sender_pixel w h (ucast (frame AND 0xFF))) dst w 0 (unat h) bm"

definition sender_frame :: "clock \<Rightarrow> sender \<times> heap \<Rightarrow> sender \<times> heap" where
  "sender_frame clk st =
     (case st of (s, hp) \<Rightarrow>
        case begin_write (sn_w s) (sn_h s) clk (sn_pub s) hp of
          (None, pub, hp1) \<Rightarrow> (s\<lparr>sn_pub := pub\<rparr>, hp1)
        | (Some dst, pub, hp1) \<Rightarrow>
            (case p_hdr pub of None \<Rightarrow> (s\<lparr>sn_pub := pub\<rparr>, hp1)
             | Some b \<Rightarrow>
                let hp2 = hp1(b := (hp1 b)\<lparr>m_bytes := sender_render dst (sn_w s) (sn_h s) (p_frame_id pub) (m_bytes (hp1 b))\<rparr>)
                in case commit 0 (\<lambda>i. clk (Suc i)) pub hp2 of (pub1, hp3) \<Rightarrow> (s\<lparr>sn_pub := pub1\<rparr>, hp3)))"

text \<open>One turn of the main loop.\<close>

definition sender_turn :: "nat \<Rightarrow> (u64 \<Rightarrow> clock) \<Rightarrow> clock \<Rightarrow> sender \<times> heap \<Rightarrow> (sender \<times> heap) option" where
  "sender_turn fuel clks clk st = map_option (sender_frame clk) (sender_commands fuel clks st)"

section \<open>The command loop as a server\<close>

text \<open>Between turns: the publisher is well formed, has no frame under way and no rate limit.\<close>

definition sender_ok :: "oid \<Rightarrow> sender \<times> heap \<Rightarrow> bool" where
  "sender_ok b st \<longleftrightarrow> pub_at b (sn_pub (fst st)) (snd st) \<and> p_cfg (sn_pub (fst st)) = sender_config \<and>
     p_pending (sn_pub (fst st)) = None \<and> p_min_interval_ns (sn_pub (fst st)) = 0"

definition sender_queue :: "oid \<Rightarrow> sender \<times> heap \<Rightarrow> LLShmCommand list" where
  "sender_queue b st = ring_queue sender_config Upstream (snd st b)"

text \<open>What the peer can observe: the size in force and the replies waiting for it.\<close>

definition sender_view :: "oid \<Rightarrow> sender \<times> heap \<Rightarrow> (u32 \<times> u32) \<times> (u32 \<times> u8 list \<times> u64) list" where
  "sender_view b st = ((sn_w (fst st), sn_h (fst st)), replies sender_config (snd st b))"

definition size_ok :: "u32 \<times> u32 \<Rightarrow> bool" where
  "size_ok wh = (case wh of (w, h) \<Rightarrow> w \<noteq> 0 \<and> h \<noteq> 0 \<and> ucast w * ucast h * 4 \<le> max_payload sender_config)"

definition sender_step :: "LLShmCommand \<Rightarrow> (u32 \<times> u32) \<times> (u32 \<times> u8 list \<times> u64) list
    \<Rightarrow> (u32 \<times> u32) \<times> (u32 \<times> u8 list \<times> u64) list" where
  "sender_step cmd v =
     (case v of (wh, q) \<Rightarrow>
        if cmd_type cmd = kPing then (wh, enq_reply sender_config (kPong, [], cmd_id cmd) q)
        else if cmd_type cmd = kSetSize then
          (case proto_unpack_size (cmd_data cmd) (length (cmd_data cmd)) of
             Some wh' \<Rightarrow> if size_ok wh'
               then (wh', enq_reply sender_config (kSizeAck, resized_note (fst wh') (snd wh'), cmd_id cmd) q)
               else (wh, enq_reply sender_config (kLog, rejected_note, cmd_id cmd) q)
           | None \<Rightarrow> (wh, enq_reply sender_config (kLog, rejected_note, cmd_id cmd) q))
        else (wh, q))"

lemma sender_config_simps [simp]:
  "cfg_max_command_bytes sender_config = 512" "cfg_command_slots sender_config = 64" "cfg_bytes_per_pixel sender_config = 4"
  "cfg_max_width sender_config = 1280" "cfg_max_height sender_config = 720" "cfg_name sender_config = ''shmframe_demo''"
  "cfg_slot_count sender_config = 3" "max_payload sender_config = 3686400"
  by (simp_all add: sender_config_def LLConfig_default_def max_payload_def)

lemma sender_config_valid: "config_valid sender_config"
  by (simp add: config_valid_def k_defs)

lemma length_notes: "length (resized_note w h) \<le> 64" "length rejected_note \<le> 64"
  using length_decimal32[of w] length_decimal32[of h] length_decimal32[of "1280"] length_decimal32[of "720"]
  by (simp_all add: resized_note_def rejected_note_def)

lemma note_fits:
  assumes "length note \<le> 64"
  shows "length (send_data (Some note) (of_nat (length note))) = unat (of_nat (length note) :: u32)"
    "(of_nat (length note) :: u32) \<le> 512" "send_data (Some note) (of_nat (length note)) = note"
  using assms by (simp_all add: send_data_def unat_of_nat32 word_le_unat)

lemma sender_reply:
  assumes "sender_ok b (s, hp)" and "length (send_data data sz) = unat sz" and "sz \<le> 512"
    and "pub_send ty data sz reply_to clk (sn_pub s) hp = (r, pub, hp1)"
  shows "sender_ok b (s\<lparr>sn_pub := pub\<rparr>, hp1) \<and> m_hdr (hp1 b) = m_hdr (hp b) \<and> sender_queue b (s\<lparr>sn_pub := pub\<rparr>, hp1) = sender_queue b (s, hp) \<and>
    sender_view b (s\<lparr>sn_pub := pub\<rparr>, hp1) =
      (fst (sender_view b (s, hp)), enq_reply sender_config (ty, send_data data sz, reply_to) (snd (sender_view b (s, hp))))"
  using pub_send_reply[OF _ assms(2) _ assms(4), of b] assms(1,3)
  by (simp add: sender_ok_def sender_queue_def sender_view_def)

text \<open>The loop does not touch the segment's header either.\<close>

definition sender_inv :: "oid \<Rightarrow> LLHeader \<Rightarrow> sender \<times> heap \<Rightarrow> bool" where
  "sender_inv b h st \<longleftrightarrow> sender_ok b st \<and> m_hdr (snd st b) = h"

interpretation sender_loop: command_loop sender_recv "sender_handle clks" "sender_queue b" "sender_inv b h" "sender_view b" sender_step
  for clks b h
proof unfold_locales
  fix st :: "sender \<times> heap"
  assume inv: "sender_inv b h st"
  then have ok: "sender_ok b st" by (simp add: sender_inv_def)
  obtain s hp where st: "st = (s, hp)" by force
  have at: "pub_at b (sn_pub s) hp" "p_cfg (sn_pub s) = sender_config" using ok by (simp_all add: st sender_ok_def)
  show "\<exists>s'. sender_recv st = (None, s') \<and> sender_inv b h s' \<and> sender_queue b s' = [] \<and> sender_view b s' = sender_view b st"
    if "sender_queue b st = []"
    using pub_receive_loop(1)[OF at(1)] that at inv by (simp add: st sender_recv_def sender_queue_def)
  show "\<exists>s'. sender_recv st = (Some x, s') \<and> sender_inv b h s' \<and> sender_queue b s' = q \<and> sender_view b s' = sender_view b st"
    if "sender_queue b st = x # q" for x q
    using pub_receive_loop(2)[OF at(1), of x q] that at inv
    by (auto simp: st sender_inv_def sender_recv_def sender_queue_def sender_ok_def sender_view_def)
  show "sender_inv b h (sender_handle clks x st) \<and> sender_queue b (sender_handle clks x st) = sender_queue b st \<and>
      sender_view b (sender_handle clks x st) = sender_step x (sender_view b st)" for x
  proof -
    let ?clk = "clks (p_recvd (sn_pub s))"
    have ok': "sender_ok b (s\<lparr>sn_w := w, sn_h := h\<rparr>, hp)" for w h using ok by (simp add: st sender_ok_def)
    note log = sender_reply[OF ok[unfolded st] note_fits(1,2)[OF length_notes(2)], of kLog "cmd_id x" ?clk]
    consider (ping) "cmd_type x = kPing"
      | (size) w h where "cmd_type x = kSetSize" "proto_unpack_size (cmd_data x) (length (cmd_data x)) = Some (w, h)" "size_ok (w, h)"
      | (bad) "cmd_type x = kSetSize" "\<forall>wh. proto_unpack_size (cmd_data x) (length (cmd_data x)) = Some wh \<longrightarrow> \<not> size_ok wh"
      | (other) "cmd_type x \<noteq> kPing" "cmd_type x \<noteq> kSetSize" by fastforce
    then show ?thesis
    proof cases
      case ping
      with inv sender_reply[OF ok[unfolded st], of None 0 kPong "cmd_id x" ?clk] show ?thesis
        by (auto simp: st sender_inv_def sender_handle_def sender_step_def sender_view_def send_data_def split: prod.splits)
    next
      case (size w h)
      with inv sender_reply[OF ok'[where w = w and h = h] note_fits(1,2)[OF length_notes(1)[of w h]], of kSizeAck "cmd_id x" ?clk]
        note_fits(3)[OF length_notes(1)] show ?thesis
        by (auto simp: st sender_inv_def sender_handle_def sender_step_def sender_view_def sender_queue_def size_ok_def opcode_defs Let_def split: prod.splits)
    next
      case bad
      with inv log note_fits(3)[OF length_notes(2)] show ?thesis
        by (auto simp: st sender_inv_def sender_handle_def sender_step_def sender_view_def size_ok_def opcode_defs Let_def
            split: prod.splits option.splits)
    next
      case other
      with inv show ?thesis by (simp add: st sender_handle_def sender_step_def sender_view_def Let_def)
    qed
  qed
qed

section \<open>The frame that is drawn\<close>

definition sender_image :: "u32 \<Rightarrow> u32 \<Rightarrow> u64 \<Rightarrow> u8 list" where
  "sender_image w h frame = raster_image (sender_pixel w h (ucast (frame AND 0xFF))) w h"

lemma length_sender_pixel [simp]: "length (sender_pixel w h sweep x y) = 4"
  by (simp add: sender_pixel_def)

lemma sender_render_eq: "sender_render dst w h frame bm = write_bytes bm dst (sender_image w h frame)"
  by (simp add: sender_render_def sender_image_def raster_whole)

lemma sender_fits: "fits sender_config w h \<Longrightarrow> size_ok (w, h)"
proof -
  assume f: "fits sender_config w h"
  have v: "config_valid sender_config" "L_total_size (compute_layout sender_config) \<le> kMaxSegment"
    by (simp_all add: sender_config_valid compute_layout_def align_up_def k_defs)
  show ?thesis using fits_exact(2)[OF v f] f by (simp add: size_ok_def fits_def frame_bytes_def)
qed

lemma sender_okD:
  assumes "sender_ok b (s, hp)"
  shows "pub_at b (sn_pub s) hp" "p_cfg (sn_pub s) = sender_config" "p_pending (sn_pub s) = None" "publish_due clk (sn_pub s)"
  using assms by (simp_all add: sender_ok_def publish_due_def)

text \<open>A sender that started is in order.\<close>

lemma sender_start_ok:
  assumes "sender_start pf ops w h clk wall k hp = (Inr s, k', hp')"
  shows "\<exists>b. sender_ok b (s, hp') \<and> sn_w s = w \<and> sn_h s = h"
proof -
  obtain pub st where c: "publisher_create pf ops sender_config clk wall k hp = ((Some pub, st), k', hp')"
    and s: "s = \<lparr>sn_pub = pub, sn_w = w, sn_h = h\<rparr>"
    using assms by (auto simp: sender_start_def split: prod.splits option.splits)
  from publisher_create_Some[OF c] obtain b seg where "pub = new_publisher sender_config seg b"
    "hp' = hp(b := init_segment sender_config (make_session_id wall (clk 1)) (clk 2) (hp b))"
    "config_valid sender_config" "L_total_size (compute_layout sender_config) \<le> kMaxSegment" by auto
  then have "sender_ok b (s, hp')"
    by (simp add: s sender_ok_def new_publisher_at) (simp add: new_publisher_def LLPublisher_new_def)
  then show ?thesis by (auto simp: s)
qed

text \<open>A frame that fits is \<open>publish\<close> of the gradient.\<close>

lemma sender_frame_eq:
  assumes "sender_ok b (s, hp)" and "fits sender_config (sn_w s) (sn_h s)"
  shows "\<exists>pub hp'. publish (Some (sender_image (sn_w s) (sn_h s) (p_frame_id (sn_pub s)))) (sn_w s) (sn_h s) 0 clk (sn_pub s) hp =
      (True, pub, hp') \<and> sender_frame clk (s, hp) = (s\<lparr>sn_pub := pub\<rparr>, hp')"
proof -
  note at = sender_okD(1-3)[OF assms(1)] sender_okD(4)[OF assms(1), of clk]
  have f: "fits (p_cfg (sn_pub s)) (sn_w s) (sn_h s)" using assms(2) at(2) by simp
  obtain dst m1 hp1 where bw: "begin_write (sn_w s) (sn_h s) clk (sn_pub s) hp = (Some dst, m1, hp1)"
    and m1: "p_hdr m1 = Some b" "p_frame_id m1 = p_frame_id (sn_pub s)"
    using begin_write_ok[OF at(1,3,4) f] pub_atD(4)[OF at(1)] by (simp add: Let_def)
  let ?bs = "sender_image (sn_w s) (sn_h s) (p_frame_id (sn_pub s))"
  have "length ?bs = unat (sn_w s) * unat (sn_h s) * unat (cfg_bytes_per_pixel (p_cfg (sn_pub s)))"
    by (simp add: sender_image_def length_raster_image at(2))
  note z = zero_copy[OF at(1,3,4) f this bw]
  show ?thesis
    using z bw m1 by (simp add: sender_frame_def sender_render_eq Let_def split: prod.splits)
qed

text \<open>What such a frame leaves behind.\<close>

lemma sender_frame_facts:
  assumes "sender_ok b (s, hp)" and "fits sender_config (sn_w s) (sn_h s)"
  shows "\<exists>pub hp'. sender_frame clk (s, hp) = (s\<lparr>sn_pub := pub\<rparr>, hp') \<and> sender_ok b (s\<lparr>sn_pub := pub\<rparr>, hp') \<and>
    p_frame_id pub = p_frame_id (sn_pub s) + 1 \<and> (\<forall>d. ring_queue sender_config d (hp' b) = ring_queue sender_config d (hp b)) \<and>
    slot_frame sender_config (hp' b) (next_slot (sn_pub s)) =
      (published_info sender_config (p_frame_id (sn_pub s) + 1) (clk 1) (sn_w s) (sn_h s),
       sender_image (sn_w s) (sn_h s) (p_frame_id (sn_pub s)))"
proof -
  note at = sender_okD(1-3)[OF assms(1)] sender_okD(4)[OF assms(1), of clk]
  let ?bs = "sender_image (sn_w s) (sn_h s) (p_frame_id (sn_pub s))"
  from sender_frame_eq[OF assms(1,2)] obtain pub hp' where
    p: "publish (Some ?bs) (sn_w s) (sn_h s) 0 clk (sn_pub s) hp = (True, pub, hp')"
    and fr: "sender_frame clk (s, hp) = (s\<lparr>sn_pub := pub\<rparr>, hp')" by blast
  have len: "length ?bs = unat (sn_h s) * (unat (sn_w s) * 4)" by (simp add: sender_image_def length_raster_image)
  have f: "fits (p_cfg (sn_pub s)) (sn_w s) (sn_h s)" using assms(2) at(2) by simp
  have st: "unat (sn_w s * 4) = unat (sn_w s) * 4"
    using fits_exact(4)[OF pub_atD(1,2)[OF at(1)] f] at(2) by simp
  have h: "0 < unat (sn_h s)" using assms(2) by (simp add: fits_def unat_gt_0)
  have le: "(unat (sn_h s) - 1) * unat (sn_w s * 4) + unat (sn_w s) * 4 \<le> length ?bs"
    unfolding len st using h by (cases "unat (sn_h s)") simp_all
  have e: "sn_w s * 4 = (if (0 :: u32) = 0 then sn_w s * cfg_bytes_per_pixel (p_cfg (sn_pub s)) else 0)"
    "(unat (sn_h s) - 1) * unat (sn_w s * 4) + unat (sn_w s) * unat (cfg_bytes_per_pixel (p_cfg (sn_pub s))) \<le> length ?bs"
    using le by (simp_all add: at(2))
  from publish_facts[OF at(1,3,4) f e] p at(2) st
  have facts: "pub_at b pub hp'" "p_cfg pub = sender_config" "p_frame_id pub = p_frame_id (sn_pub s) + 1" "p_pending pub = None"
    "\<forall>i<3. slot_frame sender_config (hp' b) i = (if i = next_slot (sn_pub s)
       then (published_info sender_config (p_frame_id (sn_pub s) + 1) (clk 1) (sn_w s) (sn_h s),
             image_rows ?bs (unat (sn_w s) * 4) (unat (sn_w s) * 4) (unat (sn_h s)))
       else slot_frame sender_config (hp b) i)" "\<forall>d. ring_queue sender_config d (hp' b) = ring_queue sender_config d (hp b)" by auto
  have rate: "p_min_interval_ns pub = 0"
    using publish_eq[OF at(1,3,4) f e] p assms(1) by (auto simp: sender_ok_def)
  have ns: "next_slot (sn_pub s) < 3" using next_slot_lt[OF sender_config_valid] at(2) by (simp add: next_slot_def)
  have rows: "image_rows ?bs (unat (sn_w s) * 4) (unat (sn_w s) * 4) (unat (sn_h s)) = ?bs"
    using len by (simp add: image_rows_tight ac_simps)
  have sf: "slot_frame sender_config (hp' b) (next_slot (sn_pub s)) =
      (published_info sender_config (p_frame_id (sn_pub s) + 1) (clk 1) (sn_w s) (sn_h s), ?bs)"
    using facts(5) ns rows by simp
  show ?thesis using fr facts sf rate by (intro exI[of _ pub] exI[of _ hp']) (simp add: sender_ok_def)
qed

section \<open>A small sender\<close>

lemma sender_total: "L_total_size (compute_layout sender_config) \<le> kMaxSegment"
  by (simp add: compute_layout_def align_up_def k_defs)

definition demo_sender :: sender where
  "demo_sender = \<lparr>sn_pub = new_publisher sender_config \<lparr>sg_obj = 2, sg_region = (Some 2, L_total_size (compute_layout sender_config))\<rparr> 2,
     sn_w = 2, sn_h = 1\<rparr>"

definition demo_sender_heap :: heap where
  "demo_sender_heap = (\<lambda>_. smem_zero)(2 := init_segment sender_config 7 1000 smem_zero)"

lemma demo_sender_ok: "sender_ok 2 (demo_sender, demo_sender_heap)"
  using new_publisher_at[OF sender_config_valid sender_total]
  by (simp add: sender_ok_def demo_sender_def demo_sender_heap_def) (simp add: new_publisher_def LLPublisher_new_def)

lemma demo_sender_empty: "ring_queue sender_config d (demo_sender_heap 2) = []"
  using seg_inv_init(2)[OF sender_config_valid sender_total] by (simp add: demo_sender_heap_def)

lemma demo_sender_fields [simp]:
  "sn_w demo_sender = 2" "sn_h demo_sender = 1" "p_frame_id (sn_pub demo_sender) = 0" "next_slot (sn_pub demo_sender) = 1"
  by (simp_all add: demo_sender_def new_publisher_def LLPublisher_new_def next_slot_def)

text \<open>The same with one command waiting.\<close>

lemma demo_sender_with:
  assumes "length data \<le> 64"
  obtains hp where "sender_ok 2 (demo_sender, hp)" "sender_queue 2 (demo_sender, hp) = [mk_command ty data 1 0 5]"
    "replies sender_config (hp 2) = []"
proof -
  have at: "pub_at 2 (sn_pub demo_sender) demo_sender_heap" "p_cfg (sn_pub demo_sender) = sender_config"
    using demo_sender_ok by (simp_all add: sender_ok_def)
  have "length (ring_queue sender_config Upstream (demo_sender_heap 2)) < unat (cfg_command_slots sender_config)"
    using demo_sender_empty[of Upstream] by simp
  from push_seg[where hp = demo_sender_heap, OF pub_atD(3)[OF at(1), unfolded at(2)] _ _ this, of "Some data" "of_nat (length data)" ty 1 0 5]
  obtain sm where "cmd_effect sender_config Upstream [mk_command ty data 1 0 5] (demo_sender_heap 2) sm"
    using note_fits[OF assms] demo_sender_empty[of Upstream] by auto
  moreover from this have "pub_at 2 (sn_pub demo_sender) (demo_sender_heap(2 := sm))" by (intro pub_at_cmd[OF at(1)]) (simp add: at(2))
  ultimately show thesis
    using that[of "demo_sender_heap(2 := sm)"] demo_sender_ok demo_sender_empty[of Downstream]
    by (auto simp: sender_ok_def sender_queue_def replies_def cmd_effect_def)
qed

section \<open>Properties\<close>

text \<open>
  C22.  The sender's command loop ends after the commands that are queued and refines a server: commands
  are handled in order, a ping is answered by a pong, a size request by an acknowledgement with the new
  size if the size is acceptable and by a log message if not, every answer names the command it
  answers, other commands are ignored, and an answer is lost only when 64 are already waiting.
\<close>

theorem sender_serves_commands:
  assumes "sender_ok b st" and "length (sender_queue b st) < fuel"
  shows "\<exists>st'. sender_commands fuel clks st = Some st' \<and> sender_ok b st' \<and> sender_queue b st' = [] \<and>
    sender_view b st' = fold sender_step (sender_queue b st) (sender_view b st)"
  using sender_loop.drains[where s = st and b = b and h = "m_hdr (snd st b)" and clks = clks, OF _ assms(2)] assms(1)
  by (auto simp: sender_commands_def sender_inv_def)

theorem sender_serves_commands_witness:
  "\<exists>hp st'. sender_commands 2 (\<lambda>_ _. 9) (demo_sender, hp) = Some st' \<and>
    sender_view 2 st' = ((2, 1), [(kPong, [], 1)])"
proof -
  obtain hp where hp: "sender_ok 2 (demo_sender, hp)" "sender_queue 2 (demo_sender, hp) = [mk_command kPing [] 1 0 5]"
    "replies sender_config (hp 2) = []" by (rule demo_sender_with[of "[]" kPing]) simp
  have "length (sender_queue 2 (demo_sender, hp)) < 2" by (simp add: hp)
  from sender_serves_commands[OF hp(1) this, of "\<lambda>_ _. 9"] show ?thesis
    by (auto simp: hp sender_view_def sender_step_def mk_command_def enq_reply_def)
qed

text \<open>
  A frame of the sender.  With a size that fits, a turn without commands publishes the next frame;
  its slot holds the gradient: blue follows the column, green the row, red the frame
  number, alpha is opaque.
\<close>

theorem sender_draws_gradient:
  assumes "sender_ok b (s, hp)" and "fits sender_config (sn_w s) (sn_h s)"
    and "sender_queue b (s, hp) = []" and "0 < fuel" and "x < unat (sn_w s)" and "y < unat (sn_h s)"
  shows "\<exists>s' hp'. sender_turn fuel clks clk (s, hp) = Some (s', hp') \<and> sender_ok b (s', hp') \<and>
    p_frame_id (sn_pub s') = p_frame_id (sn_pub s) + 1 \<and>
    fst (slot_frame sender_config (hp' b) (next_slot (sn_pub s))) =
      published_info sender_config (p_frame_id (sn_pub s) + 1) (clk 1) (sn_w s) (sn_h s) \<and>
    take 4 (drop (y * (unat (sn_w s) * 4) + x * 4) (snd (slot_frame sender_config (hp' b) (next_slot (sn_pub s))))) =
      [ucast (of_nat x * 255 div sn_w s), ucast (of_nat y * 255 div sn_h s), ucast (p_frame_id (sn_pub s)), 0xFF]"
proof -
  note at = sender_okD(1-3)[OF assms(1)] sender_okD(4)[OF assms(1), of clk]
  obtain n where fuel: "fuel = Suc n" using assms(4) by (cases fuel) auto
  have none: "pub_receive (sn_pub s) hp = (None, sn_pub s, hp)"
    using pub_receive_loop(1)[OF at(1)] assms(3) at(2) by (simp add: sender_queue_def)
  then have idle: "sender_commands fuel clks (s, hp) = Some (s, hp)"
    by (simp add: sender_commands_def fuel sender_recv_def)
  let ?bs = "sender_image (sn_w s) (sn_h s) (p_frame_id (sn_pub s))"
  from sender_frame_facts[OF assms(1,2)] obtain pub hp' where fr: "sender_frame clk (s, hp) = (s\<lparr>sn_pub := pub\<rparr>, hp')"
    and ok: "sender_ok b (s\<lparr>sn_pub := pub\<rparr>, hp')" and id: "p_frame_id pub = p_frame_id (sn_pub s) + 1"
    and sf: "slot_frame sender_config (hp' b) (next_slot (sn_pub s)) =
      (published_info sender_config (p_frame_id (sn_pub s) + 1) (clk 1) (sn_w s) (sn_h s), ?bs)" by blast
  have len: "length ?bs = unat (sn_h s) * (unat (sn_w s) * 4)" by (simp add: sender_image_def length_raster_image)
  let ?px = "sender_pixel (sn_w s) (sn_h s) (ucast (p_frame_id (sn_pub s) AND 0xFF)) (of_nat x) (of_nat y)"
  let ?o = "y * (unat (sn_w s) * 4) + x * 4"
  have "?o + 4 \<le> length ?bs"
  proof -
    have "x * 4 + 4 \<le> unat (sn_w s) * 4" using assms(5) by linarith
    then show ?thesis using row_end_le[OF assms(6), of "x * 4 + 4" "unat (sn_w s) * 4"] by (simp add: len)
  qed
  moreover have "?bs ! (?o + c) = ?px ! c" if "c < 4" for c
    using nth_raster_image[OF length_sender_pixel assms(5,6) that] by (simp add: sender_image_def add.assoc)
  ultimately have "take 4 (drop ?o ?bs) = ?px"
    by (intro nth_equalityI) simp_all
  then show ?thesis
    using idle fr ok id sf by (simp add: sender_turn_def sender_pixel_def)
qed

theorem sender_draws_gradient_witness:
  "\<exists>s' hp'. sender_turn 1 (\<lambda>_ _. 9) (\<lambda>_. 9) (demo_sender, demo_sender_heap) = Some (s', hp') \<and>
    take 4 (drop 4 (snd (slot_frame sender_config (hp' 2) 1))) = [127, 0, 0, 255]"
proof -
  have q: "sender_queue 2 (demo_sender, demo_sender_heap) = []" by (simp add: sender_queue_def demo_sender_empty)
  have f: "fits sender_config (sn_w demo_sender) (sn_h demo_sender)" by (simp add: fits_def)
  have "1 < unat (sn_w demo_sender)" "0 < unat (sn_h demo_sender)" by simp_all
  from sender_draws_gradient[OF demo_sender_ok f q _ this, of 1 "\<lambda>_ _. 9" "\<lambda>_. 9"] show ?thesis by auto
qed

text \<open>
  A peer can crash the sender.  A size request for \<open>2^31\<close> by \<open>2^31\<close> pixels passes the check
  (the product is computed modulo \<open>2^64\<close>), is acknowledged, and the next turn hands a slot of 3.5 megabytes to
  a loop over \<open>2^62\<close> pixels.
\<close>

theorem sender_accepts_overflow:
  assumes "sender_ok b (s, hp)" and "sender_queue b (s, hp) = [x]" and "cmd_type x = kSetSize"
    and "cmd_data x = fst (proto_pack_size (replicate 8 0) 0x80000000 0x80000000)" and "1 < fuel"
  shows "\<exists>s' hp' dst pub hp''. sender_commands fuel clks (s, hp) = Some (s', hp') \<and> sn_w s' = 0x80000000 \<and> sn_h s' = 0x80000000 \<and>
    begin_write (sn_w s') (sn_h s') clk (sn_pub s') hp' = (Some dst, pub, hp'') \<and>
    unat (max_payload sender_config) < unat (sn_w s') * unat (sn_h s') * 4"
proof -
  have len: "length (sender_queue b (s, hp)) < fuel" using assms(2,5) by simp
  from sender_loop.drains[where s = "(s, hp)" and b = b and h = "m_hdr (hp b)" and clks = clks, OF _ len] assms(1) obtain s' hp' where
    c: "sender_commands fuel clks (s, hp) = Some (s', hp')" "sender_ok b (s', hp')"
    and v: "sender_view b (s', hp') = sender_step x (sender_view b (s, hp))"
    using assms(2) by (auto simp: sender_commands_def sender_inv_def)
  have u: "proto_unpack_size (cmd_data x) (length (cmd_data x)) = Some (0x80000000, 0x80000000)"
    using proto_size.pack_enc[of "replicate 8 0" "(0x80000000, 0x80000000)"] proto_size.delivered_value[of "(0x80000000, 0x80000000)"]
    by (simp add: assms(4))
  have "size_ok (0x80000000, 0x80000000)" by (simp add: size_ok_def)
  with v u assms(3) have wh: "sn_w s' = 0x80000000" "sn_h s' = 0x80000000"
    by (simp_all add: sender_view_def sender_step_def opcode_defs)
  note at = sender_okD(1-3)[OF c(2)] sender_okD(4)[OF c(2), of clk]
  obtain dst pub hp'' where "begin_write 0x80000000 0x80000000 clk (sn_pub s') hp' = (Some dst, pub, hp'')"
    using begin_write_eq[OF at(1), of "0x80000000" "0x80000000" clk] at(2-4)
    by (simp add: Let_def throttle_def frame_bytes_def)
  with c wh show ?thesis by simp
qed

theorem sender_accepts_overflow_witness:
  "\<exists>hp s' hp' dst pub hp''. sender_commands 2 (\<lambda>_ _. 9) (demo_sender, hp) = Some (s', hp') \<and>
    begin_write (sn_w s') (sn_h s') (\<lambda>_. 9) (sn_pub s') hp' = (Some dst, pub, hp'') \<and> sn_w s' = 0x80000000"
proof -
  let ?d = "fst (proto_pack_size (replicate 8 0) 0x80000000 0x80000000)"
  have "length ?d \<le> 64" by (simp add: proto_pack_size_def)
  then obtain hp where hp: "sender_ok 2 (demo_sender, hp)" "sender_queue 2 (demo_sender, hp) = [mk_command kSetSize ?d 1 0 5]"
    by (rule demo_sender_with[of ?d kSetSize])
  have c: "cmd_type (mk_command kSetSize ?d 1 0 5) = kSetSize" "cmd_data (mk_command kSetSize ?d 1 0 5) = ?d"
    by (simp_all add: mk_command_def)
  have "1 < (2 :: nat)" by simp
  from sender_accepts_overflow[OF hp c this, of "\<lambda>_ _. 9" "\<lambda>_. 9"] show ?thesis by blast
qed

end
