(* ===== verification/Runtime.thy ===== *)
theory Runtime
  imports Command_Loop
begin

text \<open>
  What the example programs use of the C library before and around their loops: the numbers on their command lines, on a platform
  with a 64-bit \<open>long\<close>, and the pacing of a loop by \<open>steady_clock\<close> and \<open>sleep_until\<close>.
\<close>

section \<open>Numbers on the command line\<close>

definition is_space :: "char \<Rightarrow> bool" where
  "is_space c \<longleftrightarrow> (let n = of_char c :: nat in n = 32 \<or> 9 \<le> n \<and> n \<le> 13)"

definition is_digit :: "char \<Rightarrow> bool" where
  "is_digit c \<longleftrightarrow> (let n = of_char c :: nat in 48 \<le> n \<and> n \<le> 57)"

text \<open>White space, a sign, then as many digits as there are: whether there is a minus sign, and the magnitude.\<close>

definition scan_number :: "string \<Rightarrow> bool \<times> nat" where
  "scan_number s =
     (let t = dropWhile is_space s in
      case t of [] \<Rightarrow> (False, 0)
      | c # u \<Rightarrow> if c = CHR ''-'' then (True, undecimal (takeWhile is_digit u))
                 else if c = CHR ''+'' then (False, undecimal (takeWhile is_digit u))
                 else (False, undecimal (takeWhile is_digit t)))"

text \<open>\<open>strtoul(s, nullptr, 10)\<close>: too large a number is \<open>ULONG_MAX\<close>, a minus sign negates in the unsigned type.\<close>

definition strtoul :: "string \<Rightarrow> u64" where
  "strtoul s = (case scan_number s of (neg, n) \<Rightarrow>
     if n \<ge> 2 ^ 64 then - 1 else if neg then - of_nat n else of_nat n)"

text \<open>\<open>atoi\<close> and \<open>atol\<close>: a number outside the type is undefined behaviour, \<open>None\<close>.\<close>

definition scan_signed :: "string \<Rightarrow> int" where
  "scan_signed s = (case scan_number s of (neg, n) \<Rightarrow> if neg then - int n else int n)"

definition atoi :: "string \<Rightarrow> int option" where
  "atoi s = (let v = scan_signed s in if - (2 ^ 31) \<le> v \<and> v < 2 ^ 31 then Some v else None)"

definition atol :: "string \<Rightarrow> int option" where
  "atol s = (let v = scan_signed s in if - (2 ^ 63) \<le> v \<and> v < 2 ^ 63 then Some v else None)"

text \<open>A printed number is read back.\<close>

lemma decimal_is_digits: "list_all is_digit (decimal n)"
proof (induction n rule: decimal.induct)
  case (1 n)
  have "is_digit (char_of (48 + d :: nat))" if "d < 10" for d
    using that by (simp add: is_digit_def Let_def of_char_of)
  then show ?case using 1 by (auto simp: decimal.simps[of n])
qed

lemma decimal_nonempty: "decimal n \<noteq> []"
  by (simp add: decimal.simps[of n])

lemma digit_no_sign: "is_digit c \<Longrightarrow> \<not> is_space c \<and> c \<noteq> CHR ''-'' \<and> c \<noteq> CHR ''+''"
  by (auto simp: is_digit_def is_space_def Let_def)

lemma scan_decimal: "scan_number (decimal n) = (False, n)"
proof -
  obtain c u where d: "decimal n = c # u" using decimal_nonempty by (metis neq_Nil_conv)
  have dg: "list_all is_digit (c # u)" using decimal_is_digits[of n] by (simp add: d)
  then have "dropWhile is_space (c # u) = c # u" "c \<noteq> CHR ''-''" "c \<noteq> CHR ''+''" using digit_no_sign[of c] by auto
  moreover have "takeWhile is_digit (c # u) = c # u" using dg by (auto simp: list_all_iff takeWhile_eq_all_conv)
  moreover have "undecimal (c # u) = n" using undecimal_decimal[of n] by (simp only: d)
  ultimately show ?thesis unfolding scan_number_def d by (simp only: Let_def list.case if_False)
qed

lemma numbers_read_back:
  "n < 2 ^ 64 \<Longrightarrow> strtoul (decimal n) = of_nat n" "int n < 2 ^ 31 \<Longrightarrow> atoi (decimal n) = Some (int n)"
  "int n < 2 ^ 63 \<Longrightarrow> atol (decimal n) = Some (int n)"
  by (simp_all add: strtoul_def atoi_def atol_def scan_signed_def scan_decimal Let_def)

section \<open>Pacing\<close>

text \<open>
  The end of a turn: \<open>next += period; if (next > now) sleep_until(next); else next = now;\<close> with the reading \<open>now\<close> of this turn.
  Points in time are integers, in nanoseconds.
\<close>

definition pace :: "int \<Rightarrow> int \<Rightarrow> int \<Rightarrow> int" where
  "pace period now nxt = (let nxt1 = nxt + period in if nxt1 > now then nxt1 else now)"

text \<open>
  \<open>steady_clock\<close> and \<open>sleep_until\<close> promise that a turn does not begin before the time it was to start at: the reading of a turn is
  that time and a delay.  These are the readings of a loop whose turns have the delays \<open>ds\<close>.
\<close>

fun readings :: "int \<Rightarrow> int \<Rightarrow> nat list \<Rightarrow> int list" where
  "readings period nxt [] = []"
| "readings period nxt (d # ds) = (let now = nxt + int d in now # readings period (pace period now nxt) ds)"

lemma length_readings [simp]: "length (readings period nxt ds) = length ds"
  by (induction ds arbitrary: nxt) (simp_all add: Let_def)

lemma pace_ge: "nxt + period \<le> pace period now nxt" "now \<le> pace period now nxt"
  by (simp_all add: pace_def Let_def)

lemma reading_from_start: "j < length ds \<Longrightarrow> nxt + int j * period \<le> readings period nxt ds ! j"
proof (induction ds arbitrary: nxt j)
  case (Cons d ds)
  let ?nxt = "pace period (nxt + int d) nxt"
  show ?case
  proof (cases j)
    case (Suc i)
    with Cons.IH[of i ?nxt] Cons.prems have "?nxt + int i * period \<le> readings period ?nxt ds ! i" by simp
    then show ?thesis using pace_ge(1)[of nxt period "nxt + int d"] Suc by (simp add: Let_def algebra_simps)
  qed (simp add: Let_def)
qed simp

text \<open>Turns \<open>i\<close> and \<open>j\<close> are at least \<open>j - i - 1\<close> periods apart, however late some of them were.\<close>

lemma readings_apart:
  "i < j \<Longrightarrow> j < length ds \<Longrightarrow> readings period nxt ds ! i + int (j - i - 1) * period \<le> readings period nxt ds ! j"
proof (induction ds arbitrary: nxt i j)
  case (Cons d ds)
  let ?nxt = "pace period (nxt + int d) nxt"
  from Cons.prems obtain j' where j: "j = Suc j'" by (cases j) auto
  show ?case
  proof (cases i)
    case 0
    with reading_from_start[of j' ds ?nxt period] pace_ge(2)[of "nxt + int d" period nxt] Cons.prems j show ?thesis by (simp add: Let_def)
  next
    case (Suc i')
    with Cons.IH[of i' j' ?nxt] Cons.prems j show ?thesis by (simp add: Let_def)
  qed
qed simp

text \<open>While no delay reaches the period, the schedule does not drift.\<close>

lemma readings_no_drift: "\<forall>d\<in>set ds. int d < period \<Longrightarrow> j < length ds \<Longrightarrow> readings period nxt ds ! j = nxt + int j * period + int (ds ! j)"
proof (induction ds arbitrary: nxt j)
  case (Cons d ds)
  have "pace period (nxt + int d) nxt = nxt + period" using Cons.prems(1) by (simp add: pace_def)
  then show ?case using Cons.IH[of "j - 1" "nxt + period"] Cons.prems by (cases j) (simp_all add: Let_def algebra_simps)
qed simp

end
