(* ===== verification/Sender_Main.thy ===== *)
theory Sender_Main
  imports Demo_Sender Runtime
begin

text \<open>
  \<open>examples/sender.cpp\<close> as a whole: the command line, the paced loop with its report lines, and the exit.  Between two
  turns other processes run; a signal ends the loop, so a run has as many turns as there are \<open>ticks\<close>.
\<close>

section \<open>The program\<close>

text \<open>Width, height and frames per second; \<open>None\<close> where \<open>atoi\<close> is undefined.\<close>

definition sender_args :: "string list \<Rightarrow> (u32 \<times> u32 \<times> int) option" where
  "sender_args args =
     (let w = (if length args > 0 then ucast (strtoul (args ! 0)) else 640);
          h = (if length args > 1 then ucast (strtoul (args ! 1)) else 360)
      in case (if length args > 2 then atoi (args ! 2) else Some 60) of
           None \<Rightarrow> None
         | Some fps \<Rightarrow> Some (w, h, if fps \<le> 0 then 60 else fps))"

text \<open>The lines on the console, those of the command loop excepted.\<close>

datatype sender_event =
    Se_Failed string
  | Se_Started u32 u32 int u64 u64
  | Se_Report u64 u64 u64 u64
  | Se_Stopped u64

text \<open>What a turn meets: the other processes before it, the readings of its calls, and how late it reads the clock.\<close>

record 'k sender_tick =
  sd_world :: "'k \<times> heap \<Rightarrow> 'k \<times> heap"
  sd_clks :: "u64 \<Rightarrow> clock"
  sd_clk :: clock
  sd_delay :: nat

definition sender_draws :: "clock \<Rightarrow> sender \<times> heap \<Rightarrow> bool" where
  "sender_draws clk st = (case st of (s, hp) \<Rightarrow> fst (begin_write (sn_w s) (sn_h s) clk (sn_pub s) hp) \<noteq> None)"

text \<open>
  The loop.  Besides the lines it prints and the state it ends in, the result lists what each turn read on the clock, and whether
  it published a frame just before.
\<close>

fun sender_loop :: "nat \<Rightarrow> int \<Rightarrow> 'k sender_tick list \<Rightarrow> int \<Rightarrow> int \<Rightarrow> u64 \<Rightarrow> sender \<times> 'k \<times> heap
    \<Rightarrow> ((int \<times> bool) list \<times> sender_event list \<times> sender \<times> 'k \<times> heap) option" where
  "sender_loop fuel period [] nxt report since st = Some ([], [], st)"
| "sender_loop fuel period (t # ts) nxt report since (s, k, hp) =
     (case sd_world t (k, hp) of (k1, hp1) \<Rightarrow>
        (case sender_commands fuel (sd_clks t) (s, hp1) of
           None \<Rightarrow> None
         | Some st1 \<Rightarrow>
             (case sender_frame (sd_clk t) st1 of (s2, hp2) \<Rightarrow>
                let drew = sender_draws (sd_clk t) st1;
                    since1 = (if drew then since + 1 else since);
                    now = nxt + int (sd_delay t);
                    due = (now - report \<ge> 1000000000);
                    line = (if due then [Se_Report since1 (p_frame_id (sn_pub s2)) (p_recvd (sn_pub s2)) (p_sent (sn_pub s2))] else [])
                in map_option (\<lambda>(tr, es, st'). ((now, drew) # tr, line @ es, st'))
                     (sender_loop fuel period ts (pace period now nxt) (if due then now else report) (if due then 0 else since1) (s2, k1, hp2)))))"

definition sender_main :: "platform \<Rightarrow> 'k bip_ops \<Rightarrow> nat \<Rightarrow> string list \<Rightarrow> clock \<Rightarrow> u64 \<Rightarrow> int \<Rightarrow> 'k sender_tick list \<Rightarrow> 'k \<Rightarrow> heap
    \<Rightarrow> ((int \<times> bool) list \<times> sender_event list \<times> int \<times> 'k \<times> heap) option" where
  "sender_main pf ops fuel args clk wall start ts k hp =
     (case sender_args args of
        None \<Rightarrow> None
      | Some (w, h, fps) \<Rightarrow>
          (case sender_start pf ops w h clk wall k hp of
             (Inl msg, k1, hp1) \<Rightarrow> Some ([], [Se_Failed msg], 1, k1, hp1)
           | (Inr s, k1, hp1) \<Rightarrow>
               (case sender_loop fuel (1000000000 div fps) ts start start 0 (s, k1, hp1) of
                  None \<Rightarrow> None
                | Some (tr, es, s2, k2, hp2) \<Rightarrow>
                    (case publisher_destroy pf ops (sn_pub s2) k2 hp2 of
                       (k3, hp3) \<Rightarrow>
                         Some (tr, Se_Started w h fps (segment_bytes sender_config div (1024 * 1024)) (pub_session_id (sn_pub s) hp1)
                                 # es @ [Se_Stopped (p_frame_id (sn_pub s2))], 0, k3, hp3)))))"

section \<open>The loop\<close>

text \<open>A size whose product does not wrap; a peer that asks for no other.\<close>

definition size_exact :: "u32 \<times> u32 \<Rightarrow> bool" where
  "size_exact wh \<longleftrightarrow> unat (fst wh) * unat (snd wh) * 4 < 2 ^ 64"

definition benign :: "LLShmCommand \<Rightarrow> bool" where
  "benign x \<longleftrightarrow> (\<forall>wh. cmd_type x = kSetSize \<and> proto_unpack_size (cmd_data x) (length (cmd_data x)) = Some wh \<longrightarrow> size_exact wh)"

definition sender_sane :: "oid \<Rightarrow> sender \<times> heap \<Rightarrow> bool" where
  "sender_sane b st \<longleftrightarrow> sender_ok b st \<and> size_exact (sn_w (fst st), sn_h (fst st)) \<and> (\<forall>x\<in>set (sender_queue b st). benign x)"

definition keeps_sender :: "oid \<Rightarrow> ('k \<times> heap \<Rightarrow> 'k \<times> heap) \<Rightarrow> bool" where
  "keeps_sender b w \<longleftrightarrow> (\<forall>s k hp. sender_sane b (s, hp) \<longrightarrow> sender_sane b (s, snd (w (k, hp))))"

lemma sender_step_size: "benign x \<Longrightarrow> size_exact (fst v) \<Longrightarrow> size_exact (fst (sender_step x v))"
  by (cases v) (auto simp: sender_step_def benign_def split: option.splits)

lemma sender_fold_size: "\<forall>x\<in>set xs. benign x \<Longrightarrow> size_exact (fst v) \<Longrightarrow> size_exact (fst (fold sender_step xs v))"
  by (induction xs arbitrary: v) (simp_all add: sender_step_size)

text \<open>A size that is accepted and does not wrap fits, so a size in force that fits is only replaced by one that does.\<close>

lemma accepted_size_fits:
  assumes "size_ok wh" and "size_exact wh"
  shows "fits sender_config (fst wh) (snd wh)"
proof -
  obtain w h where wh: "wh = (w, h)" by force
  have z: "unat w * unat h * 4 < 2 ^ 64" using assms(2) by (simp add: wh size_exact_def)
  have "unat w * unat h < 2 ^ 64" using z by linarith
  then have "unat (ucast w * ucast h :: u64) = unat w * unat h" by (subst unat_mult64) simp_all
  then have "unat (ucast w * ucast h * 4 :: u64) = unat w * unat h * 4" using z by (subst unat_mult64) simp_all
  then show ?thesis using assms(1) by (simp add: wh size_ok_def fits_def word_le_unat)
qed

lemma sender_fold_fits:
  "\<forall>x\<in>set xs. benign x \<Longrightarrow> fits sender_config (fst (fst v)) (snd (fst v)) \<Longrightarrow>
   fits sender_config (fst (fst (fold sender_step xs v))) (snd (fst (fold sender_step xs v)))"
proof (induction xs arbitrary: v)
  case (Cons x xs)
  have "fits sender_config (fst (fst (sender_step x v))) (snd (fst (sender_step x v)))"
    using Cons.prems accepted_size_fits by (cases v) (auto simp: sender_step_def benign_def split: option.splits)
  with Cons show ?case by simp
qed simp

lemma sender_queue_short: "sender_ok b st \<Longrightarrow> length (sender_queue b st) \<le> 64"
  using queue_bounded[of sender_config "snd st b" Upstream] pub_atD(3)[of b "sn_pub (fst st)" "snd st"]
  by (auto simp: sender_ok_def sender_queue_def)

text \<open>A frame is published exactly when the size in force fits.\<close>

lemma sender_frame_kept:
  assumes "sender_ok b (s, hp)" and "size_exact (sn_w s, sn_h s)"
  shows "\<exists>s' hp'. sender_frame clk (s, hp) = (s', hp') \<and> sender_ok b (s', hp') \<and> sn_w s' = sn_w s \<and> sn_h s' = sn_h s \<and>
    sender_queue b (s', hp') = sender_queue b (s, hp) \<and> sender_draws clk (s, hp) = fits sender_config (sn_w s) (sn_h s) \<and>
    p_frame_id (sn_pub s') = p_frame_id (sn_pub s) + (if fits sender_config (sn_w s) (sn_h s) then 1 else 0)"
proof (cases "fits sender_config (sn_w s) (sn_h s)")
  case True
  note at = sender_okD(1-3)[OF assms(1)] sender_okD(4)[OF assms(1), of clk]
  have "fits (p_cfg (sn_pub s)) (sn_w s) (sn_h s)" using True at(2) by simp
  then have "sender_draws clk (s, hp)" using begin_write_ok[OF at(1,3,4)] by (simp add: sender_draws_def Let_def)
  with sender_frame_facts[OF assms(1) True, of clk] True show ?thesis by (auto simp: sender_queue_def)
next
  case False
  note at = sender_okD(1-3)[OF assms(1)] sender_okD(4)[OF assms(1), of clk]
  obtain r m hp' where bw: "begin_write (sn_w s) (sn_h s) clk (sn_pub s) hp = (r, m, hp')" by (metis prod_cases3)
  have "r = None"
  proof (rule ccontr)
    assume "r \<noteq> None"
    then obtain dst where "begin_write (sn_w s) (sn_h s) clk (sn_pub s) hp = (Some dst, m, hp')" using bw by auto
    from accepted_fits[OF at(1) _ this] assms(2) False at(2) show False by (simp add: size_exact_def)
  qed
  moreover have "m = sn_pub s" "hp' = hp"
    using bw \<open>r = None\<close> at(4) by (auto simp: begin_write_eq[OF at(1)] Let_def throttle_def split: if_splits)
  ultimately show ?thesis using assms(1) False bw by (simp add: sender_frame_def sender_draws_def)
qed

text \<open>What neither receiving nor handling changes, the command loop does not change.\<close>

lemma drain_keeps:
  assumes "\<And>s x s'. recv s = (x, s') \<Longrightarrow> f s' = f s" and "\<And>x s. f (handle x s) = f s"
  shows "drain n recv handle s = Some s' \<Longrightarrow> f s' = f s"
proof (induction n arbitrary: s)
  case (Suc n)
  obtain x s1 where r: "recv s = (x, s1)" by force
  show ?case
  proof (cases x)
    case (Some c)
    with Suc r assms(2)[of c s1] assms(1)[OF r] show ?thesis by auto
  qed (use Suc.prems r assms(1)[OF r] in simp)
qed simp

lemma commands_keep_frame_id: "sender_commands fuel clks st = Some st' \<Longrightarrow> p_frame_id (sn_pub (fst st')) = p_frame_id (sn_pub (fst st))"
proof (unfold sender_commands_def, erule drain_keeps[rotated 2, where f = "\<lambda>st. p_frame_id (sn_pub (fst st))"])
  fix st st' :: "sender \<times> heap" and x
  assume "sender_recv st = (x, st')"
  then show "p_frame_id (sn_pub (fst st')) = p_frame_id (sn_pub (fst st))"
    by (auto simp: sender_recv_def pub_receive_def Let_def split: prod.splits option.splits if_splits)
next
  have send: "p_frame_id (fst (snd (pub_send ty data n r clk p hp))) = p_frame_id p" for ty data n r clk p hp
    by (auto simp: pub_send_def Let_def split: prod.splits bool.splits)
  fix st :: "sender \<times> heap" and x
  show "p_frame_id (sn_pub (fst (sender_handle clks x st))) = p_frame_id (sn_pub (fst st))"
    using send by (auto simp: sender_handle_def Let_def split: prod.splits option.splits) (metis fst_conv snd_conv)+
qed

text \<open>A turn keeps the sender in order.\<close>

lemma sender_turn_kept:
  assumes "sender_sane b (s, hp)" and "64 < fuel"
  shows "\<exists>st1 s2 hp2. sender_commands fuel clks (s, hp) = Some st1 \<and> sender_frame clk st1 = (s2, hp2) \<and> sender_sane b (s2, hp2) \<and>
    p_frame_id (sn_pub s2) = p_frame_id (sn_pub s) + (if sender_draws clk st1 then 1 else 0) \<and>
    (fits sender_config (sn_w s) (sn_h s) \<longrightarrow> fits sender_config (sn_w s2) (sn_h s2) \<and> sender_draws clk st1)"
proof -
  have ok: "sender_ok b (s, hp)" and z: "size_exact (fst (sender_view b (s, hp)))" "\<forall>x\<in>set (sender_queue b (s, hp)). benign x"
    using assms(1) by (simp_all add: sender_sane_def sender_view_def)
  have "length (sender_queue b (s, hp)) < fuel" using sender_queue_short[OF ok] assms(2) by simp
  with sender_loop.drains[where s = "(s, hp)" and b = b and h = "m_hdr (hp b)" and clks = clks and n = fuel] ok obtain s1 hp1 where
    c: "sender_commands fuel clks (s, hp) = Some (s1, hp1)" "sender_ok b (s1, hp1)" "sender_queue b (s1, hp1) = []"
      "sender_view b (s1, hp1) = fold sender_step (sender_queue b (s, hp)) (sender_view b (s, hp))"
    by (auto simp: sender_commands_def sender_inv_def)
  have sz: "size_exact (sn_w s1, sn_h s1)"
    using sender_fold_size[OF z(2,1)] arg_cong[OF c(4), of fst] by (simp add: sender_view_def)
  from sender_frame_kept[OF c(2) sz, of clk] obtain s2 hp2 where
    f: "sender_frame clk (s1, hp1) = (s2, hp2)" "sender_ok b (s2, hp2)" "sn_w s2 = sn_w s1" "sn_h s2 = sn_h s1"
      "sender_queue b (s2, hp2) = []" "sender_draws clk (s1, hp1) = fits sender_config (sn_w s1) (sn_h s1)"
      "p_frame_id (sn_pub s2) = p_frame_id (sn_pub s1) + (if fits sender_config (sn_w s1) (sn_h s1) then 1 else 0)"
    unfolding c(3) by blast
  have "fits sender_config (sn_w s1) (sn_h s1)" if "fits sender_config (sn_w s) (sn_h s)"
    using sender_fold_fits[OF z(2), of "sender_view b (s, hp)"] that unfolding c(4)[symmetric] by (simp add: sender_view_def)
  then show ?thesis using c(1) f sz commands_keep_frame_id[OF c(1)] by (auto simp: sender_sane_def)
qed

lemma sender_loop_kept:
  "sender_sane b (s, hp) \<Longrightarrow> \<forall>t\<in>set ts. keeps_sender b (sd_world t) \<Longrightarrow> 64 < fuel \<Longrightarrow>
   \<exists>tr es s' k' hp'. sender_loop fuel period ts nxt report since (s, k, hp) = Some (tr, es, s', k', hp') \<and> sender_sane b (s', hp') \<and>
     map fst tr = readings period nxt (map sd_delay ts) \<and>
     p_frame_id (sn_pub s') = p_frame_id (sn_pub s) + of_nat (length (filter snd tr)) \<and>
     (fits sender_config (sn_w s) (sn_h s) \<longrightarrow> list_all snd tr)"
proof (induction ts arbitrary: nxt report since s k hp)
  case (Cons t ts)
  obtain k1 hp1 where w: "sd_world t (k, hp) = (k1, hp1)" by force
  have "sender_sane b (s, hp1)" using Cons.prems(1,2) w unfolding keeps_sender_def by (metis list.set_intros(1) snd_conv)
  from sender_turn_kept[OF this Cons.prems(3), of "sd_clks t" "sd_clk t"] obtain st1 s2 hp2 where
    t: "sender_commands fuel (sd_clks t) (s, hp1) = Some st1" "sender_frame (sd_clk t) st1 = (s2, hp2)" "sender_sane b (s2, hp2)"
      "p_frame_id (sn_pub s2) = p_frame_id (sn_pub s) + (if sender_draws (sd_clk t) st1 then 1 else 0)"
      "fits sender_config (sn_w s) (sn_h s) \<longrightarrow> fits sender_config (sn_w s2) (sn_h s2) \<and> sender_draws (sd_clk t) st1" by blast
  let ?since = "if sender_draws (sd_clk t) st1 then since + 1 else since" and ?due = "nxt + int (sd_delay t) - report \<ge> 1000000000"
  from Cons.IH[OF t(3) _ Cons.prems(3), of "pace period (nxt + int (sd_delay t)) nxt" "if ?due then nxt + int (sd_delay t) else report" "if ?due then 0 else ?since" k1]
    Cons.prems(2) obtain tr es s' k' hp' where
    "sender_loop fuel period ts (pace period (nxt + int (sd_delay t)) nxt) (if ?due then nxt + int (sd_delay t) else report) (if ?due then 0 else ?since) (s2, k1, hp2) =
      Some (tr, es, s', k', hp')" "sender_sane b (s', hp')"
      "map fst tr = readings period (pace period (nxt + int (sd_delay t)) nxt) (map sd_delay ts)"
      "p_frame_id (sn_pub s') = p_frame_id (sn_pub s2) + of_nat (length (filter snd tr))"
      "fits sender_config (sn_w s2) (sn_h s2) \<longrightarrow> list_all snd tr" by auto
  then show ?case using w t by (auto simp: Let_def)
qed simp

text \<open>A sender that has just started.\<close>

lemma sender_started:
  assumes "segment_store ok bound alloc pf ops" and "ok k" and "bound k ''shmframe_demo'' = None" and "size_exact (w, h)"
  shows "\<exists>s k' hp' b. sender_start pf ops w h clk wall k hp = (Inr s, k', hp') \<and> sender_sane b (s, hp') \<and> sn_w s = w \<and> sn_h s = h \<and>
    p_frame_id (sn_pub s) = 0"
proof -
  from segment_store.create_fresh[OF assms(1,2) _ sender_config_valid sender_total, of clk wall hp] assms(3) obtain seg b k' where
    c: "publisher_create pf ops sender_config clk wall k hp = ((Some (new_publisher sender_config seg b), LLStatus_Ok), k',
      hp(b := init_segment sender_config (make_session_id wall (clk 1)) (clk 2) (hp b)))" (is "_ = (_, _, ?hp')") by auto
  let ?s = "\<lparr>sn_pub = new_publisher sender_config seg b, sn_w = w, sn_h = h\<rparr>"
  have "pub_at b (new_publisher sender_config seg b) ?hp'" by (rule new_publisher_at[OF sender_config_valid sender_total])
  then have "sender_ok b (?s, ?hp')" by (simp add: sender_ok_def) (simp add: new_publisher_def LLPublisher_new_def)
  moreover have "sender_queue b (?s, ?hp') = []" using seg_inv_init(2)[OF sender_config_valid sender_total] by (simp add: sender_queue_def)
  moreover have "p_frame_id (new_publisher sender_config seg b) = 0" by (simp add: new_publisher_def LLPublisher_new_def)
  ultimately have "sender_start pf ops w h clk wall k hp = (Inr ?s, k', ?hp') \<and> sender_sane b (?s, ?hp') \<and> p_frame_id (sn_pub ?s) = 0"
    using c assms(4) by (simp add: sender_start_def sender_sane_def)
  then show ?thesis by (intro exI[of _ ?s] exI[of _ k'] exI[of _ ?hp'] exI[of _ b]) simp
qed

section \<open>Properties\<close>

text \<open>
  C34.  The sender runs at its rate.  On every name space that meets its contract, with the name free, with a size whose number of bytes does not
  wrap and a rate of at most one frame a nanosecond (beyond it the period is rounded to zero), and next to any processes that
  leave its segment in order and ask for no size that wraps: the program comes up, gets through every turn, and exits with 0, and the segment it
  created is marked as shut down.  The number of frames it reports at the end is the number of turns that published one; when the size on the
  command line fits, that is every turn, whatever sizes it is asked for meanwhile.  However late its
  turns were, two turns are read on the clock at least one period apart for each turn between them, and the frames published up to
  any turn are at most one for each period since the start, and one.
\<close>

theorem sender_runs:
  assumes "segment_store ok bound alloc pf ops" and "ok k" and "bound k ''shmframe_demo'' = None"
    and "sender_args args = Some (w, h, fps)" and "size_exact (w, h)" and "fps \<le> 1000000000" and "64 < fuel"
    and "\<forall>t\<in>set ts. \<forall>b. keeps_sender b (sd_world t)"
  shows "\<exists>s k1 hp1 b tr mib session es n k' hp'. sender_start pf ops w h clk wall k hp = (Inr s, k1, hp1) \<and> p_hdr (sn_pub s) = Some b \<and>
    sender_main pf ops fuel args clk wall start ts k hp =
      Some (tr, Se_Started w h fps mib session # es @ [Se_Stopped n], 0, k', hp') \<and> h_shutdown (m_hdr (hp' b)) = 1 \<and>
    length tr = length ts \<and> n = of_nat (length (filter snd tr)) \<and> (fits sender_config w h \<longrightarrow> list_all snd tr) \<and>
    (\<forall>i j. i < j \<and> j < length tr \<longrightarrow> fst (tr ! i) + int (j - i - 1) * (1000000000 div fps) \<le> fst (tr ! j)) \<and>
    (\<forall>j<length tr. int (length (filter snd (take (Suc j) tr))) \<le> (fst (tr ! j) - start) div (1000000000 div fps) + 1)"
proof -
  let ?p = "1000000000 div fps" and ?r = "readings (1000000000 div fps) start (map sd_delay ts)"
  have "0 < fps" using assms(4) by (auto simp: sender_args_def Let_def split: option.splits if_splits)
  then have p: "0 < ?p" using assms(6) by (simp add: pos_imp_zdiv_pos_iff)
  from sender_started[where bound = bound and ok = ok and k = k and w = w and h = h and clk = clk and wall = wall and hp = hp, OF assms(1-3,5)] obtain s k1 hp1 b where
    s: "sender_start pf ops w h clk wall k hp = (Inr s, k1, hp1)" "sender_sane b (s, hp1)" "sn_w s = w" "sn_h s = h" "p_frame_id (sn_pub s) = 0" by blast
  have b: "p_hdr (sn_pub s) = Some b" using s(2) pub_atD(4)[of b "sn_pub s" hp1] by (simp add: sender_sane_def sender_ok_def)
  have "\<forall>t\<in>set ts. keeps_sender b (sd_world t)" using assms(8) by blast
  from sender_loop_kept[OF s(2) this assms(7), of ?p start start 0 k1, unfolded s(3-5) add_0_left] obtain tr es s2 k2 hp2 where
    l: "sender_loop fuel ?p ts start start 0 (s, k1, hp1) = Some (tr, es, s2, k2, hp2)" "sender_sane b (s2, hp2)"
      "map fst tr = ?r" "p_frame_id (sn_pub s2) = of_nat (length (filter snd tr))" "fits sender_config w h \<longrightarrow> list_all snd tr" by blast
  have "p_hdr (sn_pub s2) = Some b" using l(2) pub_atD(4)[of b "sn_pub s2" hp2] by (simp add: sender_sane_def sender_ok_def)
  then obtain k3 where d: "publisher_destroy pf ops (sn_pub s2) k2 hp2 = (k3, hp2(b := (hp2 b)\<lparr>m_hdr := (m_hdr (hp2 b))\<lparr>h_shutdown := 1\<rparr>\<rparr>))"
    by (simp add: publisher_destroy_def)
  have len: "length tr = length ts" using arg_cong[OF l(3), of length] by simp
  have at: "fst (tr ! j) = ?r ! j" if "j < length tr" for j using that l(3) by (metis nth_map)
  have apart: "fst (tr ! i) + int (j - i - 1) * ?p \<le> fst (tr ! j)" if "i < j" "j < length tr" for i j
    using readings_apart[of i j "map sd_delay ts" ?p start] that len at by simp
  have rate: "int (length (filter snd (take (Suc j) tr))) \<le> (fst (tr ! j) - start) div ?p + 1" if j: "j < length tr" for j
  proof -
    have "start + int j * ?p \<le> fst (tr ! j)" using reading_from_start[of j "map sd_delay ts" start ?p] j len at by simp
    then have "int j * ?p div ?p \<le> (fst (tr ! j) - start) div ?p" using p by (intro zdiv_mono1) simp_all
    then have "int j \<le> (fst (tr ! j) - start) div ?p" using p by simp
    moreover have "length (filter snd (take (Suc j) tr)) \<le> Suc j"
      using length_filter_le[of snd "take (Suc j) tr"] j by simp
    ultimately show ?thesis by linarith
  qed
  have "sender_main pf ops fuel args clk wall start ts k hp = Some (tr, Se_Started w h fps (segment_bytes sender_config div (1024 * 1024))
      (pub_session_id (sn_pub s) hp1) # es @ [Se_Stopped (p_frame_id (sn_pub s2))], 0, k3, hp2(b := (hp2 b)\<lparr>m_hdr := (m_hdr (hp2 b))\<lparr>h_shutdown := 1\<rparr>\<rparr>))"
    (is "_ = Some (_, _, _, _, ?hp3)") using assms(4) s(1) l(1) d by (simp add: sender_main_def)
  moreover have "h_shutdown (m_hdr (?hp3 b)) = 1" by simp
  ultimately show ?thesis using s(1) b len l(4,5) apart rate by (intro exI conjI) (assumption | blast)+
qed

theorem sender_runs_witness:
  "\<exists>es k' hp' mib session. sender_main Posix posix_ops 65 [''2'', ''1'', ''1000''] (\<lambda>_. 5) 9 0
      (map (\<lambda>t. \<lparr>sd_world = (\<lambda>x. x), sd_clks = (\<lambda>_ _. 6), sd_clk = (\<lambda>_. 7), sd_delay = t\<rparr>) [0, 5]) posix_empty (\<lambda>_. smem_zero) =
    Some ([(0, True), (1000005, True)], Se_Started 2 1 1000 mib session # es @ [Se_Stopped 2], 0, k', hp')"
proof -
  let ?t = "\<lambda>t. \<lparr>sd_world = (\<lambda>x :: posix_kernel \<times> heap. x), sd_clks = (\<lambda>_ _. 6), sd_clk = (\<lambda>_. 7), sd_delay = t\<rparr>"
  have a: "sender_args [''2'', ''1'', ''1000''] = Some (2, 1, 1000)"
    by (simp add: sender_args_def strtoul_def atoi_def scan_signed_def scan_number_def is_space_def is_digit_def Let_def)
  have f: "fits sender_config 2 1" by (simp add: fits_def)
  have z: "size_exact (2, 1)" and fr: "posix_bound posix_empty ''shmframe_demo'' = None" by (simp_all add: size_exact_def posix_empty_bound)
  have w: "\<forall>t\<in>set (map ?t [0, 5]). \<forall>b. keeps_sender b (sd_world t)" by (simp add: keeps_sender_def)
  have n: "(1000 :: int) \<le> 1000000000" "(64 :: nat) < 65" by simp_all
  from sender_runs[where start = 0 and clk = "\<lambda>_. 5" and wall = 9 and hp = "\<lambda>_. smem_zero",
      OF posix.segment_store_axioms posix_empty_ok fr a z n w] show ?thesis
  proof (elim exE conjE)
    fix tr mib session es n k' hp'
    assume m: "sender_main Posix posix_ops 65 [''2'', ''1'', ''1000''] (\<lambda>_. 5) 9 0 (map ?t [0, 5]) posix_empty (\<lambda>_. smem_zero) =
        Some (tr, Se_Started 2 1 1000 mib session # es @ [Se_Stopped n], 0, k', hp')"
      and t: "length tr = length (map ?t [0, 5])" "n = of_nat (length (filter snd tr))" "fits sender_config 2 1 \<longrightarrow> list_all snd tr"
    have "map fst tr = [0, 1000005]" using m a
      by (auto simp: sender_main_def pace_def Let_def split: sum.splits prod.splits option.splits)
    with t f have "tr = [(0, True), (1000005, True)]" by (auto simp: length_Suc_conv numeral_2_eq_2)
    with m t(2) show ?thesis by auto
  qed
qed

end
