(* ===== verification/Demo_Receiver.thy ===== *)
theory Demo_Receiver
  imports Demo_Sender Bitmap
begin

text \<open>
  \<open>examples/receiver.cpp\<close>: the demo consumer.  A turn of its loop reads the latest frame, dumps one
  frame as a bitmap, prints the answers it received and, every two seconds, asks the sender for another size and pings
  it.  Lines on the console are events; sleeping is left out.  The property plays
  one request through both programs.
\<close>

section \<open>State\<close>

datatype receiver_event =
    Ev_Connected bool u64 u64
  | Ev_Dump bool u64 u32 u32
  | Ev_Pong u64
  | Ev_SizeAck u64 "u8 list"
  | Ev_Log "u8 list"
  | Ev_Requested u32 u32 u64
  | Ev_Report u64 u64 u64 u64

text \<open>Points in time of \<open>steady_clock\<close> are integers, in nanoseconds.\<close>

record receiver =
  rv_sub :: LLSubscriber
  rv_buf :: "u8 list"
  rv_info :: LLFrameInfo
  rv_report :: int
  rv_next_cmd :: int
  rv_si :: nat
  rv_ping_id :: u64
  rv_ping_at :: u64
  rv_since :: u64
  rv_dumped :: bool
  rv_was_connected :: bool
  rv_events :: "receiver_event list"

definition emit :: "receiver_event \<Rightarrow> receiver \<Rightarrow> receiver" where
  "emit e r = r\<lparr>rv_events := rv_events r @ [e]\<rparr>"

definition receiver_new :: "LLSubscriber \<Rightarrow> int \<Rightarrow> receiver" where
  "receiver_new sub now = \<lparr>rv_sub = sub, rv_buf = [], rv_info = LLFrameInfo_zero, rv_report = now,
     rv_next_cmd = now + 2000000000, rv_si = 0, rv_ping_id = 0, rv_ping_at = 0, rv_since = 0, rv_dumped = False,
     rv_was_connected = False, rv_events = []\<rparr>"

definition receiver_sizes :: "(u32 \<times> u32) list" where
  "receiver_sizes = [(320, 180), (640, 360), (800, 450), (256, 144)]"

section \<open>The parts of a turn\<close>

text \<open>Reading a frame, the connection message and the dump.\<close>

definition receiver_read :: "'k bip_ops \<Rightarrow> contention list \<Rightarrow> clock \<Rightarrow> clock \<Rightarrow> clock \<Rightarrow> (smem \<Rightarrow> nat \<Rightarrow> nat \<Rightarrow> smem)
    \<Rightarrow> file_run \<Rightarrow> int \<Rightarrow> receiver \<Rightarrow> 'k \<Rightarrow> heap \<Rightarrow> receiver \<times> 'k \<times> heap" where
  "receiver_read ops evs pclk qclk clk view io dump_after r k hp =
     (case read_latest_vec ops evs pclk qclk clk view (rv_buf r) (rv_sub r) k hp of
        ((res, buf, info), sub, k1, hp1) \<Rightarrow>
          let r1 = r\<lparr>rv_sub := sub, rv_buf := buf,
                     rv_info := (case info of Some fi \<Rightarrow> fi | None \<Rightarrow> rv_info r)\<rparr>;
              r2 = (if connected sub \<noteq> rv_was_connected r1
                    then emit (Ev_Connected (connected sub) (u_session sub) (u_sessions sub)) (r1\<lparr>rv_was_connected := connected sub\<rparr>)
                    else r1);
              r3 = (if res = Read_Ok then
                      let r4 = r2\<lparr>rv_since := rv_since r2 + 1\<rparr> in
                      if \<not> rv_dumped r4 \<and> dump_after > 0 \<and> u_received sub \<ge> of_int dump_after then
                        emit (Ev_Dump (fst (write_bmp_bgra io (Some buf) (fi_width (rv_info r4)) (fi_height (rv_info r4))
                                              (fi_stride (rv_info r4)) True))
                                (fi_frame_id (rv_info r4)) (fi_width (rv_info r4)) (fi_height (rv_info r4)))
                          (r4\<lparr>rv_dumped := True\<rparr>)
                      else r4
                    else r2)
          in (r3, k1, hp1))"

text \<open>The body of \<open>while (sub->receive(cmd))\<close>; \<open>clks i\<close> are the readings for the i-th command.\<close>

definition receiver_handle :: "(u64 \<Rightarrow> clock) \<Rightarrow> LLShmCommand \<Rightarrow> receiver \<times> heap \<Rightarrow> receiver \<times> heap" where
  "receiver_handle clks cmd st =
     (case st of (r, hp) \<Rightarrow>
        if cmd_type cmd = kPong \<and> cmd_reply_to cmd = rv_ping_id r \<and> rv_ping_at r \<noteq> 0
        then ((emit (Ev_Pong (clks (u_recvd (rv_sub r)) 2 - rv_ping_at r)) r)\<lparr>rv_ping_at := 0\<rparr>, hp)
        else if cmd_type cmd = kSizeAck then (emit (Ev_SizeAck (cmd_reply_to cmd) (cmd_data cmd)) r, hp)
        else if cmd_type cmd = kLog then (emit (Ev_Log (cmd_data cmd)) r, hp)
        else (r, hp))"

definition receiver_recv :: "(u64 \<Rightarrow> clock) \<Rightarrow> receiver \<times> heap \<Rightarrow> LLShmCommand option \<times> receiver \<times> heap" where
  "receiver_recv clks st = (case st of (r, hp) \<Rightarrow>
     case sub_receive (clks (u_recvd (rv_sub r) + 1)) (rv_sub r) hp of (x, sub, hp1) \<Rightarrow> (x, r\<lparr>rv_sub := sub\<rparr>, hp1))"

definition receiver_commands :: "nat \<Rightarrow> (u64 \<Rightarrow> clock) \<Rightarrow> receiver \<times> heap \<Rightarrow> (receiver \<times> heap) option" where
  "receiver_commands fuel clks = drain fuel (receiver_recv clks) (receiver_handle clks)"

text \<open>The requests: \<open>sclk\<close> and \<open>pclk\<close> are the readings of the two sends, \<open>pat\<close> the one between them.\<close>

definition receiver_request :: "int \<Rightarrow> clock \<Rightarrow> u64 \<Rightarrow> clock \<Rightarrow> receiver \<times> heap \<Rightarrow> receiver \<times> heap" where
  "receiver_request now sclk pat pclk st =
     (case st of (r, hp) \<Rightarrow>
        if now \<ge> rv_next_cmd r \<and> connected (rv_sub r) then
          let r1 = r\<lparr>rv_next_cmd := now + 2000000000\<rparr>;
              want = receiver_sizes ! (rv_si r1 mod 4);
              r2 = r1\<lparr>rv_si := rv_si r1 + 1\<rparr>
          in case proto_pack_size (replicate 8 0) (fst want) (snd want) of
               (p, n) \<Rightarrow>
                 (case sub_send kSetSize (Some p) n 0 sclk (rv_sub r2) hp of
                    (res, sub, hp1) \<Rightarrow>
                      let r3 = r2\<lparr>rv_sub := sub\<rparr>;
                          r4 = (case res of Some i \<Rightarrow> emit (Ev_Requested (fst want) (snd want) i) r3 | None \<Rightarrow> r3);
                          r5 = r4\<lparr>rv_ping_at := pat\<rparr>
                      in case sub_send kPing None 0 0 pclk (rv_sub r5) hp1 of
                           (res2, sub2, hp2) \<Rightarrow>
                             (r5\<lparr>rv_sub := sub2, rv_ping_id := (case res2 of Some i \<Rightarrow> i | None \<Rightarrow> rv_ping_id r5)\<rparr>, hp2))
        else (r, hp))"

definition receiver_report :: "int \<Rightarrow> receiver \<Rightarrow> receiver" where
  "receiver_report now r =
     (if now - rv_report r \<ge> 1000000000
      then (emit (Ev_Report (rv_since r) (u_received (rv_sub r)) (u_dropped (rv_sub r)) (u_sessions (rv_sub r))) r)
             \<lparr>rv_since := 0, rv_report := now\<rparr>
      else r)"

definition receiver_turn :: "'k bip_ops \<Rightarrow> contention list \<Rightarrow> clock \<Rightarrow> clock \<Rightarrow> clock \<Rightarrow> (smem \<Rightarrow> nat \<Rightarrow> nat \<Rightarrow> smem)
    \<Rightarrow> file_run \<Rightarrow> int \<Rightarrow> nat \<Rightarrow> (u64 \<Rightarrow> clock) \<Rightarrow> int \<Rightarrow> clock \<Rightarrow> u64 \<Rightarrow> clock \<Rightarrow> receiver \<Rightarrow> 'k \<Rightarrow> heap
    \<Rightarrow> (receiver \<times> 'k \<times> heap) option" where
  "receiver_turn ops evs pclk qclk rclk view io dump_after fuel clks now sclk pat gclk r k hp =
     (case receiver_read ops evs pclk qclk rclk view io dump_after r k hp of
        (r1, k1, hp1) \<Rightarrow>
          (case receiver_commands fuel clks (r1, hp1) of
             None \<Rightarrow> None
           | Some st \<Rightarrow> (case receiver_request now sclk pat gclk st of (r2, hp2) \<Rightarrow> Some (receiver_report now r2, k1, hp2))))"

section \<open>The command loop\<close>

definition receiver_ok :: "oid \<Rightarrow> receiver \<times> heap \<Rightarrow> bool" where
  "receiver_ok b st \<longleftrightarrow> attached sender_config b (rv_sub (fst st)) \<and> seg_inv sender_config (snd st b) \<and>
     owner_ok (rv_sub (fst st)) (snd st b)"

definition receiver_queue :: "oid \<Rightarrow> receiver \<times> heap \<Rightarrow> LLShmCommand list" where
  "receiver_queue b st = ring_queue sender_config Downstream (snd st b)"

text \<open>What was printed, up to the measured round trip times, and the ping that is open.\<close>

definition untimed :: "receiver_event \<Rightarrow> receiver_event" where
  "untimed e = (case e of Ev_Pong t \<Rightarrow> Ev_Pong 0 | _ \<Rightarrow> e)"

definition receiver_view :: "receiver \<times> heap \<Rightarrow> u64 \<times> bool \<times> receiver_event list" where
  "receiver_view st = (rv_ping_id (fst st), rv_ping_at (fst st) \<noteq> 0, map untimed (rv_events (fst st)))"

definition receiver_step :: "LLShmCommand \<Rightarrow> u64 \<times> bool \<times> receiver_event list \<Rightarrow> u64 \<times> bool \<times> receiver_event list" where
  "receiver_step cmd v =
     (case v of (pid, waiting, es) \<Rightarrow>
        if cmd_type cmd = kPong \<and> cmd_reply_to cmd = pid \<and> waiting then (pid, False, es @ [Ev_Pong 0])
        else if cmd_type cmd = kSizeAck then (pid, waiting, es @ [Ev_SizeAck (cmd_reply_to cmd) (cmd_data cmd)])
        else if cmd_type cmd = kLog then (pid, waiting, es @ [Ev_Log (cmd_data cmd)])
        else (pid, waiting, es))"

lemma attached_counters [simp]:
  "attached c b (m\<lparr>u_recvd := x\<rparr>) = attached c b m" "attached c b (m\<lparr>u_last_progress := y\<rparr>) = attached c b m"
  "owner_ok (m\<lparr>u_recvd := x, u_last_progress := y\<rparr>) sm = owner_ok m sm"
  "attached c b (m\<lparr>u_next_cmd := x, u_sent := y\<rparr>) = attached c b m"
  "owner_ok (m\<lparr>u_next_cmd := x, u_sent := y\<rparr>) sm = owner_ok m sm"
  by (simp_all add: attached_def owner_ok_def)

interpretation receiver_loop: command_loop "receiver_recv clks" "receiver_handle clks" "receiver_queue b" "receiver_ok b"
  receiver_view receiver_step for clks b
proof unfold_locales
  fix st :: "receiver \<times> heap"
  assume ok: "receiver_ok b st"
  obtain r hp where st: "st = (r, hp)" by force
  have at: "attached sender_config b (rv_sub r)" "seg_inv sender_config (hp b)" "owner_ok (rv_sub r) (hp b)"
    using ok by (simp_all add: st receiver_ok_def)
  let ?clk = "clks (u_recvd (rv_sub r) + 1)"
  note rc = sub_receive_eq[where hp = hp and clk = ?clk, OF at]
  have ow: "owner_ok (rv_sub r) (upd_hdr b (beat t) hp b)" for t
    using at(3) by (simp add: owner_ok_def beat_def)
  show "\<exists>s'. receiver_recv clks st = (None, s') \<and> receiver_ok b s' \<and> receiver_queue b s' = [] \<and> receiver_view s' = receiver_view st"
    if "receiver_queue b st = []"
    using rc that at seg_inv_beat[where hp = hp, OF at(2)] ow
    by (auto simp: st receiver_recv_def receiver_queue_def receiver_ok_def receiver_view_def)
  show "\<exists>s'. receiver_recv clks st = (Some x, s') \<and> receiver_ok b s' \<and> receiver_queue b s' = q \<and> receiver_view s' = receiver_view st"
    if "receiver_queue b st = x # q" for x q
  proof -
    from rc that obtain sm' where r': "sub_receive ?clk (rv_sub r) hp =
        (Some x, (rv_sub r)\<lparr>u_recvd := u_recvd (rv_sub r) + 1, u_last_progress := ?clk 1\<rparr>, hp(b := sm'))"
      and e: "cmd_effect sender_config Downstream q (upd_hdr b (beat (?clk 0)) hp b) sm'"
      by (auto simp: st receiver_queue_def)
    have "m_hdr sm' = m_hdr (upd_hdr b (beat (?clk 0)) hp b)" "seg_inv sender_config sm'" "ring_queue sender_config Downstream sm' = q"
      using e by (auto simp: cmd_effect_def)
    then show ?thesis using r' at ow[of "?clk 0"]
      by (auto simp: st receiver_recv_def receiver_queue_def receiver_ok_def receiver_view_def owner_ok_def)
  qed
  show "receiver_ok b (receiver_handle clks x st) \<and> receiver_queue b (receiver_handle clks x st) = receiver_queue b st \<and>
      receiver_view (receiver_handle clks x st) = receiver_step x (receiver_view st)" for x
    using ok by (auto simp: st receiver_handle_def receiver_ok_def receiver_queue_def receiver_view_def receiver_step_def
        emit_def untimed_def)
qed

section \<open>One request through both programs\<close>

lemma receiver_sizes_ok: "size_ok (receiver_sizes ! (i mod 4))"
proof -
  have "receiver_sizes ! (i mod 4) \<in> set receiver_sizes" by (rule nth_mem) (simp add: receiver_sizes_def)
  moreover have "\<forall>wh \<in> set receiver_sizes. size_ok wh" by (simp add: receiver_sizes_def size_ok_def)
  ultimately show ?thesis by blast
qed

lemma receiver_request_sends:
  assumes "sender_ok b (s, hp)" and "receiver_ok b (r, hp)" and "sender_queue b (s, hp) = []" and "rv_next_cmd r \<le> now"
    and "(w, h) = receiver_sizes ! (rv_si r mod 4)" and "i = u_next_cmd (rv_sub r)"
  shows "\<exists>r1 hp1. receiver_request now sclk pat pclk (r, hp) = (r1, hp1) \<and> sender_ok b (s, hp1) \<and> receiver_ok b (r1, hp1) \<and>
    sender_queue b (s, hp1) = [mk_command kSetSize (enc_pair (w, h)) i 0 (sclk 1), mk_command kPing [] (i + 1) 0 (pclk 1)] \<and>
    receiver_queue b (r1, hp1) = receiver_queue b (r, hp) \<and> rv_ping_id r1 = i + 1 \<and> rv_ping_at r1 = pat \<and>
    rv_events r1 = rv_events r @ [Ev_Requested w h i]"
proof -
  let ?c = sender_config and ?sub = "rv_sub r"
  have at: "pub_at b (sn_pub s) hp" "p_cfg (sn_pub s) = ?c" using assms(1) by (simp_all add: sender_ok_def)
  have sub: "attached ?c b ?sub" "owner_ok ?sub (hp b)" using assms(2) by (simp_all add: receiver_ok_def)
  have q: "ring_queue ?c Upstream (hp b) = []" using assms(3) by (simp add: sender_queue_def)
  have pk: "proto_pack_size (replicate 8 0) w h = (enc_pair (w, h), 8)"
    using proto_size.pack_enc[of "replicate 8 0" "(w, h)"] by simp
  have sd: "send_data (Some (enc_pair (w, h))) 8 = enc_pair (w, h)" "length (enc_pair (w, h)) = 8"
    using size.enc_width[of "(w, h)"] by (simp_all add: send_data_def)
  from sub_send_step[OF at(1) sub[folded at(2)], of "Some (enc_pair (w, h))" 8 kSetSize 0 sclk] obtain hp1 where
    s1: "sub_send kSetSize (Some (enc_pair (w, h))) 8 0 sclk ?sub hp =
      (Some i, ?sub\<lparr>u_next_cmd := i + 1, u_sent := u_sent ?sub + 1\<rparr>, hp1)"
    and at1: "pub_at b (sn_pub s) hp1" "owner_ok ?sub (hp1 b)"
    and q1: "ring_queue ?c Upstream (hp1 b) = [mk_command kSetSize (enc_pair (w, h)) i 0 (sclk 1)]"
    "ring_queue ?c Downstream (hp1 b) = ring_queue ?c Downstream (hp b)"
    using sd q by (auto simp: at(2) assms(6))
  let ?s1 = "?sub\<lparr>u_next_cmd := i + 1, u_sent := u_sent ?sub + 1\<rparr>"
  have sub1: "attached (p_cfg (sn_pub s)) b ?s1" "owner_ok ?s1 (hp1 b)" using sub(1) at1(2) by (simp_all add: at(2))
  from sub_send_step[OF at1(1) sub1, of None 0 kPing 0 pclk] obtain hp2 where
    s2: "sub_send kPing None 0 0 pclk ?s1 hp1 = (Some (i + 1), ?s1\<lparr>u_next_cmd := i + 1 + 1, u_sent := u_sent ?sub + 1 + 1\<rparr>, hp2)"
    and at2: "pub_at b (sn_pub s) hp2" "owner_ok ?s1 (hp2 b)"
    and q2: "ring_queue ?c Upstream (hp2 b) = [mk_command kSetSize (enc_pair (w, h)) i 0 (sclk 1), mk_command kPing [] (i + 1) 0 (pclk 1)]"
    "ring_queue ?c Downstream (hp2 b) = ring_queue ?c Downstream (hp b)"
    using q1 by (auto simp: at(2) send_data_def)
  have con: "connected ?sub" using sub(1) by (simp add: connected_def attached_def)
  have wh: "fst (receiver_sizes ! (rv_si r mod 4)) = w" "snd (receiver_sizes ! (rv_si r mod 4)) = h"
    by (simp_all flip: assms(5))
  have si: "seg_inv ?c (hp2 b)" using pub_atD(3)[OF at2(1)] at(2) by simp
  show ?thesis
    using s1 s2 at2 q2 con assms(1,4) sub(1) si
    by (auto simp: receiver_request_def Let_def wh pk emit_def sender_ok_def sender_queue_def receiver_ok_def receiver_queue_def)
qed

section \<open>Properties\<close>

text \<open>
  C23.  A size request through both programs.  With empty queues and the request due, the receiver asks for
  the next of its sizes and pings; the sender's next turn adopts exactly that size; and the receiver's
  next turn prints the acknowledgement of that very request, with the size in its text, and the pong of its ping.
\<close>

theorem size_negotiated:
  assumes "sender_ok b (s, hp)" and "receiver_ok b (r, hp)" and "sender_queue b (s, hp) = []" and "receiver_queue b (r, hp) = []"
    and "rv_next_cmd r \<le> now" and "pat \<noteq> 0"
    and "(w, h) = receiver_sizes ! (rv_si r mod 4)" and "i = u_next_cmd (rv_sub r)"
  shows "\<exists>r1 hp1 s2 hp2 r3 hp3. receiver_request now sclk pat pclk (r, hp) = (r1, hp1) \<and>
    sender_commands 3 clks (s, hp1) = Some (s2, hp2) \<and> sn_w s2 = w \<and> sn_h s2 = h \<and>
    receiver_commands 3 clks' (r1, hp2) = Some (r3, hp3) \<and> rv_ping_at r3 = 0 \<and>
    map untimed (rv_events r3) =
      map untimed (rv_events r) @ [Ev_Requested w h i, Ev_SizeAck i (resized_note w h), Ev_Pong 0]"
proof -
  from receiver_request_sends[OF assms(1,2,3,5,7,8)] obtain r1 hp1 where
    req: "receiver_request now sclk pat pclk (r, hp) = (r1, hp1)" "sender_ok b (s, hp1)" "receiver_ok b (r1, hp1)"
    and q: "sender_queue b (s, hp1) = [mk_command kSetSize (enc_pair (w, h)) i 0 (sclk 1), mk_command kPing [] (i + 1) 0 (pclk 1)]"
      "receiver_queue b (r1, hp1) = []"
    and p: "rv_ping_id r1 = i + 1" "rv_ping_at r1 = pat" "rv_events r1 = rv_events r @ [Ev_Requested w h i]"
    using assms(4) by metis
  have "sender_inv b (m_hdr (hp1 b)) (s, hp1)" using req(2) by (simp add: sender_inv_def)
  from sender_loop.drains[OF this, of 3 clks] q(1) obtain s2 hp2 where
    snd: "sender_commands 3 clks (s, hp1) = Some (s2, hp2)" "sender_ok b (s2, hp2)" "m_hdr (hp2 b) = m_hdr (hp1 b)"
    and v: "sender_view b (s2, hp2) = fold sender_step (sender_queue b (s, hp1)) (sender_view b (s, hp1))"
    by (auto simp: sender_commands_def sender_inv_def)
  have so: "size_ok (w, h)" using receiver_sizes_ok[of "rv_si r"] assms(7) by simp
  have u: "proto_unpack_size (enc_pair (w, h)) (length (enc_pair (w, h))) = Some (w, h)" by (rule proto_size.delivered_value)
  have rq: "replies sender_config (hp1 b) = []" using q(2) by (simp add: replies_def receiver_queue_def)
  have v2: "sn_w s2 = w" "sn_h s2 = h"
    "replies sender_config (hp2 b) = [(kSizeAck, resized_note w h, i), (kPong, [], i + 1)]"
    using v so u rq unfolding q(1)
    by (auto simp: sender_view_def sender_step_def mk_command_def opcode_defs enq_reply_def)
  then obtain y1 y2 where y: "ring_queue sender_config Downstream (hp2 b) = [y1, y2]"
    "reply_view y1 = (kSizeAck, resized_note w h, i)" "reply_view y2 = (kPong, [], i + 1)"
    by (auto simp: replies_def map_eq_Cons_conv)
  have ok2: "receiver_ok b (r1, hp2)"
    using req(3) snd(2,3) pub_atD(3)[of b "sn_pub s2" hp2] by (simp add: receiver_ok_def sender_ok_def owner_ok_def)
  from receiver_loop.drains[OF ok2, of 3 clks'] y(1) obtain r3 hp3 where
    rc: "receiver_commands 3 clks' (r1, hp2) = Some (r3, hp3)"
    and v3: "receiver_view (r3, hp3) = receiver_step y2 (receiver_step y1 (receiver_view (r1, hp2)))"
    by (auto simp: receiver_commands_def receiver_queue_def)
  have "receiver_step y2 (receiver_step y1 (receiver_view (r1, hp2))) =
      (i + 1, False, map untimed (rv_events r) @ [Ev_Requested w h i, Ev_SizeAck i (resized_note w h), Ev_Pong 0])"
    using y(2,3) p assms(6) by (simp add: receiver_view_def receiver_step_def reply_view_def opcode_defs untimed_def)
  with v3 have "rv_ping_at r3 = 0" "map untimed (rv_events r3) =
      map untimed (rv_events r) @ [Ev_Requested w h i, Ev_SizeAck i (resized_note w h), Ev_Pong 0]"
    by (simp_all add: receiver_view_def)
  with req(1) snd(1) v2(1,2) rc show ?thesis by blast
qed

definition demo_receiver_sub :: LLSubscriber where
  "demo_receiver_sub = adopted sender_config 2 \<lparr>sg_obj = 3, sg_region = (Some 2, L_total_size (compute_layout sender_config))\<rparr>
     (m_hdr (demo_sender_heap 2)) (Some 5) (LLSubscriber_new\<lparr>u_name := ''shmframe_demo''\<rparr>)"

definition demo_pair_heap :: heap where
  "demo_pair_heap = upd_hdr 2 (\<lambda>_. take_claim 5 0 (m_hdr (demo_sender_heap 2))) demo_sender_heap"

theorem size_negotiated_witness:
  "\<exists>r1 hp1 s2 hp2. receiver_request 2000000000 (\<lambda>_. 9) 10 (\<lambda>_. 11) (receiver_new demo_receiver_sub 0, demo_pair_heap) = (r1, hp1) \<and>
    sender_commands 3 (\<lambda>_ _. 12) (demo_sender, hp1) = Some (s2, hp2) \<and> sn_w s2 = 320 \<and> sn_h s2 = 180"
proof -
  have at: "pub_at 2 (sn_pub demo_sender) demo_pair_heap"
    unfolding demo_pair_heap_def using demo_sender_ok
    by (intro pub_at_owner) (simp_all add: sender_ok_def same_but_owner_def)
  have s: "sender_ok 2 (demo_sender, demo_pair_heap)" using demo_sender_ok at by (simp add: sender_ok_def)
  have cfg: "p_cfg (sn_pub demo_sender) = sender_config" using demo_sender_ok by (simp add: sender_ok_def)
  have r: "receiver_ok 2 (receiver_new demo_receiver_sub 0, demo_pair_heap)"
    using pub_atD(3)[OF at] seg_inv_describes[of sender_config "demo_sender_heap 2"] pub_atD(3)[of 2 "sn_pub demo_sender" demo_sender_heap]
      demo_sender_ok adopted_attached
    by (auto simp: receiver_ok_def receiver_new_def demo_receiver_sub_def cfg sender_ok_def owner_ok_def)
      (simp_all add: adopted_def demo_pair_heap_def take_claim_def)
  have q: "ring_queue sender_config d (demo_pair_heap 2) = []" for d by (simp add: demo_pair_heap_def demo_sender_empty)
  have "(320, 180) = receiver_sizes ! (rv_si (receiver_new demo_receiver_sub 0) mod 4)"
    by (simp add: receiver_new_def receiver_sizes_def)
  from size_negotiated[OF s r _ _ _ _ this refl, of 2000000000 10 "\<lambda>_. 9" "\<lambda>_. 11" "\<lambda>_ _. 12" "\<lambda>_ _. 13"]
  show ?thesis by (auto simp: sender_queue_def receiver_queue_def q receiver_new_def)
qed

end
