(* ===== verification/Receiver_Main.thy ===== *)
theory Receiver_Main
  imports Demo_Receiver Runtime
begin

text \<open>
  \<open>examples/receiver.cpp\<close> as a whole: the command line, the paced loop and the exit.  Between two turns other processes run; a
  signal ends the loop, so a run has as many turns as there are \<open>ticks\<close>.
\<close>

section \<open>The program\<close>

text \<open>Turns per second, and the frame to dump; \<open>None\<close> where \<open>atoi\<close> or \<open>atol\<close> is undefined.\<close>

definition receiver_args :: "string list \<Rightarrow> (int \<times> int) option" where
  "receiver_args args =
     (case (if length args > 0 then atoi (args ! 0) else Some 60, if length args > 1 then atol (args ! 1) else Some 0) of
        (Some hz, Some dump_after) \<Rightarrow> Some (hz, dump_after)
      | _ \<Rightarrow> None)"

datatype receiver_line =
    Rl_Dump_At int
  | Rl_Dump_Disabled
  | Rl_Event receiver_event
  | Rl_Done u64 u64

text \<open>
  What a turn meets: the other processes before it, the readings and views of its calls, the fate of the bitmap's file, and how
  late it reads the clock.
\<close>

record 'k receiver_tick =
  rc_world :: "'k \<times> heap \<Rightarrow> 'k \<times> heap"
  rc_evs :: "contention list"
  rc_pclk :: clock
  rc_qclk :: clock
  rc_rclk :: clock
  rc_view :: "smem \<Rightarrow> nat \<Rightarrow> nat \<Rightarrow> smem"
  rc_io :: file_run
  rc_clks :: "u64 \<Rightarrow> clock"
  rc_delay :: nat
  rc_sclk :: clock
  rc_pat :: u64
  rc_gclk :: clock

fun receiver_loop :: "'k bip_ops \<Rightarrow> nat \<Rightarrow> int \<Rightarrow> int \<Rightarrow> 'k receiver_tick list \<Rightarrow> int \<Rightarrow> receiver \<Rightarrow> 'k \<Rightarrow> heap
    \<Rightarrow> (receiver \<times> 'k \<times> heap) option" where
  "receiver_loop ops fuel period dump_after [] nxt r k hp = Some (r, k, hp)"
| "receiver_loop ops fuel period dump_after (t # ts) nxt r k hp =
     (case rc_world t (k, hp) of (k1, hp1) \<Rightarrow>
        let now = nxt + int (rc_delay t) in
        (case receiver_turn ops (rc_evs t) (rc_pclk t) (rc_qclk t) (rc_rclk t) (rc_view t) (rc_io t) dump_after fuel
                (rc_clks t) now (rc_sclk t) (rc_pat t) (rc_gclk t) r k1 hp1 of
           None \<Rightarrow> None
         | Some (r2, k2, hp2) \<Rightarrow> receiver_loop ops fuel period dump_after ts (pace period now nxt) r2 k2 hp2))"

definition receiver_main :: "'k bip_ops \<Rightarrow> nat \<Rightarrow> string list \<Rightarrow> contention list \<Rightarrow> clock \<Rightarrow> int \<Rightarrow> 'k receiver_tick list \<Rightarrow> 'k \<Rightarrow> heap
    \<Rightarrow> (receiver_line list \<times> int \<times> 'k \<times> heap) option" where
  "receiver_main ops fuel args evs clk start ts k hp =
     (case receiver_args args of
        None \<Rightarrow> None
      | Some (hz, dump_after) \<Rightarrow>
          if hz \<le> 0 then Some ([], 1, k, hp)
          else (case subscriber_open ops evs ''shmframe_demo'' clk k hp of (sub, k1, hp1) \<Rightarrow>
            (case receiver_loop ops fuel (1000000000 div hz) dump_after ts start (receiver_new sub start) k1 hp1 of
               None \<Rightarrow> None
             | Some (r, k2, hp2) \<Rightarrow>
                 (case subscriber_destroy ops (rv_sub r) k2 hp2 of
                    (k3, hp3) \<Rightarrow>
                      Some ((if dump_after > 0 then Rl_Dump_At dump_after else Rl_Dump_Disabled)
                              # map Rl_Event (rv_events r) @ [Rl_Done (u_received (rv_sub r)) (u_dropped (rv_sub r))], 0, k3, hp3)))))"

section \<open>Without a sender\<close>

text \<open>A subscriber that has never found its segment.\<close>

definition unattached :: "LLSubscriber \<Rightarrow> bool" where
  "unattached m \<longleftrightarrow> u_name m = ''shmframe_demo'' \<and> u_hdr m = None \<and> u_seg m = None \<and> u_received m = 0 \<and> u_dropped m = 0 \<and> u_sessions m = 0"

definition no_sender :: "('k \<Rightarrow> bool) \<Rightarrow> ('k \<Rightarrow> string \<Rightarrow> (oid \<times> u64) option) \<Rightarrow> 'k \<Rightarrow> bool" where
  "no_sender ok bound k \<longleftrightarrow> ok k \<and> bound k ''shmframe_demo'' = None"

lemma connect_fails:
  assumes "segment_store ok bound alloc pf ops" and "no_sender ok bound k" and "u_name m = ''shmframe_demo''"
  shows "\<exists>k'. try_connect ops evs clk m k hp = (False, m, k', hp) \<and> no_sender ok bound k'"
  using segment_store.open_free[OF assms(1), of k "u_name m"] assms(2,3) by (auto simp: no_sender_def try_connect_def)

lemma poll_fails:
  assumes "segment_store ok bound alloc pf ops" and "no_sender ok bound k" and "unattached m"
  shows "\<exists>m' k'. poll ops evs clk m k hp = (False, m', k', hp) \<and> unattached m' \<and> no_sender ok bound k'"
proof -
  have n: "u_name (m\<lparr>u_last_attempt := clk 0\<rparr>) = ''shmframe_demo''" using assms(3) by (simp add: unattached_def)
  from connect_fails[OF assms(1,2) n, of evs "\<lambda>i. clk (4 + i)" hp] obtain k' where
    "try_connect ops evs (\<lambda>i. clk (4 + i)) (m\<lparr>u_last_attempt := clk 0\<rparr>) k hp = (False, m\<lparr>u_last_attempt := clk 0\<rparr>, k', hp)"
    "no_sender ok bound k'" by blast
  then show ?thesis using assms(2,3) by (auto simp: poll_def Let_def unattached_def producer_responsive_def)
qed

lemma receiver_turn_waits:
  assumes "segment_store ok bound alloc pf ops" and "no_sender ok bound k" and "unattached (rv_sub r)" and "\<not> rv_was_connected r"
    and "0 < fuel" and "rv_since r = 0"
  shows "\<exists>r' k'. receiver_turn ops evs pclk qclk rclk view io dump_after fuel clks now sclk pat gclk r k hp = Some (r', k', hp) \<and>
    no_sender ok bound k' \<and> unattached (rv_sub r') \<and> \<not> rv_was_connected r' \<and> rv_since r' = 0 \<and>
    (if now - rv_report r \<ge> 1000000000 then rv_events r' = rv_events r @ [Ev_Report 0 0 0 0] \<and> rv_report r' = now
     else rv_events r' = rv_events r \<and> rv_report r' = rv_report r)"
proof -
  from poll_fails[OF assms(1-3), of evs pclk hp] obtain m k' where
    p: "poll ops evs pclk (rv_sub r) k hp = (False, m, k', hp)" "unattached m" "no_sender ok bound k'" by blast
  let ?r = "r\<lparr>rv_sub := m\<rparr>"
  have "\<not> connected m" using p(2) by (simp add: unattached_def connected_def)
  then have rd: "receiver_read ops evs pclk qclk rclk view io dump_after r k hp = (?r, k', hp)"
    using p(1) assms(4) by (simp add: receiver_read_def read_latest_vec_def Let_def)
  obtain n where "fuel = Suc n" using assms(5) by (cases fuel) auto
  then have cm: "receiver_commands fuel clks (?r, hp) = Some (?r, hp)"
    using p(2) by (simp add: receiver_commands_def receiver_recv_def sub_receive_def unattached_def)
  have rq: "receiver_request now sclk pat gclk (?r, hp) = (?r, hp)" using \<open>\<not> connected m\<close> by (simp add: receiver_request_def)
  show ?thesis using p(2,3) assms(4,6)
    by (auto simp: receiver_turn_def rd cm rq receiver_report_def emit_def unattached_def)
qed

lemma receiver_loop_waits:
  assumes "segment_store ok bound alloc pf ops" and "0 < fuel"
  shows "no_sender ok bound k \<Longrightarrow> unattached (rv_sub r) \<Longrightarrow> \<not> rv_was_connected r \<Longrightarrow> rv_since r = 0 \<Longrightarrow> rv_report r \<le> nxt \<Longrightarrow> 0 \<le> period \<Longrightarrow>
    \<forall>t\<in>set ts. \<forall>k hp. no_sender ok bound k \<longrightarrow> no_sender ok bound (fst (rc_world t (k, hp))) \<and> snd (rc_world t (k, hp)) = hp \<Longrightarrow>
    \<exists>r' k' n. receiver_loop ops fuel period dump_after ts nxt r k hp = Some (r', k', hp) \<and> no_sender ok bound k' \<and> unattached (rv_sub r') \<and>
      rv_events r' = rv_events r @ replicate n (Ev_Report 0 0 0 0) \<and>
      rv_report r + int n * 1000000000 \<le> last (nxt # readings period nxt (map rc_delay ts))"
proof (induction ts arbitrary: r k nxt)
  case Nil
  then show ?case by (intro exI[of _ r] exI[of _ k] exI[of _ 0]) simp
next
  case (Cons t ts)
  obtain k1 where w: "rc_world t (k, hp) = (k1, hp)" "no_sender ok bound k1"
    using Cons.prems(1,7) by (metis list.set_intros(1) prod.collapse)
  let ?now = "nxt + int (rc_delay t)" and ?nxt = "pace period (nxt + int (rc_delay t)) nxt"
  from receiver_turn_waits[OF assms(1) w(2) Cons.prems(2,3) assms(2) Cons.prems(4), of "rc_evs t" "rc_pclk t" "rc_qclk t" "rc_rclk t"
      "rc_view t" "rc_io t" dump_after "rc_clks t" ?now "rc_sclk t" "rc_pat t" "rc_gclk t" hp]
  obtain r1 k2 where t: "receiver_turn ops (rc_evs t) (rc_pclk t) (rc_qclk t) (rc_rclk t) (rc_view t) (rc_io t) dump_after fuel
        (rc_clks t) ?now (rc_sclk t) (rc_pat t) (rc_gclk t) r k1 hp = Some (r1, k2, hp)"
    and s: "no_sender ok bound k2" "unattached (rv_sub r1)" "\<not> rv_was_connected r1" "rv_since r1 = 0"
    and rep: "if ?now - rv_report r \<ge> 1000000000 then rv_events r1 = rv_events r @ [Ev_Report 0 0 0 0] \<and> rv_report r1 = ?now
      else rv_events r1 = rv_events r \<and> rv_report r1 = rv_report r" by blast
  have le: "rv_report r1 \<le> ?nxt" using rep Cons.prems(5,6) pace_ge(1)[of nxt period ?now] pace_ge(2)[of ?now period nxt] by (auto split: if_splits)
  have rest: "\<forall>t\<in>set ts. \<forall>k hp. no_sender ok bound k \<longrightarrow> no_sender ok bound (fst (rc_world t (k, hp))) \<and> snd (rc_world t (k, hp)) = hp"
    using Cons.prems(7) by simp
  from Cons.IH[OF s le Cons.prems(6) rest] obtain r' k' n where
    l: "receiver_loop ops fuel period dump_after ts ?nxt r1 k2 hp = Some (r', k', hp)" "no_sender ok bound k'" "unattached (rv_sub r')"
      "rv_events r' = rv_events r1 @ replicate n (Ev_Report 0 0 0 0)"
      "rv_report r1 + int n * 1000000000 \<le> last (?nxt # readings period ?nxt (map rc_delay ts))" by blast
  have step: "rv_report r + (if ?now - rv_report r \<ge> 1000000000 then 1000000000 else 0) \<le> rv_report r1 \<and> rv_report r1 \<le> ?now"
    using rep Cons.prems(5) by (auto split: if_splits)
  let ?n = "if ?now - rv_report r \<ge> 1000000000 then Suc n else n"
  have "rv_events r' = rv_events r @ replicate ?n (Ev_Report 0 0 0 0)" using l(4) rep by (auto split: if_splits)
  moreover have "rv_report r + int ?n * 1000000000 \<le> last (nxt # readings period nxt (map rc_delay (t # ts)))"
  proof (cases ts)
    case Nil
    then have "n = 0" using l(1,4) by simp
    then show ?thesis using step by (simp add: Nil Let_def split: if_splits)
  next
    case (Cons t' ts')
    then have "last (nxt # readings period nxt (map rc_delay (t # ts))) = last (?nxt # readings period ?nxt (map rc_delay ts))"
      by (simp add: Let_def)
    moreover have "rv_report r + int ?n * 1000000000 \<le> rv_report r1 + int n * 1000000000" using step by (simp split: if_splits)
    ultimately show ?thesis using l(5) by linarith
  qed
  moreover have "receiver_loop ops fuel period dump_after (t # ts) nxt r k hp = Some (r', k', hp)" using w(1) t l(1) by (simp add: Let_def)
  ultimately show ?case using l(2,3) by blast
qed

section \<open>Properties\<close>

text \<open>
  C35.  A receiver without a sender waits.  On every name space that meets its contract, as long as nobody creates the sender's segment: the
  receiver gets through every turn, whatever its delays, and exits with 0; it prints nothing but reports of nothing, at most one a second, touches no memory, and
  leaves the name free.  With a rate that is not positive - which is what \<open>atoi\<close> makes of a word - it exits with 1 at once.
\<close>

theorem receiver_waits:
  assumes "segment_store ok bound alloc pf ops" and "no_sender ok bound k" and "receiver_args args = Some (hz, dump_after)" and "0 < fuel"
    and "\<forall>t\<in>set ts. \<forall>k hp. no_sender ok bound k \<longrightarrow> no_sender ok bound (fst (rc_world t (k, hp))) \<and> snd (rc_world t (k, hp)) = hp"
  shows "(hz \<le> 0 \<longrightarrow> receiver_main ops fuel args evs clk start ts k hp = Some ([], 1, k, hp)) \<and>
    (0 < hz \<longrightarrow> (\<exists>k' n. no_sender ok bound k' \<and> receiver_main ops fuel args evs clk start ts k hp =
       Some ((if dump_after > 0 then Rl_Dump_At dump_after else Rl_Dump_Disabled)
               # map Rl_Event (replicate n (Ev_Report 0 0 0 0)) @ [Rl_Done 0 0], 0, k', hp) \<and>
     int n * 1000000000 \<le> last (start # readings (1000000000 div hz) start (map rc_delay ts)) - start))"
proof (cases "hz \<le> 0")
  case True
  then show ?thesis using assms(3) by (simp add: receiver_main_def)
next
  case False
  let ?m = "LLSubscriber_new\<lparr>u_name := ''shmframe_demo'', u_last_progress := clk 0\<rparr>"
  have u: "unattached ?m" by (simp add: unattached_def LLSubscriber_new_def)
  from connect_fails[OF assms(1,2), of ?m evs "\<lambda>i. clk (Suc i)" hp] obtain k1 where
    o: "subscriber_open ops evs ''shmframe_demo'' clk k hp = (?m, k1, hp)" "no_sender ok bound k1" by (auto simp: subscriber_open_def)
  have r: "unattached (rv_sub (receiver_new ?m start))" "\<not> rv_was_connected (receiver_new ?m start)" "rv_since (receiver_new ?m start) = 0"
    "rv_report (receiver_new ?m start) \<le> start" "0 \<le> 1000000000 div hz" using u False by (simp_all add: receiver_new_def pos_imp_zdiv_nonneg_iff)
  from receiver_loop_waits[OF assms(1,4) o(2) r assms(5), of dump_after hp] obtain r' k2 n where
    l: "receiver_loop ops fuel (1000000000 div hz) dump_after ts start (receiver_new ?m start) k1 hp = Some (r', k2, hp)"
      "no_sender ok bound k2" "unattached (rv_sub r')" "rv_events r' = rv_events (receiver_new ?m start) @ replicate n (Ev_Report 0 0 0 0)"
      "rv_report (receiver_new ?m start) + int n * 1000000000 \<le> last (start # readings (1000000000 div hz) start (map rc_delay ts))" by blast
  have "subscriber_destroy ops (rv_sub r') k2 hp = (k2, hp)" using l(3) by (simp add: subscriber_destroy_def unattached_def LLSegment_destroy_def)
  then have "receiver_main ops fuel args evs clk start ts k hp = Some ((if dump_after > 0 then Rl_Dump_At dump_after else Rl_Dump_Disabled)
      # map Rl_Event (replicate n (Ev_Report 0 0 0 0)) @ [Rl_Done 0 0], 0, k2, hp)"
    using assms(3) False o(1) l(1,3,4) by (simp add: receiver_main_def unattached_def receiver_new_def)
  moreover have "int n * 1000000000 \<le> last (start # readings (1000000000 div hz) start (map rc_delay ts)) - start"
    using l(5) by (simp add: receiver_new_def)
  ultimately show ?thesis using l(2) False by blast
qed

theorem receiver_waits_witness:
  "\<exists>k' n. receiver_main posix_ops 1 [''10'', ''3''] [] (\<lambda>_. 5) 0
      (replicate 25 \<lparr>rc_world = (\<lambda>x. x), rc_evs = [], rc_pclk = (\<lambda>_. 6), rc_qclk = (\<lambda>_. 6), rc_rclk = (\<lambda>_. 6), rc_view = calm,
         rc_io = \<lparr>io_open = True, io_takes = (\<lambda>_. 400), io_flush = True\<rparr>, rc_clks = (\<lambda>_ _. 7), rc_delay = 0, rc_sclk = (\<lambda>_. 8), rc_pat = 9,
         rc_gclk = (\<lambda>_. 8)\<rparr>) posix_empty (\<lambda>_. smem_zero) =
    Some (Rl_Dump_At 3 # map Rl_Event (replicate n (Ev_Report 0 0 0 0)) @ [Rl_Done 0 0], 0, k', \<lambda>_. smem_zero) \<and> n \<le> 2"
proof -
  let ?t = "\<lparr>rc_world = (\<lambda>x :: posix_kernel \<times> heap. x), rc_evs = [], rc_pclk = (\<lambda>_. 6), rc_qclk = (\<lambda>_. 6), rc_rclk = (\<lambda>_. 6), rc_view = calm,
     rc_io = \<lparr>io_open = True, io_takes = (\<lambda>_. 400), io_flush = True\<rparr>, rc_clks = (\<lambda>_ _. 7), rc_delay = 0, rc_sclk = (\<lambda>_. 8), rc_pat = 9,
     rc_gclk = (\<lambda>_. 8)\<rparr>"
  have a: "receiver_args [''10'', ''3''] = Some (10, 3)"
    by (simp add: receiver_args_def atoi_def atol_def scan_signed_def scan_number_def is_space_def is_digit_def Let_def)
  have n: "no_sender posix_ok posix_bound posix_empty" by (simp add: no_sender_def posix_empty_ok posix_empty_bound)
  have w: "\<forall>t\<in>set (replicate 25 ?t). \<forall>k hp. no_sender posix_ok posix_bound k \<longrightarrow>
      no_sender posix_ok posix_bound (fst (rc_world t (k, hp))) \<and> snd (rc_world t (k, hp)) = hp" by simp
  let ?r = "readings 100000000 0 (replicate 25 0)"
  have "?r \<noteq> []" by (subst length_0_conv[symmetric]) simp
  then have "last (0 # ?r) = ?r ! 24" by (simp add: last_conv_nth)
  also have "\<dots> = 2400000000" by (subst readings_no_drift) simp_all
  finally have r: "last (0 # readings (1000000000 div 10) 0 (map rc_delay (replicate 25 ?t))) = 2400000000" by simp
  from receiver_waits[where evs = "[]" and clk = "\<lambda>_. 5" and start = 0 and fuel = 1 and hp = "\<lambda>_. smem_zero",
      OF posix.segment_store_axioms n a _ w, unfolded r] obtain k' n where
    "receiver_main posix_ops 1 [''10'', ''3''] [] (\<lambda>_. 5) 0 (replicate 25 ?t) posix_empty (\<lambda>_. smem_zero) =
      Some (Rl_Dump_At 3 # map Rl_Event (replicate n (Ev_Report 0 0 0 0)) @ [Rl_Done 0 0], 0, k', \<lambda>_. smem_zero)"
    "int n * 1000000000 \<le> 2400000000 - 0" by auto
  moreover from this(2) have "n \<le> 2" by simp
  ultimately show ?thesis by blast
qed

end
