(* ===== verification/Canvas.thy ===== *)
theory Canvas
  imports Command_Loop
begin

text \<open>
  The canvas of a view, from \<open>examples/multiview_producer.cpp\<close>: colours, the checkerboard and the marks of
  the mouse.  A canvas is a \<open>std::vector\<close> of bytes, four per pixel; a store outside of it is undefined behaviour and
  gives \<open>None\<close> here, so that the lemmas on \<open>regenerate\<close> and \<open>draw_mark\<close> include that no such store happens.
\<close>

section \<open>Colours\<close>

datatype Color = Red | Green | Blue

definition color_from_text :: "u8 list \<Rightarrow> Color" where
  "color_from_text s = (if s = bytes_of ''red'' then Red else if s = bytes_of ''blue'' then Blue else Green)"

text \<open>\<open>r\<close> is the value of \<open>std::rand()\<close>, a non-negative number.\<close>

definition random_color :: "nat \<Rightarrow> Color" where
  "random_color r = [Red, Green, Blue] ! (r mod 3)"

section \<open>Loops and stores\<close>

text \<open>A counted loop over a canvas that stops at the first undefined store.\<close>

fun for_each :: "('i \<Rightarrow> u8 list \<Rightarrow> u8 list option) \<Rightarrow> 'i list \<Rightarrow> u8 list \<Rightarrow> u8 list option" where
  "for_each f [] c = Some c"
| "for_each f (i # js) c = (case f i c of None \<Rightarrow> None | Some c1 \<Rightarrow> for_each f js c1)"

text \<open>The four stores of a pixel at a byte offset.\<close>

definition put_px :: "u64 \<Rightarrow> u8 list \<Rightarrow> u8 list \<Rightarrow> u8 list option" where
  "put_px off px c =
     (if unat off + 4 \<le> length c then Some (take (unat off) c @ px @ drop (unat off + 4) c) else None)"

section \<open>Checkerboard\<close>

definition channel_of :: "Color \<Rightarrow> nat" where
  "channel_of color = (if color = Red then 2 else if color = Green then 1 else 0)"

definition checker_pixel :: "u32 \<Rightarrow> u8 list \<Rightarrow> u8 list \<Rightarrow> u32 \<Rightarrow> u32 \<Rightarrow> u8 list" where
  "checker_pixel sz a b x y = (if (x div sz + y div sz) mod 2 = 0 then a else b)"

text \<open>\<open>rnd i\<close> is the i-th value of \<open>std::rand()\<close> the call draws.\<close>

definition checker_size :: "(nat \<Rightarrow> nat) \<Rightarrow> u32" where
  "checker_size rnd = 16 + of_nat (rnd 0 mod 64)"

definition checker_dark :: "(nat \<Rightarrow> nat) \<Rightarrow> Color \<Rightarrow> u8 list" where
  "checker_dark rnd color = [0, 0, 0, 255][channel_of color := of_nat (32 + rnd 1 mod 128)]"

definition checker_light :: "(nat \<Rightarrow> nat) \<Rightarrow> Color \<Rightarrow> u8 list" where
  "checker_light rnd color = [0, 0, 0, 255][channel_of color := of_nat (96 + rnd 2 mod 64)]"

definition regenerate :: "(nat \<Rightarrow> nat) \<Rightarrow> u8 list \<Rightarrow> u32 \<Rightarrow> u32 \<Rightarrow> Color \<Rightarrow> u8 list option" where
  "regenerate rnd canvas w h color =
     (let sz = checker_size rnd; a = checker_dark rnd color; b = checker_light rnd color in
      for_each (\<lambda>y. for_each (\<lambda>x. put_px ((ucast y * ucast w + ucast x) * 4) (checker_pixel sz a b x y))
                      (map of_nat [0..<unat w]))
        (map of_nat [0..<unat h]) canvas)"

section \<open>Marks\<close>

text \<open>The range of both loops, \<open>-kRadius\<close> to \<open>kRadius\<close>.\<close>

definition mark_span :: "int list" where
  "mark_span = [-4..4]"

lemma set_mark_span: "set mark_span = {-4..4}"
  by (simp only: mark_span_def set_upto)

definition draw_mark :: "u8 list \<Rightarrow> u32 \<Rightarrow> u32 \<Rightarrow> 32 word \<Rightarrow> 32 word \<Rightarrow> u8 \<Rightarrow> u8 \<Rightarrow> u8 \<Rightarrow> u8 list option" where
  "draw_mark canvas w h x y r g b =
     (if sint x < 0 \<or> sint y < 0 \<or> x \<ge> w \<or> y \<ge> h then Some canvas
      else for_each (\<lambda>dy c.
             let py = sint y + dy in
             if py < 0 \<or> py \<ge> uint h then Some c
             else for_each (\<lambda>dx c.
                    let px = sint x + dx in
                    if px < 0 \<or> px \<ge> uint w then Some c
                    else put_px ((of_int py * ucast w + of_int px) * 4) [b, g, r, 255] c)
                  mark_span c)
           mark_span canvas)"

section \<open>Painting cells\<close>

text \<open>A canvas as cells: cell \<open>y * w + x\<close> is the pixel in column \<open>x\<close> and row \<open>y\<close>.\<close>

definition cell :: "u8 list \<Rightarrow> nat \<Rightarrow> u8 list" where
  "cell c j = take 4 (drop (j * 4) c)"

definition pixel_at :: "u8 list \<Rightarrow> u32 \<Rightarrow> nat \<Rightarrow> nat \<Rightarrow> u8 list" where
  "pixel_at c w x y = cell c (y * unat w + x)"

definition paints :: "nat \<Rightarrow> nat set \<Rightarrow> (nat \<Rightarrow> u8 list) \<Rightarrow> u8 list \<Rightarrow> u8 list \<Rightarrow> bool" where
  "paints n S col c c' \<longleftrightarrow> length c' = n \<and> (\<forall>j. j * 4 + 4 \<le> n \<longrightarrow> cell c' j = (if j \<in> S then col j else cell c j))"

lemma paints_nothing: "length c = n \<Longrightarrow> paints n {} col c c"
  by (simp add: paints_def)

lemma paints_Un: "paints n S col c c1 \<Longrightarrow> paints n T col c1 c2 \<Longrightarrow> paints n (S \<union> T) col c c2"
  by (auto simp: paints_def)

lemma length_cell: "j * 4 + 4 \<le> length c \<Longrightarrow> length (cell c j) = 4"
  by (simp add: cell_def)

lemma nth_cell: "j * 4 + 4 \<le> length c \<Longrightarrow> k < 4 \<Longrightarrow> cell c j ! k = c ! (j * 4 + k)"
  by (simp add: cell_def)

lemma put_px_paints:
  assumes "unat off = j * 4" and "j * 4 + 4 \<le> n" and "length c = n" and "col j = px" and "length px = 4"
  shows "\<exists>c'. put_px off px c = Some c' \<and> paints n {j} col c c'"
proof -
  let ?c = "take (j * 4) c @ px @ drop (j * 4 + 4) c"
  have l: "length ?c = n" "length (take (j * 4) c) = j * 4" using assms(2,3,5) by simp_all
  have "cell ?c i = (if i = j then px else cell c i)" if i: "i * 4 + 4 \<le> n" for i
  proof (rule nth_equalityI)
    have lc: "length (cell ?c i) = 4" "length (cell c i) = 4" using i l(1) assms(3) length_cell by metis+
    then show "length (cell ?c i) = length (if i = j then px else cell c i)" using assms(5) by simp
    fix k assume "k < length (cell ?c i)"
    then have k: "k < 4" by (simp only: lc)
    have e: "cell ?c i ! k = ?c ! (i * 4 + k)" using i l(1) k by (metis nth_cell)
    consider "i < j" | "i = j" | "j < i" by linarith
    then show "cell ?c i ! k = (if i = j then px else cell c i) ! k"
    proof cases
      assume "i < j"
      then have "?c ! (i * 4 + k) = c ! (i * 4 + k)" using k l(2) by (simp only: nth_append) simp
      with \<open>i < j\<close> e i k assms(3) show ?thesis by (simp add: nth_cell)
    next
      assume "i = j"
      then have "?c ! (i * 4 + k) = px ! k" using k l(2) assms(5) by (simp only: nth_append) simp
      with \<open>i = j\<close> e show ?thesis by simp
    next
      assume "j < i"
      then have "\<not> i * 4 + k < j * 4" "\<not> i * 4 + k - j * 4 < length px" using assms(5) by linarith+
      then have "?c ! (i * 4 + k) = drop (j * 4 + 4) c ! (i * 4 + k - j * 4 - 4)"
        unfolding nth_append l(2) by (simp only: if_False assms(5))
      also have "\<dots> = c ! (i * 4 + k)" using \<open>j < i\<close> assms(2,3) by simp
      finally show ?thesis using \<open>j < i\<close> e i k assms(3) by (simp add: nth_cell)
    qed
  qed
  then show ?thesis using assms by (simp add: put_px_def paints_def)
qed

lemma for_each_paints:
  assumes "\<And>i c. i \<in> set js \<Longrightarrow> length c = n \<Longrightarrow> \<exists>c'. f i c = Some c' \<and> paints n (S i) col c c'" and "length c = n"
  shows "\<exists>c'. for_each f js c = Some c' \<and> paints n (\<Union>i\<in>set js. S i) col c c'"
  using assms
proof (induction js arbitrary: c)
  case Nil
  then show ?case using paints_nothing by simp
next
  case (Cons i js)
  from Cons.prems(1)[of i c] Cons.prems(2) obtain c1 where c1: "f i c = Some c1" "paints n (S i) col c c1" by auto
  then have "length c1 = n" by (simp add: paints_def)
  from Cons.IH[OF _ this] Cons.prems(1) obtain c2 where "for_each f js c1 = Some c2" "paints n (\<Union>i\<in>set js. S i) col c1 c2" by auto
  with paints_Un[OF c1(2)] c1(1) show ?case by auto
qed

text \<open>Offsets are exact for every pixel of a canvas that fits the address space.\<close>

lemma cell_bound: "x < w \<Longrightarrow> y < h \<Longrightarrow> (y * w + x) * 4 + 4 \<le> w * h * (4 :: nat)"
proof -
  assume "x < w" "y < h"
  then have "y * w + x + 1 \<le> y * w + w" by simp
  also have "\<dots> = (y + 1) * w" by simp
  also have "\<dots> \<le> h * w" using \<open>y < h\<close> by (intro mult_le_mono1) simp
  finally have "(y * w + x + 1) * 4 \<le> h * w * 4" by (rule mult_le_mono1)
  then show ?thesis by (simp add: algebra_simps)
qed

lemma cell_inj: "x < w \<Longrightarrow> x' < w \<Longrightarrow> y * w + x = y' * w + x' \<longleftrightarrow> x = x' \<and> y = (y' :: nat)"
proof -
  assume a: "x < w" "x' < w"
  have "(y * w + x) div w = y" "(y * w + x) mod w = x" "(y' * w + x') div w = y'" "(y' * w + x') mod w = x'"
    using a by simp_all
  then show ?thesis by metis
qed

lemma offset_exact:
  assumes "x < unat w" and "y < unat h" and "unat w * unat h * 4 < 2 ^ 64"
  shows "unat ((of_nat y * ucast (w :: u32) + of_nat x) * 4 :: u64) = (y * unat w + x) * 4"
proof -
  have "(of_nat y * ucast w + of_nat x) * 4 = (of_nat ((y * unat w + x) * 4) :: u64)"
    by (simp only: ucast_of_unat of_nat_mult of_nat_add of_nat_numeral)
  moreover have "(y * unat w + x) * 4 < 2 ^ 64" using cell_bound[OF assms(1,2)] assms(3) by linarith
  ultimately show ?thesis by (simp only: unat_of_nat64)
qed

section \<open>What is painted\<close>

lemma sint_nonneg: "0 \<le> sint (x :: 32 word) \<Longrightarrow> sint x = int (unat x)"
proof -
  assume "0 \<le> sint x"
  moreover have "sint x < 2 ^ 31" using sint_lt[of x] by simp
  moreover have "uint x = take_bit 32 (sint x)" by (simp add: uint_sint)
  ultimately show ?thesis by (simp add: take_bit_int_eq_self)
qed

text \<open>The cells a mark covers: a square around the point, clipped; nothing if the point is outside.\<close>

definition marked :: "u32 \<Rightarrow> u32 \<Rightarrow> 32 word \<Rightarrow> 32 word \<Rightarrow> nat \<Rightarrow> nat \<Rightarrow> bool" where
  "marked w h x y px py \<longleftrightarrow> 0 \<le> sint x \<and> sint x < int (unat w) \<and> 0 \<le> sint y \<and> sint y < int (unat h) \<and>
     \<bar>int px - sint x\<bar> \<le> 4 \<and> \<bar>int py - sint y\<bar> \<le> 4"

text \<open>The cell one pass of the inner loop paints, if any.\<close>

definition mark_cell :: "u32 \<Rightarrow> u32 \<Rightarrow> 32 word \<Rightarrow> 32 word \<Rightarrow> int \<Rightarrow> int \<Rightarrow> nat set" where
  "mark_cell w h x y dy dx = (if 0 \<le> sint x + dx \<and> sint x + dx < uint w \<and> 0 \<le> sint y + dy \<and> sint y + dy < uint h
     then {nat (sint y + dy) * unat w + nat (sint x + dx)} else {})"

lemma mark_pixel:
  assumes "n = unat w * unat h * 4" and "n < 2 ^ 64" and "length c = n" and "0 \<le> sint y + dy" and "sint y + dy < uint h"
  shows "\<exists>c'. (let px = sint x + dx in if px < 0 \<or> px \<ge> uint w then Some c
      else put_px ((of_int (sint y + dy) * ucast w + of_int px) * 4) [b, g, r, 255] c) = Some c' \<and>
    paints n (mark_cell w h x y dy dx) (\<lambda>_. [b, g, r, 255]) c c'"
proof (cases "0 \<le> sint x + dx \<and> sint x + dx < uint w")
  case True
  define px' py' where "px' = nat (sint x + dx)" and "py' = nat (sint y + dy)"
  have e: "sint x + dx = int px'" "sint y + dy = int py'" using True assms(4) by (simp_all add: px'_def py'_def)
  have "int px' < int (unat w)" "int py' < int (unat h)" using True assms(5) e by (simp_all only: uint_nat)
  then have lt: "px' < unat w" "py' < unat h" by (simp_all only: of_nat_less_iff)
  have "(py' * unat w + px') * 4 + 4 \<le> n" using cell_bound[OF lt] assms(1) by simp
  moreover have "unat ((of_int (sint y + dy) * ucast w + of_int (sint x + dx)) * 4 :: u64) = (py' * unat w + px') * 4"
    unfolding e of_int_of_nat_eq using assms(1,2) by (intro offset_exact[OF lt]) simp
  ultimately have "\<exists>c'. put_px ((of_int (sint y + dy) * ucast w + of_int (sint x + dx)) * 4) [b, g, r, 255] c = Some c' \<and>
      paints n {py' * unat w + px'} (\<lambda>_. [b, g, r, 255]) c c'"
    using assms(3) by (intro put_px_paints) simp_all
  moreover have "mark_cell w h x y dy dx = {py' * unat w + px'}" using True assms(4,5) by (simp add: mark_cell_def px'_def py'_def)
  moreover have "\<not> (sint x + dx < 0 \<or> sint x + dx \<ge> uint w)" using True by simp
  ultimately show ?thesis by (simp only: Let_def if_False)
next
  case False
  then have "mark_cell w h x y dy dx = {}" by (auto simp: mark_cell_def)
  then show ?thesis using False assms(3) paints_nothing[of c] by auto
qed

lemma mark_row:
  assumes "n = unat w * unat h * 4" and "n < 2 ^ 64" and "length c = n"
  shows "\<exists>c'. (let py = sint y + dy in if py < 0 \<or> py \<ge> uint h then Some c
      else for_each (\<lambda>dx c. let px = sint x + dx in if px < 0 \<or> px \<ge> uint w then Some c
        else put_px ((of_int py * ucast w + of_int px) * 4) [b, g, r, 255] c) mark_span c) = Some c' \<and>
    paints n (\<Union>dx\<in>set mark_span. mark_cell w h x y dy dx) (\<lambda>_. [b, g, r, 255]) c c'"
proof (cases "0 \<le> sint y + dy \<and> sint y + dy < uint h")
  case True
  have "\<exists>c'. for_each (\<lambda>dx c. let px = sint x + dx in if px < 0 \<or> px \<ge> uint w then Some c
      else put_px ((of_int (sint y + dy) * ucast w + of_int px) * 4) [b, g, r, 255] c) mark_span c = Some c' \<and>
    paints n (\<Union>dx\<in>set mark_span. mark_cell w h x y dy dx) (\<lambda>_. [b, g, r, 255]) c c'"
    by (rule for_each_paints[OF _ assms(3)]) (use mark_pixel[OF assms(1,2)] True in blast)
  moreover have "\<not> (sint y + dy < 0 \<or> sint y + dy \<ge> uint h)" using True by simp
  ultimately show ?thesis by (simp only: Let_def if_False)
next
  case False
  then have "(\<Union>dx\<in>set mark_span. mark_cell w h x y dy dx) = {}" by (auto simp: mark_cell_def)
  then show ?thesis using False assms(3) paints_nothing[of c] by auto
qed

text \<open>All passes together paint the marked cells.\<close>

lemma mark_cells:
  assumes "\<not> (sint x < 0 \<or> sint y < 0 \<or> x \<ge> w \<or> y \<ge> h)"
  shows "(\<Union>dy\<in>set mark_span. \<Union>dx\<in>set mark_span. mark_cell w h x y dy dx) =
    {py * unat w + px | px py. px < unat w \<and> py < unat h \<and> marked w h x y px py}" (is "?A = ?B")
proof (intro set_eqI iffI)
  fix j assume "j \<in> ?A"
  then obtain dy dx where d: "dy \<in> {-4..4}" "dx \<in> {-4..4}" "j \<in> mark_cell w h x y dy dx" by (auto simp: set_mark_span)
  from d(3) have j: "j = nat (sint y + dy) * unat w + nat (sint x + dx)"
    "0 \<le> sint x + dx" "sint x + dx < uint w" "0 \<le> sint y + dy" "sint y + dy < uint h" by (simp_all add: mark_cell_def split: if_splits)
  have "nat (sint x + dx) < unat w" "nat (sint y + dy) < unat h" using j(2-5) unfolding uint_nat by linarith+
  moreover have "sint x = int (unat x)" "sint y = int (unat y)" "unat x < unat w" "unat y < unat h"
    using assms sint_nonneg[of x] sint_nonneg[of y] by (simp_all only: not_le word_less_nat_alt de_Morgan_disj not_less)
  then have "sint x < int (unat w)" "sint y < int (unat h)" by linarith+
  moreover have "\<bar>dx\<bar> \<le> 4" "\<bar>dy\<bar> \<le> 4" using d(1,2) by auto
  ultimately have "marked w h x y (nat (sint x + dx)) (nat (sint y + dy))" using assms j(2,4) by (simp add: marked_def)
  with \<open>nat (sint x + dx) < unat w\<close> \<open>nat (sint y + dy) < unat h\<close> j(1) show "j \<in> ?B" by blast
next
  fix j assume "j \<in> ?B"
  then obtain px py where p: "j = py * unat w + px" "px < unat w" "py < unat h" "marked w h x y px py" by blast
  have "int px < uint w" "int py < uint h" using p(2,3) unfolding uint_nat by (simp_all only: of_nat_less_iff)
  then have "j \<in> mark_cell w h x y (int py - sint y) (int px - sint x)" using p(1) by (simp add: mark_cell_def)
  moreover have "int py - sint y \<in> set mark_span" "int px - sint x \<in> set mark_span" using p(4) by (auto simp: marked_def set_mark_span)
  ultimately show "j \<in> ?A" by blast
qed

lemma draw_mark_paints:
  assumes "length c = unat w * unat h * 4" and "length c < 2 ^ 64"
  shows "\<exists>c'. draw_mark c w h x y r g b = Some c' \<and> paints (length c)
    {py * unat w + px | px py. px < unat w \<and> py < unat h \<and> marked w h x y px py} (\<lambda>_. [b, g, r, 255]) c c'"
proof (cases "sint x < 0 \<or> sint y < 0 \<or> x \<ge> w \<or> y \<ge> h")
  case True
  have "\<not> marked w h x y px py" for px py
  proof
    assume "marked w h x y px py"
    then have "\<not> sint x < 0" "\<not> sint y < 0" "unat x < unat w" "unat y < unat h"
      using sint_nonneg[of x] sint_nonneg[of y] by (simp_all only: marked_def, linarith+)
    with True show False by (simp add: word_le_unat)
  qed
  then show ?thesis using True paints_nothing[of c] by (simp add: draw_mark_def)
next
  case False
  have "\<exists>c'. draw_mark c w h x y r g b = Some c' \<and>
      paints (length c) (\<Union>dy\<in>set mark_span. \<Union>dx\<in>set mark_span. mark_cell w h x y dy dx) (\<lambda>_. [b, g, r, 255]) c c'"
    unfolding draw_mark_def if_not_P[OF False] by (rule for_each_paints[OF _ refl]) (use mark_row[OF assms] in blast)
  then show ?thesis unfolding mark_cells[OF False] .
qed

lemma regenerate_paints:
  assumes "length c = unat w * unat h * 4" and "length c < 2 ^ 64"
  shows "\<exists>c'. regenerate rnd c w h color = Some c' \<and> paints (length c) {..<unat w * unat h}
    (\<lambda>j. checker_pixel (checker_size rnd) (checker_dark rnd color) (checker_light rnd color) (of_nat (j mod unat w)) (of_nat (j div unat w))) c c'"
proof -
  let ?n = "length c" and ?px = "checker_pixel (checker_size rnd) (checker_dark rnd color) (checker_light rnd color)"
  let ?col = "\<lambda>j. ?px (of_nat (j mod unat w)) (of_nat (j div unat w))"
  have len: "length (?px x y) = 4" for x y by (simp add: checker_pixel_def checker_dark_def checker_light_def del: list_update.simps)
  have store: "\<exists>c'. put_px ((ucast y * ucast w + ucast x) * 4) (?px x y) c1 = Some c' \<and> paints ?n {unat y * unat w + unat x} ?col c1 c'"
    if l: "length c1 = ?n" and lt: "unat x < unat w" "unat y < unat h" for c1 x y
  proof (rule put_px_paints)
    show "(unat y * unat w + unat x) * 4 + 4 \<le> ?n" using cell_bound[OF lt] assms(1) by simp
    show "unat ((ucast y * ucast w + ucast x) * 4 :: u64) = (unat y * unat w + unat x) * 4"
      unfolding ucast_of_unat[of y] ucast_of_unat[of x] using assms by (intro offset_exact[OF lt]) simp
    have "(unat y * unat w + unat x) mod unat w = unat x" "(unat y * unat w + unat x) div unat w = unat y" using lt by simp_all
    then show "?col (unat y * unat w + unat x) = ?px x y" by simp
  qed (use l len in simp_all)
  let ?xs = "map of_nat [0..<unat w] :: u32 list" and ?ys = "map of_nat [0..<unat h] :: u32 list"
  have xs: "unat x < unat w" if "x \<in> set ?xs" for x using that unat_lt32[of w] by (auto simp: unat_of_nat32)
  have ys: "unat y < unat h" if "y \<in> set ?ys" for y using that unat_lt32[of h] by (auto simp: unat_of_nat32)
  have row: "\<exists>c'. for_each (\<lambda>x. put_px ((ucast y * ucast w + ucast x) * 4) (?px x y)) ?xs c1 = Some c' \<and>
      paints ?n (\<Union>x\<in>set ?xs. {unat y * unat w + unat x}) ?col c1 c'" if "length c1 = ?n" "y \<in> set ?ys" for c1 y
    by (rule for_each_paints[OF _ that(1)]) (use store xs ys[OF that(2)] in blast)
  have "\<exists>c'. regenerate rnd c w h color = Some c' \<and>
      paints ?n (\<Union>y\<in>set ?ys. \<Union>x\<in>set ?xs. {unat y * unat w + unat x}) ?col c c'"
    unfolding regenerate_def Let_def by (rule for_each_paints[OF _ refl]) (use row in blast)
  moreover have "(\<Union>y\<in>set ?ys. \<Union>x\<in>set ?xs. {unat y * unat w + unat x}) = {..<unat w * unat h}" (is "?A = ?B")
  proof (intro set_eqI iffI)
    fix j assume "j \<in> ?A"
    then obtain x y where xy: "j = unat y * unat w + unat x" "x \<in> set ?xs" "y \<in> set ?ys" by (elim UN_E singletonE) (rule that)
    note xs[OF xy(2)] ys[OF xy(3)]
    then show "j \<in> ?B" using cell_bound[of "unat x" "unat w" "unat y" "unat h"] xy(1) by simp
  next
    fix j assume j: "j \<in> ?B"
    then have w: "0 < unat w" by (cases "unat w") auto
    have lt: "j mod unat w < unat w" "j div unat w < unat h" using j w by (simp_all add: less_mult_imp_div_less ac_simps)
    then have m: "of_nat (j mod unat w) \<in> set ?xs" "of_nat (j div unat w) \<in> set ?ys" by auto
    have u: "unat (of_nat (j mod unat w) :: u32) = j mod unat w" "unat (of_nat (j div unat w) :: u32) = j div unat w"
      using lt unat_lt32[of w] unat_lt32[of h] by (simp_all only: unat_of_nat32)
    have "j = unat (of_nat (j div unat w) :: u32) * unat w + unat (of_nat (j mod unat w) :: u32)" unfolding u by simp
    with m show "j \<in> ?A" by blast
  qed
  ultimately show ?thesis by simp
qed

text \<open>A mark, pixel by pixel.\<close>

lemma mark_pixels:
  assumes "length c = unat w * unat h * 4" and "length c < 2 ^ 64"
  shows "\<exists>c'. draw_mark c w h x y r g b = Some c' \<and> length c' = length c \<and>
    (\<forall>px py. px < unat w \<and> py < unat h \<longrightarrow>
       pixel_at c' w px py = (if marked w h x y px py then [b, g, r, 255] else pixel_at c w px py))"
proof -
  from draw_mark_paints[OF assms] obtain c' where c': "draw_mark c w h x y r g b = Some c'"
    "paints (length c) {py * unat w + px | px py. px < unat w \<and> py < unat h \<and> marked w h x y px py} (\<lambda>_. [b, g, r, 255]) c c'" by blast
  have "pixel_at c' w px py = (if marked w h x y px py then [b, g, r, 255] else pixel_at c w px py)"
    if lt: "px < unat w" "py < unat h" for px py
  proof -
    have "py * unat w + px \<in> {py * unat w + px | px py. px < unat w \<and> py < unat h \<and> marked w h x y px py} \<longleftrightarrow> marked w h x y px py"
      using lt by (auto simp: cell_inj)
    moreover have "(py * unat w + px) * 4 + 4 \<le> length c" using cell_bound[OF lt] assms(1) by simp
    ultimately show ?thesis using c'(2) by (simp only: paints_def pixel_at_def)
  qed
  then show ?thesis using c' by (simp add: paints_def)
qed

section \<open>Properties\<close>

text \<open>
  A mark stays on the canvas: for a canvas of w by h pixels and any coordinates, negative and huge ones
  included, \<open>draw_mark\<close> makes no store outside the canvas and changes exactly the pixels within four of the point in
  both directions, clipped to the canvas; a point outside of it changes nothing.
\<close>

theorem mark_clipped:
  assumes "length c = unat w * unat h * 4" and "length c < 2 ^ 64"
  shows "\<exists>c'. draw_mark c w h x y r g b = Some c' \<and> length c' = length c \<and>
    (\<forall>px py. px < unat w \<and> py < unat h \<longrightarrow>
       pixel_at c' w px py = (if marked w h x y px py then [b, g, r, 255] else pixel_at c w px py))"
  using assms by (rule mark_pixels)

theorem mark_clipped_witness:
  "\<exists>c'. draw_mark (replicate 24 0) 6 1 5 0 1 2 3 = Some c' \<and> pixel_at c' 6 0 0 = [0, 0, 0, 0] \<and> pixel_at c' 6 1 0 = [3, 2, 1, 255]"
proof -
  from mark_clipped[of "replicate 24 0" 6 1 5 0 1 2 3] obtain c' where
    c': "draw_mark (replicate 24 0) 6 1 5 0 1 2 3 = Some c'" and
    "\<forall>px py. px < 6 \<and> py < 1 \<longrightarrow> pixel_at c' 6 px py =
      (if marked 6 1 5 0 px py then [3, 2, 1, 255] else pixel_at (replicate 24 0) 6 px py)" by auto
  moreover have "\<not> marked 6 1 5 0 0 0" "marked 6 1 5 0 1 0" by (simp_all add: marked_def)
  moreover have "pixel_at (replicate 24 0) 6 0 0 = [0, 0, 0, 0]" by (simp add: pixel_at_def cell_def numeral_eq_Suc)
  ultimately have "pixel_at c' 6 0 0 = [0, 0, 0, 0]" "pixel_at c' 6 1 0 = [3, 2, 1, 255]" by simp_all
  with c' show ?thesis by blast
qed

text \<open>
  Regenerating erases everything: whatever the canvas of w by h pixels held, \<open>regenerate\<close> makes no store outside
  of it and leaves every pixel in one of the two opaque shades of the colour, alternating in squares of 16 to 79 pixels.
\<close>

theorem checkerboard_drawn:
  assumes "length c = unat w * unat h * 4" and "length c < 2 ^ 64"
  shows "\<exists>c'. regenerate rnd c w h color = Some c' \<and> length c' = length c \<and> 16 \<le> checker_size rnd \<and> checker_size rnd < 80 \<and>
    checker_dark rnd color ! 3 = 255 \<and> checker_light rnd color ! 3 = 255 \<and>
    (\<forall>px py. px < unat w \<and> py < unat h \<longrightarrow> pixel_at c' w px py =
       (if even (px div unat (checker_size rnd) + py div unat (checker_size rnd)) then checker_dark rnd color else checker_light rnd color))"
proof -
  let ?sz = "checker_size rnd"
  have sz: "unat ?sz = 16 + rnd 0 mod 64"
  proof -
    have "?sz = of_nat (16 + rnd 0 mod 64)" by (simp add: checker_size_def)
    moreover have "16 + rnd 0 mod 64 < 2 ^ 32" using mod_less_divisor[of 64 "rnd 0"] by simp
    ultimately show ?thesis by (simp only: unat_of_nat32)
  qed
  from regenerate_paints[OF assms, of rnd color] obtain c' where c': "regenerate rnd c w h color = Some c'"
    "paints (length c) {..<unat w * unat h} (\<lambda>j. checker_pixel ?sz (checker_dark rnd color) (checker_light rnd color)
      (of_nat (j mod unat w)) (of_nat (j div unat w))) c c'" by blast
  have "pixel_at c' w px py = (if even (px div unat ?sz + py div unat ?sz) then checker_dark rnd color else checker_light rnd color)"
    if lt: "px < unat w" "py < unat h" for px py
  proof -
    have b: "(py * unat w + px) * 4 + 4 \<le> length c" "py * unat w + px < unat w * unat h" using cell_bound[OF lt] assms(1) by auto
    have "(py * unat w + px) mod unat w = px" "(py * unat w + px) div unat w = py" using lt by simp_all
    then have "pixel_at c' w px py = checker_pixel ?sz (checker_dark rnd color) (checker_light rnd color) (of_nat px) (of_nat py)"
      using c'(2) b by (simp add: paints_def pixel_at_def)
    moreover have "((of_nat px div ?sz + of_nat py div ?sz) mod 2 = 0) = even (px div unat ?sz + py div unat ?sz)"
    proof -
      have u: "unat (of_nat px :: u32) = px" "unat (of_nat py :: u32) = py"
        using lt unat_lt32[of w] unat_lt32[of h] by (simp_all only: unat_of_nat32)
      have "px div unat ?sz \<le> px div 16" "py div unat ?sz \<le> py div 16" by (rule div_le_mono2; simp add: sz)+
      then have "px div unat ?sz + py div unat ?sz < 2 ^ 32"
        using lt unat_lt32[of w] unat_lt32[of h] by linarith
      then have "unat (of_nat px div ?sz + of_nat py div ?sz) = px div unat ?sz + py div unat ?sz"
        using unat_add_lem[of "of_nat px div ?sz" "of_nat py div ?sz"] by (simp add: unat_div u)
      then have "unat ((of_nat px div ?sz + of_nat py div ?sz) mod 2) = (px div unat ?sz + py div unat ?sz) mod 2"
        by (simp add: unat_mod)
      then show ?thesis by (metis even_iff_mod_2_eq_zero unat_eq_zero)
    qed
    ultimately show ?thesis by (simp add: checker_pixel_def)
  qed
  moreover have "16 \<le> ?sz" "?sz < 80" using sz mod_less_divisor[of 64 "rnd 0"] by (simp_all add: word_le_unat word_less_nat_alt)
  moreover have "checker_dark rnd color ! 3 = 255" "checker_light rnd color ! 3 = 255"
    by (cases color; simp add: checker_dark_def checker_light_def channel_of_def)+
  ultimately show ?thesis using c' by (simp add: paints_def)
qed

theorem checkerboard_drawn_witness:
  "\<exists>c'. regenerate (\<lambda>_. 0) (replicate 68 7) 17 1 Red = Some c' \<and> pixel_at c' 17 15 0 = [0, 0, 32, 255] \<and>
    pixel_at c' 17 16 0 = [0, 0, 96, 255]"
proof -
  have d: "checker_size (\<lambda>_. 0) = 16" "checker_dark (\<lambda>_. 0) Red = [0, 0, 32, 255]" "checker_light (\<lambda>_. 0) Red = [0, 0, 96, 255]"
    by (simp_all add: checker_size_def checker_dark_def checker_light_def channel_of_def)
  from checkerboard_drawn[of "replicate 68 7" 17 1 "\<lambda>_. 0" Red] obtain c' where
    c': "regenerate (\<lambda>_. 0) (replicate 68 7) 17 1 Red = Some c'"
    and p: "\<And>px. px < 17 \<Longrightarrow> pixel_at c' 17 px 0 = (if even (px div 16) then [0, 0, 32, 255] else [0, 0, 96, 255])"
    by (auto simp: d)
  from c' p[of 15] p[of 16] show ?thesis by simp
qed

end
