(* ===== verification/Multiview_Slot.thy ===== *)
theory Multiview_Slot
  imports Canvas
begin

text \<open>
  A slot of the view pool in \<open>examples/multiview_producer.cpp\<close>: its state, allocation and release, the commands
  of its consumer, and one pass of the service loop over it.  The command loop is an interpretation of \<open>command_loop\<close> in
  which handling a command is a function on the slot alone.  \<open>None\<close> is a store outside the canvas; that it
  never happens is part of the invariant.
\<close>

section \<open>State\<close>

text \<open>Points in time of \<open>steady_clock\<close> are integers, in nanoseconds.\<close>

definition kRegenPeriod :: int where "kRegenPeriod = 2000000000"
definition kPublishPeriod :: int where "kPublishPeriod = 33000000"
definition kIdleGracePeriod :: int where "kIdleGracePeriod = 5000000000"

record Slot =
  sl_pub :: "LLPublisher option"
  sl_canvas :: "u8 list"
  sl_width :: u32
  sl_height :: u32
  sl_color :: Color
  sl_next_regen :: int
  sl_dirty :: bool
  sl_had_subscriber :: bool
  sl_last_active :: int

definition Slot_new :: Slot where
  "Slot_new = \<lparr>sl_pub = None, sl_canvas = [], sl_width = kDefaultWidth, sl_height = kDefaultHeight, sl_color = Green,
     sl_next_regen = 0, sl_dirty = True, sl_had_subscriber = False, sl_last_active = 0\<rparr>"

text \<open>The template \<open>view_cfg\<close> of \<open>main\<close>, and the name of a channel.\<close>

definition view_cfg :: LLConfig where
  "view_cfg = LLConfig_default\<lparr>cfg_max_width := kMaxWidth, cfg_max_height := kMaxHeight\<rparr>"

definition channel_name :: "nat \<Rightarrow> string" where
  "channel_name index = kChannelPrefix @ decimal index"

section \<open>Allocation and release\<close>

text \<open>Overwriting the owning pointer destroys the publisher it held.\<close>

definition release_pub :: "platform \<Rightarrow> 'k bip_ops \<Rightarrow> LLPublisher option \<Rightarrow> 'k \<Rightarrow> heap \<Rightarrow> 'k \<times> heap" where
  "release_pub pf ops p k hp = (case p of None \<Rightarrow> (k, hp) | Some q \<Rightarrow> publisher_destroy pf ops q k hp)"

definition allocate_slot :: "platform \<Rightarrow> 'k bip_ops \<Rightarrow> Slot \<Rightarrow> nat \<Rightarrow> LLConfig \<Rightarrow> int \<Rightarrow> clock \<Rightarrow> u64 \<Rightarrow> 'k \<Rightarrow> heap
    \<Rightarrow> (bool \<times> Slot) \<times> 'k \<times> heap" where
  "allocate_slot pf ops s index cfg0 now clk wall k hp =
     (let cfg = cfg0\<lparr>cfg_name := channel_name index\<rparr> in
      case publisher_create pf ops cfg clk wall k hp of
        ((None, st), k1, hp1) \<Rightarrow> ((False, s), k1, hp1)
      | ((Some pub, st), k1, hp1) \<Rightarrow>
          (case release_pub pf ops (sl_pub s) k1 hp1 of
             (k2, hp2) \<Rightarrow>
               ((True, s\<lparr>sl_pub := Some pub,
                         sl_canvas := replicate (unat (ucast kDefaultWidth * ucast kDefaultHeight * 4 :: u64)) 0,
                         sl_width := kDefaultWidth, sl_height := kDefaultHeight, sl_color := Green,
                         sl_next_regen := now, sl_dirty := True, sl_had_subscriber := False, sl_last_active := now\<rparr>), k2, hp2)))"

definition free_slot :: "platform \<Rightarrow> 'k bip_ops \<Rightarrow> Slot \<Rightarrow> 'k \<Rightarrow> heap \<Rightarrow> Slot \<times> 'k \<times> heap" where
  "free_slot pf ops s k hp = (case release_pub pf ops (sl_pub s) k hp of (k1, hp1) \<Rightarrow> (Slot_new, k1, hp1))"

section \<open>Commands of the consumer\<close>

definition slot_mark :: "Slot \<Rightarrow> 32 word \<Rightarrow> 32 word \<Rightarrow> u8 \<Rightarrow> u8 \<Rightarrow> u8 \<Rightarrow> Slot option" where
  "slot_mark s x y r g b =
     map_option (\<lambda>c. s\<lparr>sl_canvas := c\<rparr>) (draw_mark (sl_canvas s) (sl_width s) (sl_height s) x y r g b)"

definition slot_resize :: "Slot \<Rightarrow> u32 \<Rightarrow> u32 \<Rightarrow> Slot" where
  "slot_resize s w0 h0 =
     (let w = min w0 kMaxWidth; h = min h0 kMaxHeight in
      if w \<noteq> sl_width s \<or> h \<noteq> sl_height s
      then s\<lparr>sl_width := w, sl_height := h, sl_canvas := replicate (unat (ucast w * ucast h * 4 :: u64)) 0, sl_dirty := True\<rparr>
      else s)"

text \<open>The \<open>switch\<close>; yellow marks for moves, white ones for buttons.\<close>

definition slot_command :: "LLShmCommand \<Rightarrow> Slot \<Rightarrow> Slot option" where
  "slot_command cmd s =
     (let d = cmd_data cmd; n = length (cmd_data cmd) in
      if cmd_type cmd = kSetUrl then Some (s\<lparr>sl_color := color_from_text d, sl_dirty := True\<rparr>)
      else if cmd_type cmd = kMouseMove then
        (case unpack_i32x2 d n of Some (x, y) \<Rightarrow> slot_mark s x y 255 255 0 | None \<Rightarrow> Some s)
      else if cmd_type cmd = kMouseButton then
        (case unpack_mouse_button d n of Some (x, y, button, action) \<Rightarrow> slot_mark s x y 255 255 255 | None \<Rightarrow> Some s)
      else if cmd_type cmd = kResize then
        (case unpack_size d n of
           Some (w, h) \<Rightarrow> if w \<noteq> 0 \<and> h \<noteq> 0 then Some (slot_resize s w h) else Some s
         | None \<Rightarrow> Some s)
      else Some s)"

definition slot_recv :: "(Slot \<times> heap) option \<Rightarrow> LLShmCommand option \<times> (Slot \<times> heap) option" where
  "slot_recv st =
     (case st of None \<Rightarrow> (None, None)
      | Some (s, hp) \<Rightarrow>
          (case sl_pub s of None \<Rightarrow> (None, Some (s, hp))
           | Some p \<Rightarrow> (case pub_receive p hp of (x, p1, hp1) \<Rightarrow> (x, Some (s\<lparr>sl_pub := Some p1\<rparr>, hp1)))))"

definition slot_handle :: "LLShmCommand \<Rightarrow> (Slot \<times> heap) option \<Rightarrow> (Slot \<times> heap) option" where
  "slot_handle cmd st =
     (case st of None \<Rightarrow> None | Some (s, hp) \<Rightarrow> map_option (\<lambda>s1. (s1, hp)) (slot_command cmd s))"

section \<open>One pass over a slot\<close>

text \<open>
  \<open>rnd\<close> are the values of \<open>std::rand()\<close> drawn for this slot, the first one for a colour.  \<open>None\<close>: the command loop ran out of
  fuel, or a store left the canvas.
\<close>

definition slot_attend :: "int \<Rightarrow> nat \<Rightarrow> bool \<Rightarrow> Slot \<Rightarrow> Slot" where
  "slot_attend now r has_sub s =
     (let s1 = (if has_sub
                then (if \<not> sl_had_subscriber s then s\<lparr>sl_color := random_color r, sl_dirty := True\<rparr> else s)\<lparr>sl_last_active := now\<rparr>
                else s)
      in s1\<lparr>sl_had_subscriber := has_sub\<rparr>)"

definition slot_regen :: "int \<Rightarrow> (nat \<Rightarrow> nat) \<Rightarrow> Slot \<Rightarrow> Slot option" where
  "slot_regen now rnd s =
     (if sl_dirty s \<or> now \<ge> sl_next_regen s
      then map_option (\<lambda>c. s\<lparr>sl_canvas := c, sl_next_regen := now + kRegenPeriod, sl_dirty := False\<rparr>)
             (regenerate rnd (sl_canvas s) (sl_width s) (sl_height s) (sl_color s))
      else Some s)"

definition slot_service :: "nat \<Rightarrow> platform \<Rightarrow> 'k bip_ops \<Rightarrow> int \<Rightarrow> clock \<Rightarrow> (nat \<Rightarrow> nat) \<Rightarrow> Slot \<Rightarrow> 'k \<Rightarrow> heap
    \<Rightarrow> (Slot \<times> 'k \<times> heap) option" where
  "slot_service fuel pf ops now clk rnd s k hp =
     (case sl_pub s of
        None \<Rightarrow> Some (s, k, hp)
      | Some p \<Rightarrow>
          let has_sub = has_subscriber p hp in
          if has_sub \<and> command_owner_stale clk p hp then Some (free_slot pf ops s k hp)
          else if \<not> has_sub \<and> now - sl_last_active s \<ge> kIdleGracePeriod then Some (free_slot pf ops s k hp)
          else (case drain fuel slot_recv slot_handle (Some (slot_attend now (rnd 0) has_sub s, hp)) of
                  None \<Rightarrow> None
                | Some None \<Rightarrow> None
                | Some (Some (s1, hp1)) \<Rightarrow> map_option (\<lambda>s2. (s2, k, hp1)) (slot_regen now (\<lambda>i. rnd (Suc i)) s1)))"

definition slot_publish :: "clock \<Rightarrow> Slot \<Rightarrow> heap \<Rightarrow> Slot \<times> heap" where
  "slot_publish clk s hp =
     (case sl_pub s of
        None \<Rightarrow> (s, hp)
      | Some p \<Rightarrow>
          (case publish (Some (sl_canvas s)) (sl_width s) (sl_height s) 0 clk p hp of
             (_, p1, hp1) \<Rightarrow> (s\<lparr>sl_pub := Some p1\<rparr>, hp1)))"

section \<open>The canvas fits its geometry\<close>

definition canvas_ok :: "Slot \<Rightarrow> bool" where
  "canvas_ok s \<longleftrightarrow> sl_width s \<noteq> 0 \<and> sl_height s \<noteq> 0 \<and> sl_width s \<le> kMaxWidth \<and> sl_height s \<le> kMaxHeight \<and>
     length (sl_canvas s) = unat (sl_width s) * unat (sl_height s) * 4"

lemma canvas_size:
  assumes "w \<le> kMaxWidth" and "h \<le> kMaxHeight"
  shows "unat (ucast w * ucast h * 4 :: u64) = unat w * unat h * 4" and "unat w * unat h * 4 \<le> 8294400"
proof -
  have "unat w \<le> 1920" "unat h \<le> 1080" using assms by (simp_all add: geometry_defs word_le_unat)
  then have "unat w * unat h \<le> 1920 * 1080" by (rule mult_le_mono)
  then show b: "unat w * unat h * 4 \<le> 8294400" by linarith
  have "ucast w * ucast h * 4 = (of_nat (unat w * unat h * 4) :: u64)"
    by (simp only: ucast_of_unat of_nat_mult of_nat_numeral)
  then show "unat (ucast w * ucast h * 4 :: u64) = unat w * unat h * 4"
    using unat_of_nat64[of "unat w * unat h * 4"] le_less_trans[OF b, of "2 ^ 64"] by (simp del: of_nat_mult)
qed

lemma canvas_okD:
  assumes "canvas_ok s"
  shows "length (sl_canvas s) = unat (sl_width s) * unat (sl_height s) * 4" "length (sl_canvas s) < 2 ^ 64"
proof -
  show l: "length (sl_canvas s) = unat (sl_width s) * unat (sl_height s) * 4" using assms by (simp add: canvas_ok_def)
  have "unat (sl_width s) * unat (sl_height s) * 4 \<le> 8294400" using assms by (intro canvas_size) (simp_all add: canvas_ok_def)
  then show "length (sl_canvas s) < 2 ^ 64" unfolding l by (rule le_less_trans) simp
qed

lemma canvas_ok_upd [simp]:
  "canvas_ok (s\<lparr>sl_pub := p\<rparr>) = canvas_ok s" "canvas_ok (s\<lparr>sl_color := q\<rparr>) = canvas_ok s"
  "canvas_ok (s\<lparr>sl_dirty := d\<rparr>) = canvas_ok s" "canvas_ok (s\<lparr>sl_had_subscriber := d\<rparr>) = canvas_ok s"
  "canvas_ok (s\<lparr>sl_last_active := t\<rparr>) = canvas_ok s" "canvas_ok (s\<lparr>sl_next_regen := t\<rparr>) = canvas_ok s"
  by (simp_all add: canvas_ok_def)

lemma slot_mark_ok:
  assumes "canvas_ok s"
  shows "\<exists>c. slot_mark s x y r g b = Some (s\<lparr>sl_canvas := c\<rparr>) \<and> canvas_ok (s\<lparr>sl_canvas := c\<rparr>)"
proof -
  from draw_mark_paints[OF canvas_okD[OF assms], of x y r g b] obtain c where
    "draw_mark (sl_canvas s) (sl_width s) (sl_height s) x y r g b = Some c" "length c = length (sl_canvas s)"
    by (auto simp: paints_def)
  then show ?thesis using assms by (auto simp: slot_mark_def canvas_ok_def)
qed

lemma slot_resize_ok:
  assumes "canvas_ok s" and "w \<noteq> 0" and "h \<noteq> 0"
  shows "canvas_ok (slot_resize s w h)" "sl_pub (slot_resize s w h) = sl_pub s"
    "sl_width (slot_resize s w h) = min w kMaxWidth" "sl_height (slot_resize s w h) = min h kMaxHeight"
proof -
  have "min w kMaxWidth \<noteq> 0" "min h kMaxHeight \<noteq> 0" using assms(2,3) by (simp_all add: min_def geometry_defs)
  moreover have "min w kMaxWidth \<le> kMaxWidth" "min h kMaxHeight \<le> kMaxHeight" by simp_all
  ultimately show "canvas_ok (slot_resize s w h)" using assms(1) canvas_size[of "min w kMaxWidth" "min h kMaxHeight"]
    by (simp add: slot_resize_def canvas_ok_def Let_def)
qed (simp_all add: slot_resize_def Let_def)

text \<open>No command of the consumer leaves the canvas or breaks its geometry.\<close>

lemma slot_command_ok:
  assumes "canvas_ok s"
  shows "\<exists>s'. slot_command cmd s = Some s' \<and> canvas_ok s' \<and> sl_pub s' = sl_pub s"
proof -
  have m: "\<exists>s'. slot_mark s x y r g b = Some s' \<and> canvas_ok s' \<and> sl_pub s' = sl_pub s" for x y r g b
    using slot_mark_ok[OF assms, of x y r g b] by auto
  consider "cmd_type cmd = kSetUrl" | "cmd_type cmd = kMouseMove" | "cmd_type cmd = kMouseButton" | "cmd_type cmd = kResize"
    | "cmd_type cmd \<notin> {kSetUrl, kMouseMove, kMouseButton, kResize}" by blast
  then show ?thesis
    using m slot_resize_ok(1,2)[OF assms] assms
    by cases (auto simp: slot_command_def Let_def opcode_defs split: option.splits)
qed

lemma slot_resize_pub: "slot_resize (s\<lparr>sl_pub := q\<rparr>) w h = (slot_resize s w h)\<lparr>sl_pub := q\<rparr>"
  by (simp add: slot_resize_def Let_def)

lemma slot_mark_pub: "slot_mark (s\<lparr>sl_pub := q\<rparr>) x y r g b = map_option (\<lambda>s. s\<lparr>sl_pub := q\<rparr>) (slot_mark s x y r g b)"
  by (cases "draw_mark (sl_canvas s) (sl_width s) (sl_height s) x y r g b") (simp_all add: slot_mark_def)

lemma slot_command_pub: "slot_command cmd (s\<lparr>sl_pub := q\<rparr>) = map_option (\<lambda>s. s\<lparr>sl_pub := q\<rparr>) (slot_command cmd s)"
  by (simp add: slot_command_def Let_def slot_mark_pub slot_resize_pub split: option.split)

lemma slot_regen_ok:
  assumes "canvas_ok s"
  shows "\<exists>s'. slot_regen now rnd s = Some s' \<and> canvas_ok s' \<and> sl_pub s' = sl_pub s"
proof -
  from regenerate_paints[OF canvas_okD[OF assms], of rnd "sl_color s"] obtain c where
    "regenerate rnd (sl_canvas s) (sl_width s) (sl_height s) (sl_color s) = Some c" "length c = length (sl_canvas s)"
    by (auto simp: paints_def)
  then show ?thesis using assms by (auto simp: slot_regen_def canvas_ok_def)
qed

lemma slot_regen_pub: "slot_regen now rnd (s\<lparr>sl_pub := q\<rparr>) = map_option (\<lambda>s. s\<lparr>sl_pub := q\<rparr>) (slot_regen now rnd s)"
  by (cases "regenerate rnd (sl_canvas s) (sl_width s) (sl_height s) (sl_color s)") (simp_all add: slot_regen_def)

lemma slot_attend_ok [simp]:
  "canvas_ok (slot_attend now r has_sub s) = canvas_ok s" "sl_pub (slot_attend now r has_sub s) = sl_pub s"
  "slot_attend now r has_sub (s\<lparr>sl_pub := q\<rparr>) = (slot_attend now r has_sub s)\<lparr>sl_pub := q\<rparr>"
  by (simp_all add: slot_attend_def Let_def)

section \<open>The command loop\<close>

definition slot_ok :: "LLConfig \<Rightarrow> oid \<Rightarrow> Slot \<Rightarrow> heap \<Rightarrow> bool" where
  "slot_ok c b s hp \<longleftrightarrow> canvas_ok s \<and>
     (\<exists>p. sl_pub s = Some p \<and> pub_at b p hp \<and> p_cfg p = c \<and> p_pending p = None \<and> p_min_interval_ns p = 0)"

text \<open>The loop keeps the header of its own segment and everything outside of it.\<close>

definition slot_inv :: "LLConfig \<Rightarrow> oid \<Rightarrow> heap \<Rightarrow> u64 \<Rightarrow> (Slot \<times> heap) option \<Rightarrow> bool" where
  "slot_inv c b hp0 fid st \<longleftrightarrow> (\<exists>s hp. st = Some (s, hp) \<and> slot_ok c b s hp \<and> map_option p_frame_id (sl_pub s) = Some fid \<and>
     m_hdr (hp b) = m_hdr (hp0 b) \<and> (\<forall>x. x \<noteq> b \<longrightarrow> hp x = hp0 x))"

definition slot_queue :: "LLConfig \<Rightarrow> oid \<Rightarrow> (Slot \<times> heap) option \<Rightarrow> LLShmCommand list" where
  "slot_queue c b st = (case st of None \<Rightarrow> [] | Some (s, hp) \<Rightarrow> ring_queue c Upstream (hp b))"

definition slot_view :: "(Slot \<times> heap) option \<Rightarrow> Slot option" where
  "slot_view st = map_option (\<lambda>(s, hp). s\<lparr>sl_pub := None\<rparr>) st"

definition slot_obey :: "LLShmCommand \<Rightarrow> Slot option \<Rightarrow> Slot option" where
  "slot_obey cmd v = Option.bind v (slot_command cmd)"

interpretation slot_loop: command_loop slot_recv slot_handle "slot_queue c b" "slot_inv c b hp0 fid" slot_view slot_obey for c b hp0 fid
proof unfold_locales
  fix st :: "(Slot \<times> heap) option"
  assume inv: "slot_inv c b hp0 fid st"
  then obtain s hp p where st: "st = Some (s, hp)" and hd: "m_hdr (hp b) = m_hdr (hp0 b)" and fr: "\<forall>x. x \<noteq> b \<longrightarrow> hp x = hp0 x"
    and p: "canvas_ok s" "sl_pub s = Some p" "pub_at b p hp" "p_cfg p = c" "p_pending p = None" "p_min_interval_ns p = 0" "p_frame_id p = fid"
    by (auto simp: slot_inv_def slot_ok_def)
  have sp: "s\<lparr>sl_pub := Some p\<rparr> = s" using p(2) by simp
  show "\<exists>s'. slot_recv st = (None, s') \<and> slot_inv c b hp0 fid s' \<and> slot_queue c b s' = [] \<and> slot_view s' = slot_view st"
    if "slot_queue c b st = []"
    using pub_receive_loop(1)[OF p(3)] that p(4) inv by (simp add: st slot_recv_def slot_queue_def p(2) sp)
  show "\<exists>s'. slot_recv st = (Some x, s') \<and> slot_inv c b hp0 fid s' \<and> slot_queue c b s' = q \<and> slot_view s' = slot_view st"
    if "slot_queue c b st = x # q" for x q
  proof -
    from pub_receive_loop(2)[OF p(3), of x q] that p(4) obtain hp' where
      "pub_receive p hp = (Some x, p\<lparr>p_recvd := p_recvd p + 1\<rparr>, hp')" "pub_at b p hp'"
      "ring_queue c Upstream (hp' b) = q" "m_hdr (hp' b) = m_hdr (hp b)" "\<forall>y. y \<noteq> b \<longrightarrow> hp' y = hp y"
      by (auto simp: st slot_queue_def)
    then show ?thesis using p hd fr
      by (intro exI[of _ "Some (s\<lparr>sl_pub := Some (p\<lparr>p_recvd := p_recvd p + 1\<rparr>)\<rparr>, hp')"])
        (simp add: st slot_recv_def slot_inv_def slot_ok_def slot_queue_def slot_view_def)
  qed
  show "slot_inv c b hp0 fid (slot_handle x st) \<and> slot_queue c b (slot_handle x st) = slot_queue c b st \<and>
      slot_view (slot_handle x st) = slot_obey x (slot_view st)" for x
  proof -
    from slot_command_ok[OF p(1), of x] obtain s' where s': "slot_command x s = Some s'" "canvas_ok s'" "sl_pub s' = sl_pub s" by blast
    then show ?thesis using p hd fr
      by (simp add: st slot_handle_def slot_inv_def slot_ok_def slot_queue_def slot_view_def slot_obey_def slot_command_pub)
  qed
qed

section \<open>A pass over a slot\<close>

lemma slot_kept:
  assumes "slot_ok c b s hp" and "sl_pub s = Some p" and "length (ring_queue c Upstream (hp b)) < fuel"
    and "\<not> (has_subscriber p hp \<and> command_owner_stale clk p hp)"
    and "has_subscriber p hp \<or> now - sl_last_active s < kIdleGracePeriod"
  shows "\<exists>s' hp'. slot_service fuel pf ops now clk rnd s k hp = Some (s', k, hp') \<and> slot_ok c b s' hp' \<and>
    ring_queue c Upstream (hp' b) = [] \<and> m_hdr (hp' b) = m_hdr (hp b) \<and> (\<forall>x. x \<noteq> b \<longrightarrow> hp' x = hp x) \<and>
    Option.bind (fold slot_obey (ring_queue c Upstream (hp b)) (Some (slot_attend now (rnd 0) (has_subscriber p hp) (s\<lparr>sl_pub := None\<rparr>))))
      (slot_regen now (\<lambda>i. rnd (Suc i))) = Some (s'\<lparr>sl_pub := None\<rparr>) \<and> map_option p_frame_id (sl_pub s') = Some (p_frame_id p)"
proof -
  let ?s = "slot_attend now (rnd 0) (has_subscriber p hp) s" and ?q = "ring_queue c Upstream (hp b)"
  have "slot_inv c b hp (p_frame_id p) (Some (?s, hp))" using assms(1,2) by (simp add: slot_inv_def slot_ok_def)
  from slot_loop.drains[OF this, of fuel] assms(3) obtain st' where
    d: "drain fuel slot_recv slot_handle (Some (?s, hp)) = Some st'" and i: "slot_inv c b hp (p_frame_id p) st'" "slot_queue c b st' = []"
    and v: "slot_view st' = fold slot_obey ?q (slot_view (Some (?s, hp)))" by (auto simp: slot_queue_def)
  from i(1) obtain s1 hp1 where st': "st' = Some (s1, hp1)" "slot_ok c b s1 hp1" "m_hdr (hp1 b) = m_hdr (hp b)"
    "\<forall>x. x \<noteq> b \<longrightarrow> hp1 x = hp x" "map_option p_frame_id (sl_pub s1) = Some (p_frame_id p)" by (auto simp: slot_inv_def)
  from slot_regen_ok[of s1 now "\<lambda>i. rnd (Suc i)"] st'(2) obtain s2 where
    s2: "slot_regen now (\<lambda>i. rnd (Suc i)) s1 = Some s2" "canvas_ok s2" "sl_pub s2 = sl_pub s1" by (auto simp: slot_ok_def)
  have "slot_service fuel pf ops now clk rnd s k hp = Some (s2, k, hp1)"
    using assms(2,4,5) d s2(1) by (auto simp: slot_service_def st'(1) Let_def)
  moreover have "slot_ok c b s2 hp1" using st'(2) s2 by (simp add: slot_ok_def)
  moreover have "Option.bind (fold slot_obey ?q (Some (slot_attend now (rnd 0) (has_subscriber p hp) (s\<lparr>sl_pub := None\<rparr>))))
      (slot_regen now (\<lambda>i. rnd (Suc i))) = Some (s2\<lparr>sl_pub := None\<rparr>)"
    using v[symmetric] s2(1) by (simp add: st'(1) slot_view_def slot_regen_pub)
  ultimately show ?thesis using i(2) st' s2(3) by (auto simp: slot_queue_def)
qed

text \<open>What frees a slot, and what it leaves.\<close>

definition slot_gone :: "int \<Rightarrow> clock \<Rightarrow> Slot \<Rightarrow> LLHeader \<Rightarrow> bool" where
  "slot_gone now clk s h \<longleftrightarrow>
     (if h_command_owner_gen h \<noteq> 0 then kCommandOwnerStaleNs \<le> clk 0 - h_command_owner_heartbeat_ns h
      else kIdleGracePeriod \<le> now - sl_last_active s)"

lemma slot_gone_iff:
  assumes "slot_ok c b s hp" and "sl_pub s = Some p"
  shows "slot_gone now clk s (m_hdr (hp b)) \<longleftrightarrow> has_subscriber p hp \<and> command_owner_stale clk p hp \<or>
      \<not> has_subscriber p hp \<and> kIdleGracePeriod \<le> now - sl_last_active s"
    and "has_subscriber p hp \<longleftrightarrow> h_command_owner_gen (m_hdr (hp b)) \<noteq> 0"
  using assms pub_atD(4)[of b p hp] by (auto simp: slot_gone_def slot_ok_def has_subscriber_def command_owner_stale_def Let_def)

lemma slot_freed:
  assumes "slot_ok c b s hp" and "sl_pub s = Some p" and "slot_gone now clk s (m_hdr (hp b))"
  shows "slot_service fuel pf ops now clk rnd s k hp =
    Some (Slot_new, LLSegment_destroy ops (p_seg p) (LLSegment_unlink pf ops (cfg_name c) k),
      hp(b := (hp b)\<lparr>m_hdr := (m_hdr (hp b))\<lparr>h_shutdown := 1\<rparr>\<rparr>))"
proof -
  have "p_hdr p = Some b" "p_cfg p = c" using assms(1,2) pub_atD(4) by (auto simp: slot_ok_def)
  then have "free_slot pf ops s k hp = (Slot_new, LLSegment_destroy ops (p_seg p) (LLSegment_unlink pf ops (cfg_name c) k),
      hp(b := (hp b)\<lparr>m_hdr := (m_hdr (hp b))\<lparr>h_shutdown := 1\<rparr>\<rparr>))"
    using assms(2) by (simp add: free_slot_def release_pub_def publisher_destroy_def)
  then show ?thesis using assms(3) slot_gone_iff(1)[OF assms(1,2), of now clk] assms(2)
    by (auto simp: slot_service_def Let_def)
qed

text \<open>A whole pass as a function of the slot and its own segment.\<close>

definition slot_after :: "LLConfig \<Rightarrow> int \<Rightarrow> clock \<Rightarrow> (nat \<Rightarrow> nat) \<Rightarrow> Slot \<Rightarrow> smem \<Rightarrow> Slot option" where
  "slot_after c now clk rnd s sm =
     (if slot_gone now clk s (m_hdr sm) then Some Slot_new
      else Option.bind (fold slot_obey (ring_queue c Upstream sm)
             (Some (slot_attend now (rnd 0) (h_command_owner_gen (m_hdr sm) \<noteq> 0) (s\<lparr>sl_pub := None\<rparr>))))
             (slot_regen now (\<lambda>i. rnd (Suc i))))"

lemma slot_pass:
  assumes "slot_ok c b s hp" and "length (ring_queue c Upstream (hp b)) < fuel"
  shows "\<exists>s' k' hp'. slot_service fuel pf ops now clk rnd s k hp = Some (s', k', hp') \<and> (\<forall>x. x \<noteq> b \<longrightarrow> hp' x = hp x) \<and>
    slot_after c now clk rnd s (hp b) = Some (s'\<lparr>sl_pub := None\<rparr>) \<and>
    (if slot_gone now clk s (m_hdr (hp b)) then s' = Slot_new else slot_ok c b s' hp')"
proof -
  obtain p where p: "sl_pub s = Some p" using assms(1) by (auto simp: slot_ok_def)
  note g = slot_gone_iff[OF assms(1) p]
  show ?thesis
  proof (cases "slot_gone now clk s (m_hdr (hp b))")
    case True
    then show ?thesis by (auto simp: slot_freed[OF assms(1) p True] slot_after_def Slot_new_def)
  next
    case False
    with g(1)[of now clk] slot_kept[OF assms(1) p assms(2), of clk now pf ops rnd k] show ?thesis
      by (auto simp: slot_after_def g(2))
  qed
qed

text \<open>Publishing the canvas of a slot always fits.\<close>

lemma view_cfg_simps [simp]:
  "cfg_max_command_bytes (view_cfg\<lparr>cfg_name := n\<rparr>) = 512" "cfg_command_slots (view_cfg\<lparr>cfg_name := n\<rparr>) = 64"
  "cfg_bytes_per_pixel (view_cfg\<lparr>cfg_name := n\<rparr>) = 4" "cfg_slot_count (view_cfg\<lparr>cfg_name := n\<rparr>) = 3"
  "max_payload (view_cfg\<lparr>cfg_name := n\<rparr>) = 8294400"
  by (simp_all add: view_cfg_def LLConfig_default_def max_payload_def geometry_defs)

lemma view_cfg_valid: "i < 2 ^ 31 \<Longrightarrow> config_valid (view_cfg\<lparr>cfg_name := channel_name i\<rparr>)"
  using length_decimal[of i 10] by (simp add: config_valid_def view_cfg_def LLConfig_default_def k_defs geometry_defs channel_name_def kChannelPrefix_def)

lemma view_cfg_total: "L_total_size (compute_layout (view_cfg\<lparr>cfg_name := n\<rparr>)) \<le> kMaxSegment"
  by (simp add: compute_layout_def align_up_def k_defs)

lemma canvas_fits: "canvas_ok s \<Longrightarrow> fits (view_cfg\<lparr>cfg_name := n\<rparr>) (sl_width s) (sl_height s)"
  using canvas_size(2)[of "sl_width s" "sl_height s"] by (simp add: fits_def canvas_ok_def)

abbreviation view_config :: "nat \<Rightarrow> LLConfig" where
  "view_config i \<equiv> view_cfg\<lparr>cfg_name := channel_name i\<rparr>"

text \<open>A slot that was allocated is in order, at the default size; a failure leaves it as it was.\<close>

lemma allocated:
  assumes "allocate_slot pf ops s i view_cfg now clk wall k hp = ((r, s'), k', hp')" and "sl_pub s = None"
  shows "if r then \<exists>b seg. slot_ok (view_config i) b s' hp' \<and> sl_width s' = kDefaultWidth \<and> sl_height s' = kDefaultHeight \<and>
      sl_last_active s' = now \<and> publisher_create pf ops (view_config i) clk wall k hp = ((Some (new_publisher (view_config i) seg b), LLStatus_Ok), k', hp') \<and>
      hp' = hp(b := init_segment (view_config i) (make_session_id wall (clk 1)) (clk 2) (hp b))
    else s' = s"
proof (cases r)
  case True
  with assms obtain pub st where c: "publisher_create pf ops (view_config i) clk wall k hp = ((Some pub, st), k', hp')"
    and s': "s' = s\<lparr>sl_pub := Some pub, sl_canvas := replicate (unat (ucast kDefaultWidth * ucast kDefaultHeight * 4 :: u64)) 0,
      sl_width := kDefaultWidth, sl_height := kDefaultHeight, sl_color := Green,
      sl_next_regen := now, sl_dirty := True, sl_had_subscriber := False, sl_last_active := now\<rparr>"
    by (auto simp: allocate_slot_def release_pub_def Let_def split: prod.splits option.splits)
  from publisher_create_Some[OF c] obtain b seg where pub: "pub = new_publisher (view_config i) seg b"
    and hp': "hp' = hp(b := init_segment (view_config i) (make_session_id wall (clk 1)) (clk 2) (hp b))"
    and v: "config_valid (view_config i)" "L_total_size (compute_layout (view_config i)) \<le> kMaxSegment" and st: "st = LLStatus_Ok" by auto
  have "canvas_ok s'" unfolding s' by (simp add: canvas_ok_def geometry_defs)
  moreover have "pub_at b pub hp'" unfolding pub hp' by (rule new_publisher_at[OF v])
  moreover have "p_cfg pub = view_config i" "p_pending pub = None" "p_min_interval_ns pub = 0"
    by (simp_all add: pub new_publisher_def LLPublisher_new_def)
  moreover have "sl_pub s' = Some pub" by (simp add: s')
  ultimately have "slot_ok (view_config i) b s' hp'" unfolding slot_ok_def by blast
  with c True hp' st show ?thesis unfolding pub by (auto simp: s')
next
  case False
  then show ?thesis using assms(1) by (auto simp: allocate_slot_def Let_def split: prod.splits option.splits)
qed

text \<open>The canvas as an image to be published.\<close>

lemma slot_frame_facts:
  assumes "slot_ok (view_config i) b s hp" and "sl_pub s = Some p"
  shows "pub_at b p hp" "p_pending p = None" "publish_due clk p" "fits (p_cfg p) (sl_width s) (sl_height s)"
    "sl_width s * cfg_bytes_per_pixel (p_cfg p) = (if (0 :: u32) = 0 then sl_width s * cfg_bytes_per_pixel (p_cfg p) else 0)"
    "(unat (sl_height s) - 1) * unat (sl_width s * cfg_bytes_per_pixel (p_cfg p)) +
      unat (sl_width s) * unat (cfg_bytes_per_pixel (p_cfg p)) \<le> length (sl_canvas s)"
    "image_rows (sl_canvas s) (unat (sl_width s) * unat (cfg_bytes_per_pixel (p_cfg p)))
      (unat (sl_width s * cfg_bytes_per_pixel (p_cfg p))) (unat (sl_height s)) = sl_canvas s"
    "p_cfg p = view_config i"
proof -
  show at: "pub_at b p hp" "p_pending p = None" "publish_due clk p" and c: "p_cfg p = view_config i"
    using assms by (auto simp: slot_ok_def publish_due_def)
  have ok: "canvas_ok s" using assms(1) by (simp add: slot_ok_def)
  note v = pub_atD(1,2)[OF at(1), unfolded c]
  show f: "fits (p_cfg p) (sl_width s) (sl_height s)" unfolding c by (rule canvas_fits[OF ok])
  have st: "unat (sl_width s * cfg_bytes_per_pixel (p_cfg p)) = unat (sl_width s) * 4"
    using fits_exact(4)[OF v, of "sl_width s" "sl_height s"] f unfolding c by simp
  have h: "0 < unat (sl_height s)" using ok by (simp add: canvas_ok_def unat_gt_0)
  have len: "unat (sl_width s) * 4 * unat (sl_height s) = length (sl_canvas s)" using canvas_okD(1)[OF ok] by simp
  have "(unat (sl_height s) - 1) * (unat (sl_width s) * 4) + unat (sl_width s) * 4 = unat (sl_width s) * 4 * unat (sl_height s)"
    using h by (cases "unat (sl_height s)") simp_all
  then show "(unat (sl_height s) - 1) * unat (sl_width s * cfg_bytes_per_pixel (p_cfg p)) +
      unat (sl_width s) * unat (cfg_bytes_per_pixel (p_cfg p)) \<le> length (sl_canvas s)" using len st by (simp add: c)
  show "image_rows (sl_canvas s) (unat (sl_width s) * unat (cfg_bytes_per_pixel (p_cfg p)))
      (unat (sl_width s * cfg_bytes_per_pixel (p_cfg p))) (unat (sl_height s)) = sl_canvas s"
    unfolding st using len by (simp add: c image_rows_tight)
qed simp

text \<open>The segment after the publish pass, as a reader finds it.\<close>

lemma slot_published:
  assumes "slot_ok (view_config i) b s hp" and "sl_pub s = Some p" and "unat (p_frame_id p) + 1 < 2 ^ 62"
    and "slot_publish clk s hp = (s', hp')" and "c = view_config i" and "j = next_slot p" and "fid = p_frame_id p + 1"
  shows "config_valid c" and "j < cfg_slot_count c" and "h_latest (m_hdr (hp' b)) = push_bit 2 fid OR ucast j"
    and "fid \<noteq> 0" and "unat fid < 2 ^ 62" and "even (s_seq (slot_of c (hp' b) j))"
    and "unat (s_payload_bytes (slot_of c (hp' b) j)) = unat (sl_width s) * unat (sl_height s) * 4"
    and "0 < unat (sl_width s) * unat (sl_height s) * 4" and "unat (sl_width s) * unat (sl_height s) * 4 \<le> unat (max_payload c)"
    and "slot_info (slot_of c (hp' b) j) = published_info c fid (clk 1) (sl_width s) (sl_height s)"
    and "slot_bytes c (hp' b) j = sl_canvas s" and "slot_ok c b s' hp'"
    and "h_command_owner_gen (m_hdr (hp' b)) = h_command_owner_gen (m_hdr (hp b))" and "\<exists>p'. publish (Some (sl_canvas s)) (sl_width s) (sl_height s) 0 clk p hp = (True, p', hp') \<and> s' = s\<lparr>sl_pub := Some p'\<rparr>"
proof -
  note ff = slot_frame_facts[OF assms(1,2)]
  obtain p' where pub: "publish (Some (sl_canvas s)) (sl_width s) (sl_height s) 0 clk p hp = (True, p', hp')" and s': "s' = s\<lparr>sl_pub := Some p'\<rparr>"
    using assms(2,4) unfolding publish_eq[OF ff(1-6)] slot_publish_def by (auto simp: publish_eq[OF ff(1-6)])
  have c: "c = p_cfg p" using assms(5) ff(8) by simp
  note pc = published_current[OF ff(1,2) ff(3)[of clk] ff(4-6) assms(3) pub c assms(6,7) refl]
  have n: "unat (cfg_bytes_per_pixel c) = 4" by (simp add: assms(5))
  show "config_valid c" "j < cfg_slot_count c" "h_latest (m_hdr (hp' b)) = push_bit 2 fid OR ucast j" "fid \<noteq> 0" "unat fid < 2 ^ 62"
    "even (s_seq (slot_of c (hp' b) j))" "slot_info (slot_of c (hp' b) j) = published_info c fid (clk 1) (sl_width s) (sl_height s)"
    "h_command_owner_gen (m_hdr (hp' b)) = h_command_owner_gen (m_hdr (hp b))" by (rule pc)+
  show "unat (s_payload_bytes (slot_of c (hp' b) j)) = unat (sl_width s) * unat (sl_height s) * 4"
    "0 < unat (sl_width s) * unat (sl_height s) * 4" "unat (sl_width s) * unat (sl_height s) * 4 \<le> unat (max_payload c)"
    using pc(7-9) unfolding n by blast+
  show "slot_bytes c (hp' b) j = sl_canvas s" using pc(11) ff(7) unfolding c by simp
  have "p_min_interval_ns p' = p_min_interval_ns p" using pub unfolding publish_eq[OF ff(1,2) ff(3)[of clk] ff(4-6)] by auto
  then show "slot_ok c b s' hp'" using assms(1,2) pc(12,13,15) by (auto simp: s' slot_ok_def assms(5))
  show "\<exists>p'. publish (Some (sl_canvas s)) (sl_width s) (sl_height s) 0 clk p hp = (True, p', hp') \<and> s' = s\<lparr>sl_pub := Some p'\<rparr>"
    using pub s' by blast
qed

text \<open>A published canvas, as the consumer of the slot reads it.\<close>

lemma slot_shown:
  assumes "slot_ok (view_config i) b s hp" and "sl_pub s = Some p" and "unat (p_frame_id p) + 1 < 2 ^ 62"
    and "attached (view_config i) b m" and "u_last_frame m \<noteq> p_frame_id p + 1"
    and "pclk 0 - u_last_progress m < u_stale_ns m" and "read_due rclk m" and "8294400 \<le> length dst" and "length dst < 2 ^ 64"
  shows "\<exists>s' hp' m' hp'' dst'. slot_publish clk s hp = (s', hp') \<and> slot_ok (view_config i) b s' hp' \<and>
    read_latest ops evs pclk rclk calm dst m k hp' =
      ((Read_Ok, dst', Some (published_info (view_config i) (p_frame_id p + 1) (clk 1) (sl_width s) (sl_height s))), m', k, hp'') \<and>
    take (unat (sl_width s) * unat (sl_height s) * 4) dst' = sl_canvas s"
proof -
  obtain s' hp' where sp: "slot_publish clk s hp = (s', hp')" by force
  note f = slot_published[OF assms(1-3) sp refl refl refl]
  obtain m1 hp1 where po: "polled b (pclk 1) m hp' = (m1, hp1)" by force
  have n: "0 < unat (s_payload_bytes (slot_of (view_config i) (hp' b) (next_slot p)))"
    "unat (s_payload_bytes (slot_of (view_config i) (hp' b) (next_slot p))) \<le> unat (max_payload (view_config i))"
    "unat (max_payload (view_config i)) \<le> length dst" using f(7-9) assms(8) by simp_all
  note rd = read_current[where hp = hp' and pclk = pclk and rclk = rclk and ops = ops and evs = evs and k = k,
      OF assms(4) f(1-5) assms(5) f(6) n assms(9,6,7) po, unfolded f(10,11)]
  have "length (sl_canvas s) = unat (sl_width s) * unat (sl_height s) * 4" using assms(1) by (simp add: slot_ok_def canvas_ok_def)
  then show ?thesis using sp f(12) rd by auto
qed

section \<open>A small view\<close>

lemma demo_view:
  obtains s p b k hp where "allocate_slot Posix posix_ops Slot_new 0 view_cfg 0 (\<lambda>_. 5) 9 posix_empty (\<lambda>_. smem_zero) = ((True, s), k, hp)"
    "slot_ok (view_config 0) b s hp" "sl_pub s = Some p" "p_frame_id p = 0" "p_hdr p = Some b" "\<And>d. ring_queue (view_config 0) d (hp b) = []"
    "h_command_owner_gen (m_hdr (hp b)) = 0" "sl_last_active s = 0" "hdr_describes (view_config 0) (m_hdr (hp b))"
proof -
  have v: "config_valid (view_config 0)" by (rule view_cfg_valid) simp
  from posix.create_fresh[OF posix_empty_ok _ v view_cfg_total, of "\<lambda>_. 5" 9 "\<lambda>_. smem_zero"] obtain seg b k where
    "publisher_create Posix posix_ops (view_config 0) (\<lambda>_. 5) 9 posix_empty (\<lambda>_. smem_zero) =
      ((Some (new_publisher (view_config 0) seg b), LLStatus_Ok), k,
       (\<lambda>_. smem_zero)(b := init_segment (view_config 0) (make_session_id 9 5) 5 smem_zero))" by (auto simp: posix_empty_bound)
  then obtain s where a: "allocate_slot Posix posix_ops Slot_new 0 view_cfg 0 (\<lambda>_. 5) 9 posix_empty (\<lambda>_. smem_zero) =
      ((True, s), k, (\<lambda>_. smem_zero)(b := init_segment (view_config 0) (make_session_id 9 5) 5 smem_zero))"
      (is "_ = (_, _, ?hp)") and p: "sl_pub s = Some (new_publisher (view_config 0) seg b)" "sl_last_active s = 0"
    by (simp add: allocate_slot_def Let_def release_pub_def Slot_new_def)
  have n: "p_hdr (new_publisher (view_config 0) seg b) = Some b" "p_frame_id (new_publisher (view_config 0) seg b) = 0"
    by (simp_all add: new_publisher_def LLPublisher_new_def)
  from allocated[OF a] obtain b' where ok: "slot_ok (view_config 0) b' s ?hp" by (auto simp: Slot_new_def)
  then have "b' = b" using p(1) n(1) pub_atD(4) by (fastforce simp: slot_ok_def)
  moreover have "ring_queue (view_config 0) d (?hp b) = []" for d using seg_inv_init(2)[OF v view_cfg_total] by simp
  moreover have "h_command_owner_gen (m_hdr (?hp b)) = 0" by (simp add: init_segment_def Let_def LLHeader_zero_def)
  moreover have "hdr_describes (view_config 0) (m_hdr (?hp b))" by (simp add: hdr_describes_init)
  ultimately show ?thesis using that[OF a _ p(1) n(2,1) _ _ p(2)] ok by blast
qed

section \<open>Properties\<close>

text \<open>
  C33.  Commands cannot break a view.  Call a slot well-formed when its size is not zero and within the channel's and its canvas holds four bytes per
  pixel.  Then every sequence of commands, of any types, with any payloads, is obeyed without a store outside the canvas, and leaves
  the slot well-formed; so does drawing the pattern after it.
\<close>

theorem commands_keep_slot_typed:
  assumes "canvas_ok s"
  shows "\<exists>s1. fold slot_obey cmds (Some s) = Some s1 \<and> canvas_ok s1 \<and>
    (\<exists>s2. slot_regen now rnd s1 = Some s2 \<and> canvas_ok s2)"
proof -
  have "\<exists>s1. fold slot_obey cmds (Some s) = Some s1 \<and> canvas_ok s1" using assms
  proof (induction cmds arbitrary: s)
    case (Cons cmd cmds)
    from slot_command_ok[OF Cons.prems, of cmd] obtain s' where "slot_command cmd s = Some s'" "canvas_ok s'" by blast
    then show ?case using Cons.IH[of s'] by (simp add: slot_obey_def)
  qed simp
  then show ?thesis using slot_regen_ok by metis
qed

theorem commands_keep_slot_typed_witness:
  "\<exists>s k hp s1. allocate_slot Posix posix_ops Slot_new 0 view_cfg 0 (\<lambda>_. 5) 9 posix_empty (\<lambda>_. smem_zero) = ((True, s), k, hp) \<and>
    fold slot_obey [mk_command kResize (enc_pair (4000, 1)) 1 0 2, mk_command kMouseMove (enc_pair (-1, 3)) 2 0 2, mk_command 99 [] 3 0 2] (Some s) =
      Some s1 \<and> canvas_ok s1"
proof -
  obtain s p b k hp where a: "allocate_slot Posix posix_ops Slot_new 0 view_cfg 0 (\<lambda>_. 5) 9 posix_empty (\<lambda>_. smem_zero) = ((True, s), k, hp)"
    and d: "slot_ok (view_config 0) b s hp" by (rule demo_view) blast
  then have "canvas_ok s" by (simp add: slot_ok_def)
  with a commands_keep_slot_typed[OF this, of _ 0 "\<lambda>_. 3"] show ?thesis by metis
qed

text \<open>
  A view obeys its consumer: a pass over a slot that is not reclaimed ends and empties the command queue; what it does to the
  slot is, command by command in order, what the pure function \<open>slot_command\<close> does, between noting the subscriber and
  regenerating a canvas that is dirty or due.  Whatever the commands say, no store leaves the canvas, its length stays
  4 * width * height, the geometry stays within the channel's, and no other segment is touched.
\<close>

theorem view_served:
  assumes "slot_ok c b s hp" and "sl_pub s = Some p" and "length (ring_queue c Upstream (hp b)) < fuel"
    and "\<not> (has_subscriber p hp \<and> command_owner_stale clk p hp)"
    and "has_subscriber p hp \<or> now - sl_last_active s < kIdleGracePeriod"
  shows "\<exists>s' hp'. slot_service fuel pf ops now clk rnd s k hp = Some (s', k, hp') \<and> slot_ok c b s' hp' \<and>
    ring_queue c Upstream (hp' b) = [] \<and> m_hdr (hp' b) = m_hdr (hp b) \<and> (\<forall>x. x \<noteq> b \<longrightarrow> hp' x = hp x) \<and>
    Option.bind (fold slot_obey (ring_queue c Upstream (hp b)) (Some (slot_attend now (rnd 0) (has_subscriber p hp) (s\<lparr>sl_pub := None\<rparr>))))
      (slot_regen now (\<lambda>i. rnd (Suc i))) = Some (s'\<lparr>sl_pub := None\<rparr>) \<and> map_option p_frame_id (sl_pub s') = Some (p_frame_id p)"
  using assms by (rule slot_kept)

theorem view_served_witness:
  "\<exists>s k hp s' hp'. allocate_slot Posix posix_ops Slot_new 0 view_cfg 0 (\<lambda>_. 5) 9 posix_empty (\<lambda>_. smem_zero) = ((True, s), k, hp) \<and>
    slot_service 1 Posix posix_ops 1000 (\<lambda>_. 6) (\<lambda>_. 3) s k hp = Some (s', k, hp') \<and> canvas_ok s'"
proof -
  obtain s p b k hp where a: "allocate_slot Posix posix_ops Slot_new 0 view_cfg 0 (\<lambda>_. 5) 9 posix_empty (\<lambda>_. smem_zero) = ((True, s), k, hp)"
    and d: "slot_ok (view_config 0) b s hp" "sl_pub s = Some p" "p_hdr p = Some b" "\<And>d. ring_queue (view_config 0) d (hp b) = []"
      "h_command_owner_gen (m_hdr (hp b)) = 0" "sl_last_active s = 0" by (rule demo_view) blast
  have "\<not> has_subscriber p hp" using d(3,5) by (simp add: has_subscriber_def)
  with view_served[OF d(1,2), of 1 "\<lambda>_. 6" 1000 Posix posix_ops "\<lambda>_. 3" k] d(4,6) obtain s' hp' where
    "slot_service 1 Posix posix_ops 1000 (\<lambda>_. 6) (\<lambda>_. 3) s k hp = Some (s', k, hp')" "slot_ok (view_config 0) b s' hp'"
    by (auto simp: kIdleGracePeriod_def)
  then show ?thesis using a by (auto simp: slot_ok_def)
qed

text \<open>
  Reclaiming: a pass over an allocated slot ends with the slot free exactly when its owner has been silent for the library's stale time,
  or nobody owns it and nobody has for the grace period.  Then the slot is as good as new, its segment is
  marked as shut down and unlinked, and nothing else in memory changes.
\<close>

theorem slot_reclaimed:
  assumes "slot_ok c b s hp" and "sl_pub s = Some p" and "length (ring_queue c Upstream (hp b)) < fuel"
    and "gone = (has_subscriber p hp \<and> command_owner_stale clk p hp \<or>
           \<not> has_subscriber p hp \<and> kIdleGracePeriod \<le> now - sl_last_active s)"
  shows "\<exists>s' k' hp'. slot_service fuel pf ops now clk rnd s k hp = Some (s', k', hp') \<and> (sl_pub s' = None \<longleftrightarrow> gone) \<and>
    (gone \<longrightarrow> s' = Slot_new \<and> hp' = hp(b := (hp b)\<lparr>m_hdr := (m_hdr (hp b))\<lparr>h_shutdown := 1\<rparr>\<rparr>) \<and>
       k' = LLSegment_destroy ops (p_seg p) (LLSegment_unlink pf ops (cfg_name c) k))"
proof (cases gone)
  case True
  then have "slot_gone now clk s (m_hdr (hp b))" using slot_gone_iff(1)[OF assms(1,2), of now clk] assms(4) by simp
  from slot_freed[OF assms(1,2) this, of fuel pf ops rnd k] True show ?thesis by (simp add: Slot_new_def)
next
  case False
  then show ?thesis using slot_kept[OF assms(1-3), of clk now pf ops rnd k] assms(4) by (fastforce simp: slot_ok_def)
qed

theorem slot_reclaimed_witness:
  "\<exists>s k hp k' hp'. allocate_slot Posix posix_ops Slot_new 0 view_cfg 0 (\<lambda>_. 5) 9 posix_empty (\<lambda>_. smem_zero) = ((True, s), k, hp) \<and>
    slot_service 1 Posix posix_ops 5000000000 (\<lambda>_. 6) (\<lambda>_. 3) s k hp = Some (Slot_new, k', hp')"
proof -
  obtain s p b k hp where a: "allocate_slot Posix posix_ops Slot_new 0 view_cfg 0 (\<lambda>_. 5) 9 posix_empty (\<lambda>_. smem_zero) = ((True, s), k, hp)"
    and d: "slot_ok (view_config 0) b s hp" "sl_pub s = Some p" "p_hdr p = Some b" "\<And>d. ring_queue (view_config 0) d (hp b) = []"
      "h_command_owner_gen (m_hdr (hp b)) = 0" "sl_last_active s = 0" by (rule demo_view) blast
  have "\<not> has_subscriber p hp" using d(3,5) by (simp add: has_subscriber_def)
  with slot_reclaimed[where fuel = 1 and clk = "\<lambda>_. 6" and now = 5000000000 and pf = Posix and ops = posix_ops and rnd = "\<lambda>_. 3" and k = k,
      OF d(1,2) _ refl] d(4,6) a show ?thesis
    by (fastforce simp: kIdleGracePeriod_def)
qed

text \<open>
  What a view shows: the canvas of a slot always fits its channel, and once the publish pass has sent it, the attached consumer reads
  exactly that canvas, with the slot's width and height.
\<close>

theorem view_shown:
  assumes "slot_ok (view_config i) b s hp" and "sl_pub s = Some p" and "unat (p_frame_id p) + 1 < 2 ^ 62"
    and "attached (view_config i) b m" and "u_last_frame m \<noteq> p_frame_id p + 1"
    and "pclk 0 - u_last_progress m < u_stale_ns m" and "read_due rclk m" and "8294400 \<le> length dst" and "length dst < 2 ^ 64"
  shows "\<exists>s' hp' m' hp'' dst'. slot_publish clk s hp = (s', hp') \<and> slot_ok (view_config i) b s' hp' \<and>
    read_latest ops evs pclk rclk calm dst m k hp' =
      ((Read_Ok, dst', Some (published_info (view_config i) (p_frame_id p + 1) (clk 1) (sl_width s) (sl_height s))), m', k, hp'') \<and>
    take (unat (sl_width s) * unat (sl_height s) * 4) dst' = sl_canvas s"
  using assms by (rule slot_shown)

theorem view_shown_witness:
  "\<exists>s k hp m s' hp' m' hp'' dst' fi. allocate_slot Posix posix_ops Slot_new 0 view_cfg 0 (\<lambda>_. 5) 9 posix_empty (\<lambda>_. smem_zero) = ((True, s), k, hp) \<and>
    slot_publish (\<lambda>_. 6) s hp = (s', hp') \<and>
    read_latest posix_ops [] (\<lambda>_. 7) (\<lambda>_. 8) calm (replicate 8294400 0) m k hp' = ((Read_Ok, dst', Some fi), m', k, hp'') \<and>
    take (unat (sl_width s) * unat (sl_height s) * 4) dst' = sl_canvas s"
proof -
  obtain s p b k hp where a: "allocate_slot Posix posix_ops Slot_new 0 view_cfg 0 (\<lambda>_. 5) 9 posix_empty (\<lambda>_. smem_zero) = ((True, s), k, hp)"
    and d: "slot_ok (view_config 0) b s hp" "sl_pub s = Some p" "p_frame_id p = 0" "hdr_describes (view_config 0) (m_hdr (hp b))" by (rule demo_view) blast
  let ?m = "adopted (view_config 0) b \<lparr>sg_obj = 3, sg_region = (Some b, 0)\<rparr> (m_hdr (hp b)) None LLSubscriber_new"
  have at: "attached (view_config 0) b ?m" by (rule adopted_attached[OF d(4)])
  have f: "u_last_frame ?m = 0" "u_last_progress ?m = 0" "u_stale_ns ?m = 500000000" "u_min_read_ns ?m = 0"
    by (simp_all add: adopted_def LLSubscriber_new_def)
  have l: "length (replicate 8294400 (0 :: u8)) = 8294400" by (rule length_replicate)
  have "\<exists>s' hp' m' hp'' dst'. slot_publish (\<lambda>_. 6) s hp = (s', hp') \<and> slot_ok (view_config 0) b s' hp' \<and>
      read_latest posix_ops [] (\<lambda>_. 7) (\<lambda>_. 8) calm (replicate 8294400 0) ?m k hp' =
        ((Read_Ok, dst', Some (published_info (view_config 0) (p_frame_id p + 1) 6 (sl_width s) (sl_height s))), m', k, hp'') \<and>
      take (unat (sl_width s) * unat (sl_height s) * 4) dst' = sl_canvas s"
    by (rule view_shown[OF d(1,2) _ at]) (simp_all add: f d(3) l read_due_def)
  then show ?thesis using a by blast
qed

end
