(* ===== verification/Multiview_Producer.thy ===== *)
theory Multiview_Producer
  imports Multiview_Slot
begin

text \<open>
  The main loop of \<open>examples/multiview_producer.cpp\<close>: requests on the control channel, a pass over the slots, the
  publish pass.  The request loop is shown to serve a small allocator of indices, for every name space that meets the
  contract \<open>segment_store\<close>; a pass is shown to treat every slot on its own.
\<close>

section \<open>The program\<close>

record producer =
  mv_slots :: "Slot list"
  mv_control :: LLPublisher
  mv_next_publish :: int

definition control_cfg :: LLConfig where
  "control_cfg = LLConfig_default\<lparr>cfg_name := kControlChannelName, cfg_max_width := 1, cfg_max_height := 1\<rparr>"

text \<open>\<open>wanted\<close> is the number from the command line, or the default.\<close>

definition producer_start :: "platform \<Rightarrow> 'k bip_ops \<Rightarrow> int \<Rightarrow> int \<Rightarrow> clock \<Rightarrow> u64 \<Rightarrow> 'k \<Rightarrow> heap
    \<Rightarrow> (string + producer) \<times> 'k \<times> heap" where
  "producer_start pf ops wanted now clk wall k hp =
     (let slot_count = (if wanted \<le> 0 then 1 else wanted) in
      case publisher_create pf ops control_cfg clk wall k hp of
        ((None, st), k1, hp1) \<Rightarrow> (Inl (to_string st), k1, hp1)
      | ((Some control, st), k1, hp1) \<Rightarrow>
          (Inr \<lparr>mv_slots = replicate (nat slot_count) Slot_new, mv_control = control, mv_next_publish = now\<rparr>, k1, hp1))"

text \<open>The search for a free index.\<close>

fun first_free :: "nat \<Rightarrow> Slot list \<Rightarrow> nat option" where
  "first_free i [] = None"
| "first_free i (s # ss) = (if sl_pub s = None then Some i else first_free (Suc i) ss)"

text \<open>
  The request loop.  \<open>env i\<close> are the readings while the i-th request is handled: the clock and the wall clock
  of \<open>LLPublisher::create\<close>, and the clock of the reply.
\<close>

definition control_recv :: "producer \<times> 'k \<times> heap \<Rightarrow> LLShmCommand option \<times> producer \<times> 'k \<times> heap" where
  "control_recv st = (case st of (m, k, hp) \<Rightarrow>
     case pub_receive (mv_control m) hp of (x, pub, hp1) \<Rightarrow> (x, m\<lparr>mv_control := pub\<rparr>, k, hp1))"

definition control_reply :: "u32 \<Rightarrow> u8 list option \<Rightarrow> u32 \<Rightarrow> u64 \<Rightarrow> clock \<Rightarrow> producer \<times> 'k \<times> heap \<Rightarrow> producer \<times> 'k \<times> heap" where
  "control_reply ty data sz reply_to clk st = (case st of (m, k, hp) \<Rightarrow>
     case pub_send ty data sz reply_to clk (mv_control m) hp of (_, pub, hp1) \<Rightarrow> (m\<lparr>mv_control := pub\<rparr>, k, hp1))"

definition control_handle :: "platform \<Rightarrow> 'k bip_ops \<Rightarrow> int \<Rightarrow> (u64 \<Rightarrow> clock \<times> u64 \<times> clock) \<Rightarrow> LLShmCommand
    \<Rightarrow> producer \<times> 'k \<times> heap \<Rightarrow> producer \<times> 'k \<times> heap" where
  "control_handle pf ops now env cmd st =
     (case st of (m, k, hp) \<Rightarrow> case env (p_recvd (mv_control m)) of (cclk, wall, sclk) \<Rightarrow>
        if cmd_type cmd \<noteq> kRequestSlot then st
        else case first_free 0 (mv_slots m) of
          None \<Rightarrow> control_reply kSlotUnavailable None 0 (cmd_id cmd) sclk st
        | Some i \<Rightarrow>
            (case allocate_slot pf ops (mv_slots m ! i) i view_cfg now cclk wall k hp of
               ((False, s), k1, hp1) \<Rightarrow>
                 control_reply kSlotUnavailable None 0 (cmd_id cmd) sclk (m\<lparr>mv_slots := (mv_slots m)[i := s]\<rparr>, k1, hp1)
             | ((True, s), k1, hp1) \<Rightarrow>
                 (case pack_u32 (replicate 4 0) (of_nat i) of
                    (payload, _) \<Rightarrow>
                      control_reply kSlotAssigned (Some payload) 4 (cmd_id cmd) sclk
                        (m\<lparr>mv_slots := (mv_slots m)[i := s]\<rparr>, k1, hp1))))"

text \<open>The pass over the slots: slot \<open>i\<close> is served with the readings \<open>clks i\<close> and the random numbers \<open>rnds i\<close>.\<close>

fun serve_slots :: "nat \<Rightarrow> platform \<Rightarrow> 'k bip_ops \<Rightarrow> int \<Rightarrow> (nat \<Rightarrow> clock) \<Rightarrow> (nat \<Rightarrow> nat \<Rightarrow> nat) \<Rightarrow> nat \<Rightarrow> Slot list \<Rightarrow> 'k \<Rightarrow> heap
    \<Rightarrow> (Slot list \<times> 'k \<times> heap) option" where
  "serve_slots fuel pf ops now clks rnds i [] k hp = Some ([], k, hp)"
| "serve_slots fuel pf ops now clks rnds i (s # ss) k hp =
     (case slot_service fuel pf ops now (clks i) (rnds i) s k hp of
        None \<Rightarrow> None
      | Some (s1, k1, hp1) \<Rightarrow>
          map_option (\<lambda>(ss1, k2, hp2). (s1 # ss1, k2, hp2)) (serve_slots fuel pf ops now clks rnds (Suc i) ss k1 hp1))"

fun publish_slots :: "(nat \<Rightarrow> clock) \<Rightarrow> nat \<Rightarrow> Slot list \<Rightarrow> heap \<Rightarrow> Slot list \<times> heap" where
  "publish_slots clks i [] hp = ([], hp)"
| "publish_slots clks i (s # ss) hp =
     (case slot_publish (clks i) s hp of (s1, hp1) \<Rightarrow>
        case publish_slots clks (Suc i) ss hp1 of (ss1, hp2) \<Rightarrow> (s1 # ss1, hp2))"

definition producer_turn :: "nat \<Rightarrow> platform \<Rightarrow> 'k bip_ops \<Rightarrow> int \<Rightarrow> (u64 \<Rightarrow> clock \<times> u64 \<times> clock) \<Rightarrow> (nat \<Rightarrow> clock)
    \<Rightarrow> (nat \<Rightarrow> nat \<Rightarrow> nat) \<Rightarrow> (nat \<Rightarrow> clock) \<Rightarrow> producer \<times> 'k \<times> heap \<Rightarrow> (producer \<times> 'k \<times> heap) option" where
  "producer_turn fuel pf ops now env clks rnds pclks st =
     (case drain fuel control_recv (control_handle pf ops now env) st of
        None \<Rightarrow> None
      | Some (m, k, hp) \<Rightarrow>
          (case serve_slots fuel pf ops now clks rnds 0 (mv_slots m) k hp of
             None \<Rightarrow> None
           | Some (ss, k1, hp1) \<Rightarrow>
               let m1 = m\<lparr>mv_slots := ss\<rparr> in
               if now \<ge> mv_next_publish m1
               then (case publish_slots pclks 0 (mv_slots m1) hp1 of
                       (ss2, hp2) \<Rightarrow> Some (m1\<lparr>mv_next_publish := now + kPublishPeriod, mv_slots := ss2\<rparr>, k1, hp2))
               else Some (m1, k1, hp1)))"

section \<open>The pool\<close>

definition view_object :: "Slot \<Rightarrow> oid option" where
  "view_object s = Option.bind (sl_pub s) p_hdr"

text \<open>Every allocated slot is in order on a segment of its own.\<close>

definition views_ok :: "Slot list \<Rightarrow> heap \<Rightarrow> bool" where
  "views_ok ss hp \<longleftrightarrow>
     (\<forall>i<length ss. sl_pub (ss ! i) \<noteq> None \<longrightarrow> (\<exists>b. view_object (ss ! i) = Some b \<and> slot_ok (view_config i) b (ss ! i) hp)) \<and>
     (\<forall>i<length ss. \<forall>j<length ss. i \<noteq> j \<and> view_object (ss ! i) \<noteq> None \<longrightarrow> view_object (ss ! i) \<noteq> view_object (ss ! j))"

text \<open>The channel of a slot exists under its name, and the name of a free slot is free; the control channel exists under its own.\<close>

definition view_bound :: "('k \<Rightarrow> string \<Rightarrow> (oid \<times> u64) option) \<Rightarrow> ('k \<Rightarrow> oid set) \<Rightarrow> oid \<Rightarrow> 'k \<Rightarrow> nat \<Rightarrow> Slot \<Rightarrow> bool" where
  "view_bound bound alloc b0 k i s \<longleftrightarrow> (case view_object s of
     None \<Rightarrow> sl_pub s = None \<and> bound k (channel_name i) = None
   | Some b \<Rightarrow> b \<noteq> b0 \<and> b \<in> alloc k \<and> bound k (channel_name i) = Some (b, L_total_size (compute_layout (view_config i))))"

definition pool_ok :: "('k \<Rightarrow> bool) \<Rightarrow> ('k \<Rightarrow> string \<Rightarrow> (oid \<times> u64) option) \<Rightarrow> ('k \<Rightarrow> oid set) \<Rightarrow> oid \<Rightarrow> producer \<times> 'k \<times> heap \<Rightarrow> bool" where
  "pool_ok ok bound alloc b0 st \<longleftrightarrow> (case st of (m, k, hp) \<Rightarrow>
     ok k \<and> b0 \<in> alloc k \<and> bound k kControlChannelName = Some (b0, L_total_size (compute_layout control_cfg)) \<and> pub_at b0 (mv_control m) hp \<and> p_cfg (mv_control m) = control_cfg \<and>
     length (mv_slots m) \<le> 2 ^ 31 \<and> views_ok (mv_slots m) hp \<and>
     (\<forall>i<length (mv_slots m). view_bound bound alloc b0 k i (mv_slots m ! i)))"

definition control_queue :: "oid \<Rightarrow> producer \<times> 'k \<times> heap \<Rightarrow> LLShmCommand list" where
  "control_queue b0 st = (case st of (m, k, hp) \<Rightarrow> ring_queue control_cfg Upstream (hp b0))"

text \<open>
  What a requester can observe: for every index whether it is taken, by which claim its commands are owned and which are queued, and the replies.
\<close>

definition view_state :: "heap \<Rightarrow> Slot \<Rightarrow> (u64 \<times> LLShmCommand list) option" where
  "view_state hp s = Option.bind (sl_pub s) (\<lambda>p.
     map_option (\<lambda>b. (h_command_owner_gen (m_hdr (hp b)), ring_queue (p_cfg p) Upstream (hp b))) (p_hdr p))"

definition view_states :: "Slot list \<Rightarrow> heap \<Rightarrow> (u64 \<times> LLShmCommand list) option list" where
  "view_states ss hp = map (view_state hp) ss"

definition pool_view :: "oid \<Rightarrow> producer \<times> 'k \<times> heap \<Rightarrow> (u64 \<times> LLShmCommand list) option list \<times> (u32 \<times> u8 list \<times> u64) list" where
  "pool_view b0 st = (case st of (m, k, hp) \<Rightarrow> (view_states (mv_slots m) hp, replies control_cfg (hp b0)))"

text \<open>The allocator: the lowest free index becomes taken, is nobody's yet and has no commands.\<close>

definition pool_step :: "LLShmCommand \<Rightarrow> (u64 \<times> LLShmCommand list) option list \<times> (u32 \<times> u8 list \<times> u64) list \<Rightarrow> (u64 \<times> LLShmCommand list) option list \<times> (u32 \<times> u8 list \<times> u64) list" where
  "pool_step cmd v = (case v of (ts, q) \<Rightarrow>
     if cmd_type cmd \<noteq> kRequestSlot then (ts, q)
     else if None \<in> set ts
     then (let i = length (takeWhile (\<lambda>t. t \<noteq> None) ts) in
           (ts[i := Some (0, [])], enq_reply control_cfg (kSlotAssigned, to_le32 (of_nat i), cmd_id cmd) q))
     else (ts, enq_reply control_cfg (kSlotUnavailable, [], cmd_id cmd) q))"

definition pool_inv :: "('k \<Rightarrow> bool) \<Rightarrow> ('k \<Rightarrow> string \<Rightarrow> (oid \<times> u64) option) \<Rightarrow> ('k \<Rightarrow> oid set) \<Rightarrow> oid \<Rightarrow> LLHeader \<Rightarrow> producer \<times> 'k \<times> heap \<Rightarrow> bool" where
  "pool_inv ok bound alloc b0 h st \<longleftrightarrow> pool_ok ok bound alloc b0 st \<and> m_hdr (snd (snd st) b0) = h"

section \<open>Requests\<close>

lemma control_cfg_simps [simp]:
  "cfg_max_command_bytes control_cfg = 512" "cfg_command_slots control_cfg = 64" "cfg_name control_cfg = kControlChannelName"
  by (simp_all add: control_cfg_def LLConfig_default_def)

lemma control_cfg_valid: "config_valid control_cfg"
  by (simp add: config_valid_def control_cfg_def LLConfig_default_def k_defs kControlChannelName_def)

lemma control_cfg_total: "L_total_size (compute_layout control_cfg) \<le> kMaxSegment"
  by (simp add: compute_layout_def align_up_def k_defs control_cfg_def LLConfig_default_def max_payload_def)

lemma channel_name_inj: "channel_name i = channel_name j \<longleftrightarrow> i = j"
  by (auto simp: channel_name_def dest: decimal_inj)

lemma decimal_digits: "c \<in> set (decimal n) \<Longrightarrow> of_char c \<le> (57 :: nat)"
proof (induction n rule: decimal.induct)
  case (1 n)
  have d: "of_char (char_of (48 + d :: nat)) \<le> (57 :: nat)" if "d < 10" for d using that by (simp add: of_char_of)
  show ?case using 1 d[of n] d[of "n mod 10"] by (cases "n < 10") (auto simp: decimal.simps[of n])
qed

lemma control_name_apart: "channel_name i \<noteq> kControlChannelName"
proof
  assume "channel_name i = kControlChannelName"
  then have "decimal i = ''control''" by (simp add: channel_name_def kChannelPrefix_def kControlChannelName_def)
  then have "CHR ''c'' \<in> set (decimal i)" by simp
  from decimal_digits[OF this] show False by simp
qed

lemma first_free_eq:
  "first_free i ss = (if \<exists>s\<in>set ss. sl_pub s = None then Some (i + length (takeWhile (\<lambda>s. sl_pub s \<noteq> None) ss)) else None)"
  by (induction ss arbitrary: i) auto

text \<open>An object's owner only looks at that object.\<close>

lemma pub_at_frame: "pub_at b p hp \<Longrightarrow> hp' b = hp b \<Longrightarrow> pub_at b p hp'"
  by (simp add: pub_at_def)

lemma slot_ok_frame: "slot_ok c b s hp \<Longrightarrow> hp' b = hp b \<Longrightarrow> slot_ok c b s hp'"
  by (auto simp: slot_ok_def intro: pub_at_frame)

lemma view_object_slot: "slot_ok c b s hp \<Longrightarrow> view_object s = Some b"
  using pub_atD(4) by (fastforce simp: slot_ok_def view_object_def)

lemma views_frame:
  assumes "views_ok ss hp" and "\<And>i b. i < length ss \<Longrightarrow> view_object (ss ! i) = Some b \<Longrightarrow> hp' b = hp b"
  shows "views_ok ss hp'"
  unfolding views_ok_def
proof (intro conjI allI impI)
  fix i assume i: "i < length ss" "sl_pub (ss ! i) \<noteq> None"
  then obtain b where "view_object (ss ! i) = Some b" "slot_ok (view_config i) b (ss ! i) hp" using assms(1) by (auto simp: views_ok_def)
  with assms(2)[OF i(1)] show "\<exists>b. view_object (ss ! i) = Some b \<and> slot_ok (view_config i) b (ss ! i) hp'" using slot_ok_frame by blast
qed (use assms(1) in \<open>auto simp: views_ok_def\<close>)

text \<open>A slot is replaced by one on a segment no other slot has.\<close>

lemma views_okD:
  assumes "views_ok ss hp" and "i < length ss"
  shows "sl_pub (ss ! i) \<noteq> None \<Longrightarrow> \<exists>b. view_object (ss ! i) = Some b \<and> slot_ok (view_config i) b (ss ! i) hp"
    and "j < length ss \<Longrightarrow> i \<noteq> j \<Longrightarrow> view_object (ss ! i) = Some b \<Longrightarrow> view_object (ss ! j) \<noteq> Some b"
  using assms unfolding views_ok_def by (blast, metis option.distinct(1))

lemma views_update:
  assumes "views_ok ss hp" and "slot_ok (view_config i) b s hp \<or> sl_pub s = None"
    and "\<And>j b'. j < length ss \<Longrightarrow> j \<noteq> i \<Longrightarrow> view_object s = Some b' \<Longrightarrow> view_object (ss ! j) \<noteq> Some b'"
  shows "views_ok (ss[i := s]) hp"
  unfolding views_ok_def length_list_update
proof (intro conjI allI impI)
  fix j assume j: "j < length ss" "sl_pub (ss[i := s] ! j) \<noteq> None"
  show "\<exists>b. view_object (ss[i := s] ! j) = Some b \<and> slot_ok (view_config j) b (ss[i := s] ! j) hp"
  proof (cases "j = i")
    case True
    then show ?thesis using assms(2) j view_object_slot by auto
  next
    case False
    then show ?thesis using views_okD(1)[OF assms(1) j(1)] j(2) by simp
  qed
next
  fix j l assume jl: "j < length ss" "l < length ss" "j \<noteq> l \<and> view_object (ss[i := s] ! j) \<noteq> None"
  then obtain b' where b': "view_object (ss[i := s] ! j) = Some b'" by blast
  consider "j = i" | "j \<noteq> i" "l = i" | "j \<noteq> i" "l \<noteq> i" by blast
  then show "view_object (ss[i := s] ! j) \<noteq> view_object (ss[i := s] ! l)"
  proof cases
    case 1
    with jl b' assms(3)[of l b'] show ?thesis by auto
  next
    case 2
    with jl b' assms(3)[of j b'] show ?thesis by auto
  next
    case 3
    with jl b' views_okD(2)[OF assms(1) jl(1,2)] show ?thesis by auto
  qed
qed

text \<open>The control segment and the views do not share memory.\<close>

lemma pool_control_write:
  assumes "pool_ok ok bound alloc b0 (m, k, hp)" and "pub_at b0 pub hp'" and "p_cfg pub = control_cfg" and "\<forall>x. x \<noteq> b0 \<longrightarrow> hp' x = hp x"
  shows "pool_ok ok bound alloc b0 (m\<lparr>mv_control := pub\<rparr>, k, hp')"
proof -
  have "views_ok (mv_slots m) hp'"
  proof (rule views_frame)
    show "views_ok (mv_slots m) hp" using assms(1) by (simp add: pool_ok_def)
    fix i b assume "i < length (mv_slots m)" "view_object (mv_slots m ! i) = Some b"
    then have "b \<noteq> b0" using assms(1) by (auto simp: pool_ok_def view_bound_def)
    then show "hp' b = hp b" using assms(4) by simp
  qed
  then show ?thesis using assms(1-3) by (simp add: pool_ok_def)
qed

lemma view_states_update: "view_states (ss[i := s]) hp = (view_states ss hp)[i := view_state hp s]"
  by (simp add: view_states_def map_update)

lemma view_state_cong: "(\<And>b. view_object s = Some b \<Longrightarrow> hp' b = hp b) \<Longrightarrow> view_state hp' s = view_state hp s"
  by (cases "sl_pub s"; cases "p_hdr (the (sl_pub s))") (simp_all add: view_state_def view_object_def)

lemma view_state_None: "view_state hp s = None \<longleftrightarrow> view_object s = None"
  by (cases "sl_pub s") (simp_all add: view_state_def view_object_def)

lemma view_states_frame:
  assumes "pool_ok ok bound alloc b0 (m, k, hp)" and "\<forall>x. x \<noteq> b0 \<longrightarrow> hp' x = hp x"
  shows "view_states (mv_slots m) hp' = view_states (mv_slots m) hp"
  unfolding view_states_def
proof (rule map_cong[OF refl])
  fix s assume "s \<in> set (mv_slots m)"
  then obtain i where i: "i < length (mv_slots m)" "s = mv_slots m ! i" by (metis in_set_conv_nth)
  have "b \<noteq> b0" if "view_object s = Some b" for b using assms(1) i that by (auto simp: pool_ok_def view_bound_def)
  then show "view_state hp' s = view_state hp s" using assms(2) by (intro view_state_cong) blast
qed

lemma control_reply_ok:
  assumes "pool_ok ok bound alloc b0 (m, k, hp)" and "length (send_data data sz) = unat sz" and "sz \<le> 512"
    and "st' = control_reply ty data sz reply_to clk (m, k, hp)"
  shows "pool_ok ok bound alloc b0 st' \<and> control_queue b0 st' = control_queue b0 (m, k, hp) \<and>
    m_hdr (snd (snd st') b0) = m_hdr (hp b0) \<and> pool_view b0 st' = (view_states (mv_slots m) hp, enq_reply control_cfg (ty, send_data data sz, reply_to) (replies control_cfg (hp b0)))"
proof -
  have at: "pub_at b0 (mv_control m) hp" "p_cfg (mv_control m) = control_cfg" using assms(1) by (simp_all add: pool_ok_def)
  obtain r pub hp1 where send: "pub_send ty data sz reply_to clk (mv_control m) hp = (r, pub, hp1)" by (metis surj_pair)
  have "sz \<le> cfg_max_command_bytes (p_cfg (mv_control m))" using assms(3) at(2) by simp
  note rep = pub_send_reply[OF at(1) assms(2) this send, unfolded at(2)]
  have st': "st' = (m\<lparr>mv_control := pub\<rparr>, k, hp1)" using assms(4) send by (simp add: control_reply_def)
  show ?thesis unfolding st' using pool_control_write[OF assms(1) rep(1,2,5)] rep(3,4,8) view_states_frame[OF assms(1) rep(5)]
    by (simp add: control_queue_def pool_view_def)
qed

lemma view_bound_mono:
  "view_bound bound alloc b0 k j s \<Longrightarrow> bound k1 (channel_name j) = bound k (channel_name j) \<Longrightarrow> alloc k \<subseteq> alloc k1 \<Longrightarrow>
    view_bound bound alloc b0 k1 j s"
  by (auto simp: view_bound_def split: option.splits)

text \<open>A view on a segment nobody has used joins the pool.\<close>

lemma pool_joins:
  assumes "pool_ok ok bound alloc b0 (m, k, hp)" and "slot_ok (view_config i) b s hp1" and "b \<notin> alloc k" and "\<And>x. x \<noteq> b \<Longrightarrow> hp1 x = hp x"
    and "ok k1" and "bound k1 = (bound k)(channel_name i \<mapsto> (b, L_total_size (compute_layout (view_config i))))" and "alloc k1 = insert b (alloc k)"
  shows "pool_ok ok bound alloc b0 (m\<lparr>mv_slots := (mv_slots m)[i := s]\<rparr>, k1, hp1)"
    and "view_states (mv_slots m) hp1 = view_states (mv_slots m) hp" and "hp1 b0 = hp b0"
proof -
  let ?ss = "mv_slots m"
  note P = assms(1)[unfolded pool_ok_def prod.case] and vo = view_object_slot[OF assms(2)]
  have old: "b' \<noteq> b" if "j < length ?ss" "view_object (?ss ! j) = Some b'" for j b'
    using P that assms(3) by (auto simp: view_bound_def)
  have "b0 \<noteq> b" using P assms(3) by auto
  then show h0: "hp1 b0 = hp b0" by (rule assms(4))
  show "view_states ?ss hp1 = view_states ?ss hp" unfolding view_states_def
  proof (rule map_cong[OF refl])
    fix s' assume "s' \<in> set ?ss"
    then obtain j where "j < length ?ss" "s' = ?ss ! j" by (metis in_set_conv_nth)
    then show "view_state hp1 s' = view_state hp s'" using old assms(4) by (intro view_state_cong) blast
  qed
  have vss: "views_ok ?ss hp" using P by blast
  have "views_ok ?ss hp1" by (rule views_frame[OF vss]) (use old assms(4) in blast)
  moreover have "view_object (?ss ! j) \<noteq> Some b'" if "j < length ?ss" "view_object s = Some b'" for j b'
    using old[of j b'] that vo by auto
  ultimately have V: "views_ok (?ss[i := s]) hp1" using assms(2) by (intro views_update) blast+
  have B: "view_bound bound alloc b0 k1 j (?ss[i := s] ! j)" if "j < length ?ss" for j
  proof (cases "j = i")
    case True
    have "view_bound bound alloc b0 k1 i s" unfolding view_bound_def vo assms(6,7) using \<open>b0 \<noteq> b\<close> by simp
    then show ?thesis using True that by simp
  next
    case False
    then have e: "bound k1 (channel_name j) = bound k (channel_name j)" by (simp add: assms(6) channel_name_inj)
    have "view_bound bound alloc b0 k j (?ss ! j)" using P that by blast
    from view_bound_mono[where bound = bound and alloc = alloc, OF this e] False assms(7) show ?thesis by auto
  qed
  have "bound k1 kControlChannelName = bound k kControlChannelName" using control_name_apart[of i] by (simp add: assms(6))
  moreover have "pub_at b0 (mv_control m) hp1" using P pub_at_frame[where hp' = hp1 and hp = hp, OF _ h0] by blast
  ultimately show "pool_ok ok bound alloc b0 (m\<lparr>mv_slots := ?ss[i := s]\<rparr>, k1, hp1)"
    unfolding pool_ok_def using P V B assms(5,7) by simp
qed

lemma pool_allocates:
  assumes "segment_store ok bound alloc pf ops" and "pool_ok ok bound alloc b0 (m, k, hp)"
    and "i < length (mv_slots m)" and "sl_pub (mv_slots m ! i) = None"
  shows "\<exists>s k1 hp1. allocate_slot pf ops (mv_slots m ! i) i view_cfg now clk wall k hp = ((True, s), k1, hp1) \<and>
    view_states ((mv_slots m)[i := s]) hp1 = (view_states (mv_slots m) hp)[i := Some (0, [])] \<and>
    pool_ok ok bound alloc b0 (m\<lparr>mv_slots := (mv_slots m)[i := s]\<rparr>, k1, hp1) \<and> hp1 b0 = hp b0"
proof -
  let ?ss = "mv_slots m"
  note P = assms(2)[unfolded pool_ok_def prod.case]
  have i31: "i < 2 ^ 31" using P assms(3) by linarith
  note v = view_cfg_valid[OF i31] view_cfg_total
  have free: "bound k (cfg_name (view_config i)) = None" using P assms(3,4) by (auto simp: view_bound_def view_object_def)
  have okk: "ok k" using P by simp
  from segment_store.create_fresh[OF assms(1) okk free v, of clk wall hp] obtain seg b k1 where
    c: "publisher_create pf ops (view_config i) clk wall k hp = ((Some (new_publisher (view_config i) seg b), LLStatus_Ok), k1,
      hp(b := init_segment (view_config i) (make_session_id wall (clk 1)) (clk 2) (hp b)))" (is "_ = (_, _, ?hp1)")
    and k1: "ok k1" "bound k1 = (bound k)(channel_name i \<mapsto> (b, L_total_size (compute_layout (view_config i))))"
      "b \<notin> alloc k" "alloc k1 = insert b (alloc k)" by auto
  obtain s where a: "allocate_slot pf ops (?ss ! i) i view_cfg now clk wall k hp = ((True, s), k1, ?hp1)"
    and sp: "sl_pub s = Some (new_publisher (view_config i) seg b)"
    using c assms(4) by (simp add: allocate_slot_def release_pub_def Let_def)
  have vo: "view_object s = Some b" using sp by (simp add: view_object_def new_publisher_def)
  from allocated[OF a assms(4)] obtain b' where "slot_ok (view_config i) b' s ?hp1" by auto
  then have so: "slot_ok (view_config i) b s ?hp1" using view_object_slot vo by fastforce
  have fr: "?hp1 x = hp x" if "x \<noteq> b" for x using that by simp
  note joins = pool_joins[OF assms(2) so k1(3) fr k1(1,2,4)]
  have "h_command_owner_gen (m_hdr (?hp1 b)) = 0" by (simp add: init_segment_def Let_def LLHeader_zero_def)
  moreover have "ring_queue (view_config i) Upstream (?hp1 b) = []" using seg_inv_init(2)[OF v] by simp
  ultimately have "view_state ?hp1 s = Some (0, [])" by (simp add: view_state_def sp new_publisher_def)
  then have "view_states (?ss[i := s]) ?hp1 = (view_states ?ss hp)[i := Some (0, [])]" using joins(2) by (metis view_states_update)
  then show ?thesis using a joins(1,3) by blast
qed

text \<open>In a pool in order, an index is free exactly when it has no segment.\<close>

lemma first_free_view_states:
  assumes "pool_ok ok bound alloc b0 (m, k, hp)"
  shows "first_free 0 (mv_slots m) = (if None \<in> set (view_states (mv_slots m) hp)
      then Some (length (takeWhile (\<lambda>t. t \<noteq> None) (view_states (mv_slots m) hp))) else None)"
    and "first_free 0 (mv_slots m) = Some i \<Longrightarrow> i < length (mv_slots m) \<and> sl_pub (mv_slots m ! i) = None"
proof -
  let ?ss = "mv_slots m" and ?P = "\<lambda>s. sl_pub s \<noteq> None"
  have iff: "sl_pub s = None \<longleftrightarrow> view_object s = None" if mem: "s \<in> set ?ss" for s
  proof -
    obtain i where i: "i < length ?ss" "s = ?ss ! i" using mem by (metis in_set_conv_nth)
    have "\<forall>i<length ?ss. view_bound bound alloc b0 k i (?ss ! i)" using assms unfolding pool_ok_def prod.case by blast
    then have v: "view_bound bound alloc b0 k i s" using i by blast
    show ?thesis
    proof (cases "view_object s")
      case None
      then show ?thesis using v by (simp add: view_bound_def)
    next
      case (Some b)
      then show ?thesis by (cases "sl_pub s") (simp_all add: view_object_def)
    qed
  qed
  have "takeWhile ?P ?ss = takeWhile (\<lambda>s. view_object s \<noteq> None) ?ss" using iff by (intro takeWhile_cong[OF refl]) auto
  then have tw: "length (takeWhile (\<lambda>t. t \<noteq> None) (view_states ?ss hp)) = length (takeWhile ?P ?ss)"
    by (simp only: view_states_def takeWhile_map comp_def view_state_None length_map)
  have ex: "None \<in> set (view_states ?ss hp) \<longleftrightarrow> (\<exists>s\<in>set ?ss. sl_pub s = None)" unfolding view_states_def set_map image_iff using iff view_state_None by metis
  show "first_free 0 ?ss = (if None \<in> set (view_states ?ss hp)
      then Some (length (takeWhile (\<lambda>t. t \<noteq> None) (view_states ?ss hp))) else None)" by (simp only: first_free_eq tw ex add_0)
  assume "first_free 0 ?ss = Some i"
  then have i: "i = length (takeWhile ?P ?ss)" and e: "\<exists>s\<in>set ?ss. sl_pub s = None" by (auto simp: first_free_eq split: if_splits)
  have "takeWhile ?P ?ss \<noteq> ?ss" using e by (auto simp: takeWhile_eq_all_conv)
  then have l: "i < length ?ss" unfolding i using length_takeWhile_le[of ?P ?ss]
    by (metis le_neq_implies_less takeWhile_eq_take take_all_iff order_refl)
  then show "i < length ?ss \<and> sl_pub (?ss ! i) = None" using nth_length_takeWhile[of ?P ?ss] i by simp
qed

lemma index_payload: "pack_u32 (replicate 4 0) v = (to_le32 v, 4)" "send_data (Some (to_le32 v)) 4 = to_le32 v"
proof -
  have "replicate 4 (0 :: u8) = [0, 0, 0, 0]" by (simp add: numeral_eq_Suc)
  then show "pack_u32 (replicate 4 0) v = (to_le32 v, 4)" by (simp add: pack_u32_def to_le32_def)
qed (simp add: to_le32_def send_data_def)

lemma control_handle_ok:
  assumes "segment_store ok bound alloc pf ops" and "pool_ok ok bound alloc b0 st" and "st' = control_handle pf ops now env cmd st"
  shows "pool_ok ok bound alloc b0 st' \<and> control_queue b0 st' = control_queue b0 st \<and>
    m_hdr (snd (snd st') b0) = m_hdr (snd (snd st) b0) \<and> pool_view b0 st' = pool_step cmd (pool_view b0 st)"
proof -
  obtain m k hp where st: "st = (m, k, hp)" by (cases st)
  obtain cclk wall sclk where env: "env (p_recvd (mv_control m)) = (cclk, wall, sclk)" by (metis surj_pair)
  note ok = assms(2)[unfolded st]
  note ff = first_free_view_states[OF ok]
  let ?os = "view_states (mv_slots m) hp"
  consider (other) "cmd_type cmd \<noteq> kRequestSlot" | (full) "cmd_type cmd = kRequestSlot" "None \<notin> set ?os"
    | (free) "cmd_type cmd = kRequestSlot" "None \<in> set ?os" by blast
  then show ?thesis
  proof cases
    case other
    then show ?thesis using assms(2,3) by (simp add: control_handle_def st env pool_step_def pool_view_def)
  next
    case full
    then have "first_free 0 (mv_slots m) = None" using ff(1) by simp
    then have "st' = control_reply kSlotUnavailable None 0 (cmd_id cmd) sclk (m, k, hp)"
      using assms(3) full(1) by (simp add: control_handle_def st env)
    from control_reply_ok[OF ok _ _ this] full show ?thesis by (simp add: st send_data_def pool_step_def pool_view_def)
  next
    case free
    define i where "i = length (takeWhile (\<lambda>t. t \<noteq> None) ?os)"
    have fi: "first_free 0 (mv_slots m) = Some i" using ff(1) free(2) by (simp only: if_True i_def)
    from pool_allocates[OF assms(1) ok conjunct1[OF ff(2)[OF fi]] conjunct2[OF ff(2)[OF fi]], of now cclk wall] obtain s k1 hp1 where
      a: "allocate_slot pf ops (mv_slots m ! i) i view_cfg now cclk wall k hp = ((True, s), k1, hp1)"
      and os: "view_states ((mv_slots m)[i := s]) hp1 = ?os[i := Some (0, [])]"
      and ok1: "pool_ok ok bound alloc b0 (m\<lparr>mv_slots := (mv_slots m)[i := s]\<rparr>, k1, hp1)" and h0: "hp1 b0 = hp b0" by (elim exE conjE)
    have "st' = control_reply kSlotAssigned (Some (to_le32 (of_nat i))) 4 (cmd_id cmd) sclk (m\<lparr>mv_slots := (mv_slots m)[i := s]\<rparr>, k1, hp1)"
      using assms(3) free(1) fi a by (simp add: control_handle_def st env index_payload)
    from control_reply_ok[OF ok1 _ _ this] free h0 os show ?thesis
      unfolding st pool_view_def pool_step_def prod.case i_def[symmetric]
      by (simp add: index_payload control_queue_def Let_def i_def[symmetric])
  qed
qed

text \<open>The request loop, for every name space that meets its contract.\<close>

sublocale segment_store \<subseteq> pool: command_loop control_recv "control_handle pf ops now env" "control_queue b0"
  "pool_inv ok bound alloc b0 h" "pool_view b0" pool_step for now env b0 h
proof unfold_locales
  fix st :: "producer \<times> 'k \<times> heap"
  assume inv': "pool_inv ok bound alloc b0 h st"
  then have inv: "pool_ok ok bound alloc b0 st" by (simp add: pool_inv_def)
  obtain m k hp where st: "st = (m, k, hp)" by (cases st)
  have at: "pub_at b0 (mv_control m) hp" "p_cfg (mv_control m) = control_cfg" using inv by (simp_all add: st pool_ok_def)
  show "\<exists>s'. control_recv st = (None, s') \<and> pool_inv ok bound alloc b0 h s' \<and> control_queue b0 s' = [] \<and> pool_view b0 s' = pool_view b0 st"
    if "control_queue b0 st = []"
    using pub_receive_loop(1)[OF at(1)] that at inv' by (simp add: st control_recv_def control_queue_def)
  show "\<exists>s'. control_recv st = (Some x, s') \<and> pool_inv ok bound alloc b0 h s' \<and> control_queue b0 s' = q \<and> pool_view b0 s' = pool_view b0 st"
    if "control_queue b0 st = x # q" for x q
  proof -
    let ?pub = "(mv_control m)\<lparr>p_recvd := p_recvd (mv_control m) + 1\<rparr>"
    from pub_receive_loop(2)[OF at(1), of x q] that at(2) obtain hp' where
      r: "pub_receive (mv_control m) hp = (Some x, ?pub, hp')" "pub_at b0 (mv_control m) hp'" "ring_queue control_cfg Upstream (hp' b0) = q"
      "replies control_cfg (hp' b0) = replies control_cfg (hp b0)" "\<forall>y. y \<noteq> b0 \<longrightarrow> hp' y = hp y" "m_hdr (hp' b0) = m_hdr (hp b0)"
      by (auto simp: st control_queue_def)
    have "pool_ok ok bound alloc b0 (m\<lparr>mv_control := ?pub\<rparr>, k, hp')"
      using r(2) at(2) by (intro pool_control_write[OF inv[unfolded st] _ _ r(5)]) simp_all
    then show ?thesis using r inv' view_states_frame[OF inv[unfolded st] r(5)]
      by (simp add: st pool_inv_def control_recv_def control_queue_def pool_view_def)
  qed
  show "pool_inv ok bound alloc b0 h (control_handle pf ops now env x st) \<and>
      control_queue b0 (control_handle pf ops now env x st) = control_queue b0 st \<and>
      pool_view b0 (control_handle pf ops now env x st) = pool_step x (pool_view b0 st)" for x
    using control_handle_ok[OF segment_store_axioms inv refl] inv' by (simp add: pool_inv_def)
qed

context segment_store
begin

lemma request_loop:
  "pool_ok ok bound alloc b0 st \<Longrightarrow> length (control_queue b0 st) < fuel \<Longrightarrow>
   \<exists>st'. drain fuel control_recv (control_handle pf ops now env) st = Some st' \<and> pool_ok ok bound alloc b0 st' \<and>
     control_queue b0 st' = [] \<and> m_hdr (snd (snd st') b0) = m_hdr (snd (snd st) b0) \<and> pool_view b0 st' = fold pool_step (control_queue b0 st) (pool_view b0 st)"
  using pool.drains[of b0 "m_hdr (snd (snd st) b0)" st fuel now env] by (auto simp: pool_inv_def)

end

section \<open>A pass over the views\<close>

text \<open>The outcome for one slot: unchanged if it was free, else what a pass does given its own segment alone.\<close>

definition pass_result :: "int \<Rightarrow> (nat \<Rightarrow> clock) \<Rightarrow> (nat \<Rightarrow> nat \<Rightarrow> nat) \<Rightarrow> nat \<Rightarrow> Slot \<Rightarrow> heap \<Rightarrow> Slot \<Rightarrow> heap \<Rightarrow> bool" where
  "pass_result now clks rnds i s hp s' hp' \<longleftrightarrow> (case view_object s of
     None \<Rightarrow> s' = s
   | Some b \<Rightarrow> slot_after (view_config i) now (clks i) (rnds i) s (hp b) = Some (s'\<lparr>sl_pub := None\<rparr>) \<and>
       (if slot_gone now (clks i) s (m_hdr (hp b)) then s' = Slot_new else slot_ok (view_config i) b s' hp'))"

lemma pass_result_frame:
  assumes "pass_result now clks rnds i s hp1 s' hp'" and "\<And>b. view_object s = Some b \<Longrightarrow> hp1 b = hp b"
  shows "pass_result now clks rnds i s hp s' hp'"
  using assms by (cases "view_object s") (simp_all add: pass_result_def)

lemma pass_result_after:
  assumes "pass_result now clks rnds i s hp s' hp1" and "\<And>b. view_object s = Some b \<Longrightarrow> hp' b = hp1 b"
  shows "pass_result now clks rnds i s hp s' hp'"
proof (cases "view_object s")
  case None
  then show ?thesis using assms(1) by (simp add: pass_result_def)
next
  case (Some b)
  then show ?thesis using assms slot_ok_frame[of "view_config i" b s' hp1 hp'] by (auto simp: pass_result_def)
qed

lemma slot_pass_result:
  assumes "sl_pub s \<noteq> None \<Longrightarrow> \<exists>b. view_object s = Some b \<and> slot_ok (view_config n) b s hp" and "64 < fuel"
  shows "\<exists>s1 k1 hp1. slot_service fuel pf ops now (clks n) (rnds n) s k hp = Some (s1, k1, hp1) \<and>
    (\<forall>x. view_object s \<noteq> Some x \<longrightarrow> hp1 x = hp x) \<and> pass_result now clks rnds n s hp s1 hp1"
proof (cases "sl_pub s = None")
  case True
  then show ?thesis by (simp add: slot_service_def pass_result_def view_object_def)
next
  case False
  with assms(1) obtain b where b: "view_object s = Some b" "slot_ok (view_config n) b s hp" by blast
  obtain p where p: "pub_at b p hp" "p_cfg p = view_config n" using b(2) by (auto simp: slot_ok_def)
  have "length (ring_queue (view_config n) Upstream (hp b)) \<le> 64" using queue_bounded[OF pub_atD(3)[OF p(1)], of Upstream] p(2) by simp
  then have "length (ring_queue (view_config n) Upstream (hp b)) < fuel" using assms(2) by simp
  from slot_pass[OF b(2) this, of pf ops now "clks n" "rnds n" k] obtain s' k' hp' where
    "slot_service fuel pf ops now (clks n) (rnds n) s k hp = Some (s', k', hp')" "\<forall>x. x \<noteq> b \<longrightarrow> hp' x = hp x"
    "slot_after (view_config n) now (clks n) (rnds n) s (hp b) = Some (s'\<lparr>sl_pub := None\<rparr>)"
    "if slot_gone now (clks n) s (m_hdr (hp b)) then s' = Slot_new else slot_ok (view_config n) b s' hp'" by blast
  then show ?thesis using b(1) by (intro exI[of _ s'] exI[of _ k'] exI[of _ hp']) (auto simp: pass_result_def)
qed

lemma serve_slots_pass:
  assumes "\<And>i. i < length ss \<Longrightarrow> sl_pub (ss ! i) \<noteq> None \<Longrightarrow> \<exists>b. view_object (ss ! i) = Some b \<and> slot_ok (view_config (n + i)) b (ss ! i) hp"
    and "\<And>i j b. i < length ss \<Longrightarrow> j < length ss \<Longrightarrow> i \<noteq> j \<Longrightarrow> view_object (ss ! i) = Some b \<Longrightarrow> view_object (ss ! j) \<noteq> Some b"
    and "64 < fuel"
  shows "\<exists>ss' k' hp'. serve_slots fuel pf ops now clks rnds n ss k hp = Some (ss', k', hp') \<and> length ss' = length ss \<and>
    (\<forall>x. (\<forall>i<length ss. view_object (ss ! i) \<noteq> Some x) \<longrightarrow> hp' x = hp x) \<and>
    (\<forall>i<length ss. pass_result now clks rnds (n + i) (ss ! i) hp (ss' ! i) hp')"
  using assms(1,2)
proof (induction ss arbitrary: n k hp)
  case (Cons s ss)
  have own: "\<exists>b. view_object s = Some b \<and> slot_ok (view_config n) b s hp" if "sl_pub s \<noteq> None" using Cons.prems(1)[of 0] that by simp
  from slot_pass_result[OF own assms(3), of pf ops now clks rnds k] obtain s1 k1 hp1 where s1: "slot_service fuel pf ops now (clks n) (rnds n) s k hp = Some (s1, k1, hp1)"
    "\<And>x. view_object s \<noteq> Some x \<Longrightarrow> hp1 x = hp x" "pass_result now clks rnds n s hp s1 hp1" by blast
  have apart: "view_object s \<noteq> Some b" if "i < length ss" "view_object (ss ! i) = Some b" for i b
    using Cons.prems(2)[of "Suc i" 0 b] that by simp
  have pre: "\<exists>b. view_object (ss ! i) = Some b \<and> slot_ok (view_config (Suc n + i)) b (ss ! i) hp1" if i: "i < length ss" "sl_pub (ss ! i) \<noteq> None" for i
  proof -
    from Cons.prems(1)[of "Suc i"] i obtain b where b: "view_object (ss ! i) = Some b" "slot_ok (view_config (Suc n + i)) b (ss ! i) hp" by auto
    with s1(2)[OF apart[OF i(1) b(1)]] show ?thesis using slot_ok_frame by blast
  qed
  have dist: "view_object (ss ! j) \<noteq> Some b" if "i < length ss" "j < length ss" "i \<noteq> j" "view_object (ss ! i) = Some b" for i j b
    using Cons.prems(2)[of "Suc i" "Suc j" b] that by simp
  have "\<exists>ss' k' hp'. serve_slots fuel pf ops now clks rnds (Suc n) ss k1 hp1 = Some (ss', k', hp') \<and> length ss' = length ss \<and>
      (\<forall>x. (\<forall>i<length ss. view_object (ss ! i) \<noteq> Some x) \<longrightarrow> hp' x = hp1 x) \<and>
      (\<forall>i<length ss. pass_result now clks rnds (Suc n + i) (ss ! i) hp1 (ss' ! i) hp')"
    by (rule Cons.IH) (use pre dist in blast)+
  then obtain ss' k' hp' where
    r: "serve_slots fuel pf ops now clks rnds (Suc n) ss k1 hp1 = Some (ss', k', hp')" "length ss' = length ss"
      "\<And>x. (\<forall>i<length ss. view_object (ss ! i) \<noteq> Some x) \<Longrightarrow> hp' x = hp1 x"
      "\<And>i. i < length ss \<Longrightarrow> pass_result now clks rnds (Suc n + i) (ss ! i) hp1 (ss' ! i) hp'" by blast
  have "hp' b = hp1 b" if "view_object s = Some b" for b using r(3)[of b] apart that by blast
  then have first: "pass_result now clks rnds n s hp s1 hp'" by (rule pass_result_after[OF s1(3)])
  have rest: "pass_result now clks rnds (Suc n + i) (ss ! i) hp (ss' ! i) hp'" if "i < length ss" for i
    using pass_result_frame[OF r(4)[OF that]] s1(2) apart[OF that] by blast
  have "pass_result now clks rnds (n + i) ((s # ss) ! i) hp ((s1 # ss') ! i) hp'" if "i < length (s # ss)" for i
    using first rest[of "i - 1"] that by (cases i) simp_all
  moreover have "hp' x = hp x" if "\<forall>i<length (s # ss). view_object ((s # ss) ! i) \<noteq> Some x" for x
  proof -
    have "view_object s \<noteq> Some x" using that by (auto dest: spec[of _ 0])
    moreover have "\<forall>i<length ss. view_object (ss ! i) \<noteq> Some x" using that by (auto dest: spec[of _ "Suc _"])
    ultimately show ?thesis using r(3) s1(2) by simp
  qed
  ultimately show ?case using s1(1) r(1,2) by auto
qed simp

section \<open>Start\<close>

lemma views_ok_new: "views_ok (replicate n Slot_new) hp"
  by (simp add: views_ok_def Slot_new_def view_object_def)

lemma pool_started:
  assumes "segment_store ok bound alloc pf ops" and "ok k" and "bound k kControlChannelName = None"
    and "n = nat (if wanted \<le> 0 then 1 else wanted)" and "\<And>i. i < n \<Longrightarrow> bound k (channel_name i) = None" and "n \<le> 2 ^ 31"
  shows "\<exists>m k' hp' b0. producer_start pf ops wanted now clk wall k hp = (Inr m, k', hp') \<and> pool_ok ok bound alloc b0 (m, k', hp') \<and>
    mv_slots m = replicate n Slot_new \<and> (\<forall>d. ring_queue control_cfg d (hp' b0) = []) \<and>
    h_command_owner_gen (m_hdr (hp' b0)) = 0 \<and> h_last_heartbeat_ns (m_hdr (hp' b0)) = clk 2"
proof -
  have cn: "cfg_name control_cfg = kControlChannelName" by simp
  from segment_store.create_fresh[OF assms(1,2) _ control_cfg_valid control_cfg_total, of clk wall hp] assms(3) obtain seg b0 k' where
    c: "publisher_create pf ops control_cfg clk wall k hp = ((Some (new_publisher control_cfg seg b0), LLStatus_Ok), k',
      hp(b0 := init_segment control_cfg (make_session_id wall (clk 1)) (clk 2) (hp b0)))" (is "_ = (_, _, ?hp')")
    and k': "ok k'" "bound k' = (bound k)(kControlChannelName \<mapsto> (b0, L_total_size (compute_layout control_cfg)))"
      "alloc k' = insert b0 (alloc k)" by auto
  let ?m = "\<lparr>mv_slots = replicate n Slot_new, mv_control = new_publisher control_cfg seg b0, mv_next_publish = now\<rparr>"
  have "producer_start pf ops wanted now clk wall k hp = (Inr ?m, k', ?hp')"
    using c assms(4) by (simp add: producer_start_def Let_def)
  moreover have "pub_at b0 (new_publisher control_cfg seg b0) ?hp'" by (rule new_publisher_at[OF control_cfg_valid control_cfg_total])
  moreover have "p_cfg (new_publisher control_cfg seg b0) = control_cfg" by (simp add: new_publisher_def)
  moreover have "view_bound bound alloc b0 k' i (replicate n Slot_new ! i)" if "i < n" for i
    using that assms(5)[OF that] control_name_apart[of i] by (simp add: view_bound_def view_object_def Slot_new_def k'(2))
  moreover have "ring_queue control_cfg d (?hp' b0) = []" for d using seg_inv_init(2)[OF control_cfg_valid control_cfg_total] by simp
  moreover have "h_command_owner_gen (m_hdr (?hp' b0)) = 0" "h_last_heartbeat_ns (m_hdr (?hp' b0)) = clk 2"
    by (simp_all add: init_segment_def Let_def LLHeader_zero_def)
  ultimately show ?thesis using k' views_ok_new assms(6) by (intro exI[of _ ?m] exI[of _ k'] exI[of _ ?hp'] exI[of _ b0]) (simp add: pool_ok_def)
qed

section \<open>The answers\<close>

text \<open>
  The same allocator in one go: the n-th of the requests is answered with the n-th free index, or refused when
  there are not that many.
\<close>

definition requests :: "LLShmCommand list \<Rightarrow> LLShmCommand list" where
  "requests cs = filter (\<lambda>c. cmd_type c = kRequestSlot) cs"

definition free_indices :: "'a option list \<Rightarrow> nat list" where
  "free_indices ts = filter (\<lambda>i. ts ! i = None) [0..<length ts]"

fun pool_answers :: "nat list \<Rightarrow> LLShmCommand list \<Rightarrow> (u32 \<times> u8 list \<times> u64) list" where
  "pool_answers frees [] = []"
| "pool_answers [] (c # cs) = (kSlotUnavailable, [], cmd_id c) # pool_answers [] cs"
| "pool_answers (i # frees) (c # cs) = (kSlotAssigned, to_le32 (of_nat i), cmd_id c) # pool_answers frees cs"

lemma free_indices_Nil: "None \<notin> set ts \<longleftrightarrow> free_indices ts = []"
  by (auto simp: free_indices_def filter_empty_conv in_set_conv_nth)

lemma free_indices_first:
  assumes "None \<in> set ts" and "i = length (takeWhile (\<lambda>t. t \<noteq> None) ts)"
  shows "free_indices ts = i # free_indices (ts[i := Some x])"
proof -
  have "takeWhile (\<lambda>t. t \<noteq> None) ts \<noteq> ts" using assms(1) by (auto simp: takeWhile_eq_all_conv)
  then have l: "i < length ts" unfolding assms(2)
    by (metis length_takeWhile_le le_neq_implies_less takeWhile_eq_take take_all_iff order_refl)
  have n: "ts ! i = None" using nth_length_takeWhile[of "\<lambda>t. t \<noteq> None" ts] l assms(2) by simp
  have b: "ts ! j \<noteq> None" if "j < i" for j
  proof -
    have j: "j < length (takeWhile (\<lambda>t. t \<noteq> None) ts)" using that assms(2) by simp
    then show ?thesis using takeWhile_nth[OF j] set_takeWhileD[OF nth_mem[OF j]] by simp
  qed
  have sp: "[0..<length ts] = [0..<i] @ i # [Suc i..<length ts]" 
    using l upt_add_eq_append[of 0 i "length ts - i"] by (simp add: upt_conv_Cons)
  have z: "filter (\<lambda>j. ts ! j = None) [0..<i] = []" "filter (\<lambda>j. ts[i := Some x] ! j = None) [0..<i] = []"
    using b by (auto simp: filter_empty_conv)
  have "filter (\<lambda>j. ts[i := Some x] ! j = None) [Suc i..<length ts] = filter (\<lambda>j. ts ! j = None) [Suc i..<length ts]"
    by (intro filter_cong) auto
  then show ?thesis using l n z by (simp add: free_indices_def sp)
qed

lemma pool_steps:
  assumes "length q + length (requests cs) \<le> 64"
  shows "fold pool_step cs (ts, q) =
    (map (\<lambda>i. if i \<in> set (take (length (requests cs)) (free_indices ts)) then Some (0, []) else ts ! i) [0..<length ts],
     q @ pool_answers (free_indices ts) (requests cs))"
  using assms
proof (induction cs arbitrary: ts q)
  case Nil
  then show ?case by (simp add: requests_def map_nth)
next
  case (Cons c cs)
  consider (other) "cmd_type c \<noteq> kRequestSlot" | (full) "cmd_type c = kRequestSlot" "None \<notin> set ts"
    | (free) "cmd_type c = kRequestSlot" "None \<in> set ts" by blast
  then show ?case
  proof cases
    case other
    then show ?thesis using Cons by (simp add: requests_def pool_step_def)
  next
    case full
    then have f: "free_indices ts = []" using free_indices_Nil by blast
    have "pool_step c (ts, q) = (ts, q @ [(kSlotUnavailable, [], cmd_id c)])"
      using full Cons.prems by (simp add: pool_step_def enq_reply_def requests_def)
    then show ?thesis using Cons.IH[of "q @ [(kSlotUnavailable, [], cmd_id c)]" ts] Cons.prems full(1) f
      by (simp add: requests_def)
  next
    case free
    define i where "i = length (takeWhile (\<lambda>t. t \<noteq> None) ts)"
    let ?ts = "ts[i := Some (0, [])]" and ?a = "(kSlotAssigned, to_le32 (of_nat i), cmd_id c)"
    have f: "free_indices ts = i # free_indices ?ts" by (rule free_indices_first[OF free(2) i_def])
    have st: "pool_step c (ts, q) = (?ts, q @ [?a])"
      using free Cons.prems by (simp add: pool_step_def enq_reply_def requests_def Let_def i_def[symmetric] del: not_None_eq)
    show ?thesis using Cons.IH[of "q @ [?a]" ?ts] Cons.prems free(1) unfolding f
      by (auto simp: st requests_def nth_list_update)
  qed
qed

text \<open>A request that a subscriber of the control channel puts into its ring.\<close>

lemma request_queued:
  assumes "pool_ok ok bound alloc b0 (m, k, hp)" and "length (control_queue b0 (m, k, hp)) < 64"
  shows "\<exists>hp'. pool_ok ok bound alloc b0 (m, k, hp') \<and> pool_view b0 (m, k, hp') = pool_view b0 (m, k, hp) \<and>
    control_queue b0 (m, k, hp') = control_queue b0 (m, k, hp) @ [mk_command kRequestSlot [] i 0 5]"
proof -
  have at: "pub_at b0 (mv_control m) hp" "p_cfg (mv_control m) = control_cfg" using assms(1) by (simp_all add: pool_ok_def)
  have "length (ring_queue control_cfg Upstream (hp b0)) < unat (cfg_command_slots control_cfg)"
    using assms(2) by (simp add: control_queue_def)
  from push_seg[where hp = hp, OF pub_atD(3)[OF at(1), unfolded at(2)] _ _ this, of None 0 kRequestSlot i 0 5] obtain sm where
    e: "cmd_effect control_cfg Upstream (ring_queue control_cfg Upstream (hp b0) @ [mk_command kRequestSlot [] i 0 5]) (hp b0) sm"
    by (auto simp: send_data_def)
  then have "pub_at b0 (mv_control m) (hp(b0 := sm))" by (intro pub_at_cmd[OF at(1)]) (simp add: at(2))
  from pool_control_write[OF assms(1) this at(2)] have "pool_ok ok bound alloc b0 (m, k, hp(b0 := sm))" by simp
  moreover have "view_states (mv_slots m) (hp(b0 := sm)) = view_states (mv_slots m) hp"
    by (rule view_states_frame[OF assms(1)]) simp
  ultimately show ?thesis using e
    by (intro exI[of _ "hp(b0 := sm)"]) (auto simp: control_queue_def pool_view_def replies_def cmd_effect_def)
qed

section \<open>Properties\<close>

text \<open>
  C25.  Slot requests.  On every name space that meets its contract, with the names of the free slots free, the request loop
  ends, empties the queue and does to the pool what an allocator of indices does for the queued requests in order: each takes
  the lowest free index, when there is one, and a reply is sent under its id; other commands are ignored.  As long as the reply
  ring has room for one reply per request, all of them get through in order: the n-th request is assigned the n-th of the
  indices that were free, and the requests beyond them are refused.  With no room the reply is lost, as the code ignores the
  result of \<open>send\<close>, and an index assigned by it is taken nevertheless.  Afterwards
  the pool is in order: every index it assigned has a well-formed segment of its own under its name.
\<close>

theorem requests_answered:
  assumes "segment_store ok bound alloc pf ops" and "pool_ok ok bound alloc b0 st" and "length (control_queue b0 st) < fuel"
  shows "\<exists>st'. drain fuel control_recv (control_handle pf ops now env) st = Some st' \<and> pool_ok ok bound alloc b0 st' \<and>
    control_queue b0 st' = [] \<and> pool_view b0 st' = fold pool_step (control_queue b0 st) (pool_view b0 st) \<and>
    (length (snd (pool_view b0 st)) + length (requests (control_queue b0 st)) \<le> 64 \<longrightarrow>
      pool_view b0 st' = (map (\<lambda>i. if i \<in> set (take (length (requests (control_queue b0 st))) (free_indices (fst (pool_view b0 st))))
          then Some (0, []) else fst (pool_view b0 st) ! i) [0..<length (fst (pool_view b0 st))],
        snd (pool_view b0 st) @ pool_answers (free_indices (fst (pool_view b0 st))) (requests (control_queue b0 st))))"
proof -
  from segment_store.request_loop[OF assms, of now env] obtain st' where
    r: "drain fuel control_recv (control_handle pf ops now env) st = Some st'" "pool_ok ok bound alloc b0 st'" "control_queue b0 st' = []"
      "pool_view b0 st' = fold pool_step (control_queue b0 st) (pool_view b0 st)" by blast
  moreover note pool_steps[of "snd (pool_view b0 st)" "control_queue b0 st" "fst (pool_view b0 st)"]
  ultimately show ?thesis by auto
qed

text \<open>A pool of one slot and two requests: the first is assigned the slot, the second is refused.\<close>

theorem requests_answered_witness:
  "\<exists>m k hp b0 st'. pool_ok posix_ok posix_bound posix_alloc b0 (m, k, hp) \<and>
    control_queue b0 (m, k, hp) = [mk_command kRequestSlot [] 1 0 5, mk_command kRequestSlot [] 2 0 5] \<and>
    drain 3 control_recv (control_handle Posix posix_ops 3 (\<lambda>_. (\<lambda>_. 6, 9, \<lambda>_. 7))) (m, k, hp) = Some st' \<and>
    pool_view b0 st' = ([Some (0, [])], [(kSlotAssigned, to_le32 0, 1), (kSlotUnavailable, [], 2)])"
proof -
  from pool_started[OF posix.segment_store_axioms posix_empty_ok, of 1 1 0 "\<lambda>_. 5" 9 "\<lambda>_. smem_zero"] obtain m k hp b0 where
    p: "pool_ok posix_ok posix_bound posix_alloc b0 (m, k, hp)" "mv_slots m = replicate 1 Slot_new"
      "\<forall>d. ring_queue control_cfg d (hp b0) = []" by (auto simp: posix_empty_bound)
  have q0: "control_queue b0 (m, k, hp) = []" "pool_view b0 (m, k, hp) = ([None], [])"
    using p(2,3) by (simp_all add: control_queue_def pool_view_def view_states_def view_state_def replies_def Slot_new_def)
  from request_queued[OF p(1), of 1] q0(1) obtain hp1 where
    q1: "pool_ok posix_ok posix_bound posix_alloc b0 (m, k, hp1)" "control_queue b0 (m, k, hp1) = [mk_command kRequestSlot [] 1 0 5]"
      "pool_view b0 (m, k, hp1) = ([None], [])" by (auto simp: q0(2))
  from request_queued[OF q1(1), of 2] q1(2) obtain hp2 where
    q2: "pool_ok posix_ok posix_bound posix_alloc b0 (m, k, hp2)"
      "control_queue b0 (m, k, hp2) = [mk_command kRequestSlot [] 1 0 5, mk_command kRequestSlot [] 2 0 5]"
      "pool_view b0 (m, k, hp2) = ([None], [])" by (auto simp: q1(3))
  have rq: "requests [mk_command kRequestSlot [] 1 0 5, mk_command kRequestSlot [] 2 0 5] =
      [mk_command kRequestSlot [] 1 0 5, mk_command kRequestSlot [] 2 0 5]" by (simp add: requests_def mk_command_def)
  have "pool_answers (free_indices [None]) [mk_command kRequestSlot [] 1 0 5, mk_command kRequestSlot [] 2 0 5] =
      [(kSlotAssigned, to_le32 0, 1), (kSlotUnavailable, [], 2)]" by (simp add: free_indices_def mk_command_def)
  moreover from requests_answered[OF posix.segment_store_axioms q2(1), of 3 3 "\<lambda>_. (\<lambda>_. 6, 9, \<lambda>_. 7)"] obtain st' where
    "drain 3 control_recv (control_handle Posix posix_ops 3 (\<lambda>_. (\<lambda>_. 6, 9, \<lambda>_. 7))) (m, k, hp2) = Some st'"
    "pool_view b0 st' = ([Some (0, [])], pool_answers (free_indices [None :: (u64 \<times> LLShmCommand list) option])
      [mk_command kRequestSlot [] 1 0 5, mk_command kRequestSlot [] 2 0 5])"
    unfolding q2(2,3) fst_conv snd_conv rq by (auto simp: free_indices_def simp del: fold.simps)
  ultimately show ?thesis using q2(1,2) by (intro exI[of _ m] exI[of _ k] exI[of _ hp2] exI[of _ b0] exI[of _ st']) simp
qed

text \<open>
  C26.  Views are isolated.  A pass over the pool ends without an undefined store, and what becomes of a slot depends on that slot and its own
  segment alone, as they were before the pass: free slots stay as they are, the others are freed or served by their own
  commands only, and are in order afterwards.  No memory outside the views' segments changes.
\<close>

theorem views_isolated:
  assumes "views_ok ss hp" and "64 < fuel"
  shows "\<exists>ss' k' hp'. serve_slots fuel pf ops now clks rnds 0 ss k hp = Some (ss', k', hp') \<and> length ss' = length ss \<and>
    (\<forall>x. (\<forall>i<length ss. view_object (ss ! i) \<noteq> Some x) \<longrightarrow> hp' x = hp x) \<and>
    (\<forall>i<length ss. case view_object (ss ! i) of
       None \<Rightarrow> ss' ! i = ss ! i
     | Some b \<Rightarrow> slot_after (view_config i) now (clks i) (rnds i) (ss ! i) (hp b) = Some ((ss' ! i)\<lparr>sl_pub := None\<rparr>) \<and>
         (if slot_gone now (clks i) (ss ! i) (m_hdr (hp b)) then ss' ! i = Slot_new else slot_ok (view_config i) b (ss' ! i) hp'))"
proof -
  have "\<exists>ss' k' hp'. serve_slots fuel pf ops now clks rnds 0 ss k hp = Some (ss', k', hp') \<and> length ss' = length ss \<and>
      (\<forall>x. (\<forall>i<length ss. view_object (ss ! i) \<noteq> Some x) \<longrightarrow> hp' x = hp x) \<and>
      (\<forall>i<length ss. pass_result now clks rnds (0 + i) (ss ! i) hp (ss' ! i) hp')"
    using views_okD(1)[OF assms(1)] views_okD(2)[OF assms(1)] by (intro serve_slots_pass[OF _ _ assms(2)]) (simp_all only: add_0)
  then show ?thesis unfolding pass_result_def add_0 .
qed

theorem views_isolated_witness:
  "\<exists>s k hp s' k' hp'. allocate_slot Posix posix_ops Slot_new 0 view_cfg 0 (\<lambda>_. 5) 9 posix_empty (\<lambda>_. smem_zero) = ((True, s), k, hp) \<and>
    serve_slots 65 Posix posix_ops 1000 (\<lambda>_ _. 6) (\<lambda>_ _. 3) 0 [s, Slot_new] k hp = Some ([s', Slot_new], k', hp')"
proof -
  obtain s p b k hp where a: "allocate_slot Posix posix_ops Slot_new 0 view_cfg 0 (\<lambda>_. 5) 9 posix_empty (\<lambda>_. smem_zero) = ((True, s), k, hp)"
    and d: "slot_ok (view_config 0) b s hp" by (rule demo_view) blast
  have n: "view_object Slot_new = None" "sl_pub Slot_new = None" by (simp_all add: view_object_def Slot_new_def)
  have "views_ok [s, Slot_new] hp" using d view_object_slot[OF d] n by (auto simp: views_ok_def less_Suc_eq)
  from views_isolated[OF this, of 65 Posix posix_ops 1000 "\<lambda>_ _. 6" "\<lambda>_ _. 3" k] obtain ss' k' hp' where
    r: "serve_slots 65 Posix posix_ops 1000 (\<lambda>_ _. 6) (\<lambda>_ _. 3) 0 [s, Slot_new] k hp = Some (ss', k', hp')" "length ss' = 2"
      "ss' ! 1 = Slot_new" by (auto simp: n)
  then have "ss' = [ss' ! 0, Slot_new]" by (auto simp: numeral_eq_Suc length_Suc_conv)
  with a r(1) show ?thesis by metis
qed

end
