(* ===== verification/Multiview_Main.thy ===== *)
theory Multiview_Main
  imports Multiview_Producer Runtime
begin

text \<open>
  \<open>main\<close> of \<open>examples/multiview_producer.cpp\<close>: the command line, turn after turn of the loop with other processes running between
  them, and the exit, which destroys the publishers of the control channel and of every slot.
\<close>

section \<open>The program\<close>

datatype producer_event =
    Mp_Failed string string
  | Mp_Ready int u64
  | Mp_Stopped

definition producer_args :: "string list \<Rightarrow> int option" where
  "producer_args args = (case (if length args > 0 then atoi (args ! 0) else Some kSlotCount) of
     None \<Rightarrow> None | Some n \<Rightarrow> Some (if n \<le> 0 then 1 else n))"

text \<open>What a turn meets: the other processes before it, its readings, and the values of \<open>std::rand\<close>.\<close>

record 'k producer_tick =
  mt_world :: "'k \<times> heap \<Rightarrow> 'k \<times> heap"
  mt_now :: int
  mt_env :: "u64 \<Rightarrow> clock \<times> u64 \<times> clock"
  mt_clks :: "nat \<Rightarrow> clock"
  mt_rnds :: "nat \<Rightarrow> nat \<Rightarrow> nat"
  mt_pclks :: "nat \<Rightarrow> clock"

fun producer_loop :: "nat \<Rightarrow> platform \<Rightarrow> 'k bip_ops \<Rightarrow> 'k producer_tick list \<Rightarrow> producer \<times> 'k \<times> heap \<Rightarrow> (producer \<times> 'k \<times> heap) option" where
  "producer_loop fuel pf ops [] st = Some st"
| "producer_loop fuel pf ops (t # ts) (m, k, hp) =
     (case producer_turn fuel pf ops (mt_now t) (mt_env t) (mt_clks t) (mt_rnds t) (mt_pclks t) (m, mt_world t (k, hp)) of
        None \<Rightarrow> None
      | Some st \<Rightarrow> producer_loop fuel pf ops ts st)"

text \<open>The destructors at the end of \<open>main\<close>: the control channel's publisher, then the vector of slots.\<close>

fun release_slots :: "platform \<Rightarrow> 'k bip_ops \<Rightarrow> Slot list \<Rightarrow> 'k \<Rightarrow> heap \<Rightarrow> 'k \<times> heap" where
  "release_slots pf ops [] k hp = (k, hp)"
| "release_slots pf ops (s # ss) k hp = (case release_pub pf ops (sl_pub s) k hp of (k1, hp1) \<Rightarrow> release_slots pf ops ss k1 hp1)"

definition producer_exit :: "platform \<Rightarrow> 'k bip_ops \<Rightarrow> producer \<times> 'k \<times> heap \<Rightarrow> 'k \<times> heap" where
  "producer_exit pf ops st = (case st of (m, k, hp) \<Rightarrow>
     case publisher_destroy pf ops (mv_control m) k hp of (k1, hp1) \<Rightarrow> release_slots pf ops (mv_slots m) k1 hp1)"

definition producer_main :: "platform \<Rightarrow> 'k bip_ops \<Rightarrow> nat \<Rightarrow> string list \<Rightarrow> clock \<Rightarrow> u64 \<Rightarrow> int \<Rightarrow> 'k producer_tick list \<Rightarrow> 'k \<Rightarrow> heap
    \<Rightarrow> (producer_event list \<times> int \<times> 'k \<times> heap) option" where
  "producer_main pf ops fuel args clk wall start ts k hp =
     (case producer_args args of
        None \<Rightarrow> None
      | Some n \<Rightarrow>
          (case producer_start pf ops n start clk wall k hp of
             (Inl msg, k1, hp1) \<Rightarrow> Some ([Mp_Failed kControlChannelName msg], 1, k1, hp1)
           | (Inr m, k1, hp1) \<Rightarrow>
               (case producer_loop fuel pf ops ts (m, k1, hp1) of
                  None \<Rightarrow> None
                | Some st \<Rightarrow>
                    (case producer_exit pf ops st of
                       (k2, hp2) \<Rightarrow> Some ([Mp_Ready n (segment_bytes view_cfg * of_int n div (1024 * 1024)), Mp_Stopped], 0, k2, hp2)))))"

section \<open>Slots of a pool\<close>

text \<open>A slot is replaced by one on the same segment, or by a free one whose name is gone.\<close>

lemma pool_slot_update:
  assumes "pool_ok ok bound alloc b0 (m, k, hp)" and "i < length (mv_slots m)" and "view_object (mv_slots m ! i) = Some b"
    and "slot_ok (view_config i) b s hp1 \<and> bound k1 = bound k \<or> sl_pub s = None \<and> bound k1 = (bound k)(channel_name i := None)"
    and "ok k1" and "alloc k1 = alloc k" and "\<And>x. x \<noteq> b \<Longrightarrow> hp1 x = hp x"
  shows "pool_ok ok bound alloc b0 (m\<lparr>mv_slots := (mv_slots m)[i := s]\<rparr>, k1, hp1)" and "hp1 b0 = hp b0"
proof -
  let ?ss = "mv_slots m"
  note P = assms(1)[unfolded pool_ok_def prod.case]
  have vb: "view_bound bound alloc b0 k j (?ss ! j)" if "j < length ?ss" for j using P that by blast
  have b: "b \<noteq> b0" using vb[OF assms(2)] assms(3) by (simp add: view_bound_def)
  show h0: "hp1 b0 = hp b0" using assms(7) b by metis
  have vss: "views_ok ?ss hp" using P by blast
  have apart: "view_object (?ss ! j) \<noteq> Some b" if "j < length ?ss" "j \<noteq> i" for j
    using views_okD(2)[OF vss assms(2) that(1) _ assms(3)] that(2) by blast
  have nw: "sl_pub Slot_new = None" "view_object Slot_new = None" by (simp_all add: Slot_new_def view_object_def)
  have "views_ok (?ss[i := Slot_new]) hp" by (rule views_update[OF vss]) (simp_all add: nw)
  then have "views_ok (?ss[i := Slot_new]) hp1"
  proof (rule views_frame)
    fix j x assume "j < length (?ss[i := Slot_new])" "view_object (?ss[i := Slot_new] ! j) = Some x"
    then have j: "j < length ?ss" "j \<noteq> i" "view_object (?ss ! j) = Some x" using nw by (cases "j = i"; simp)+
    then have "x \<noteq> b" using apart by auto
    then show "hp1 x = hp x" by (rule assms(7))
  qed
  note nv = this
  have V: "views_ok (?ss[i := s]) hp1"
  proof -
    have ob: "view_object (?ss[i := Slot_new] ! j) \<noteq> Some b'" if "j < length ?ss" "j \<noteq> i" "view_object s = Some b'" for j b'
      using apart[OF that(1,2)] that assms(4) view_object_slot[of "view_config i" b s hp1] by (auto simp: view_object_def)
    have "views_ok (?ss[i := Slot_new, i := s]) hp1" by (rule views_update[OF nv]) (use assms(4) ob in auto)
    then show ?thesis by simp
  qed
  have B: "view_bound bound alloc b0 k1 j (?ss[i := s] ! j)" if j: "j < length ?ss" for j
  proof (cases "j = i")
    case True
    from assms(4) show ?thesis
    proof
      assume "slot_ok (view_config i) b s hp1 \<and> bound k1 = bound k"
      then show ?thesis using True j vb[OF j] assms(3,6) view_object_slot[of "view_config i" b s hp1] by (simp add: view_bound_def)
    next
      assume "sl_pub s = None \<and> bound k1 = (bound k)(channel_name i := None)"
      then show ?thesis using True j by (simp add: view_bound_def view_object_def)
    qed
  next
    case False
    then have "bound k1 (channel_name j) = bound k (channel_name j)" using assms(4) channel_name_inj by auto
    from view_bound_mono[where bound = bound and alloc = alloc, OF vb[OF j] this] False assms(6) show ?thesis by simp
  qed
  have "bound k1 kControlChannelName = bound k kControlChannelName" using assms(4) control_name_apart[of i] by auto
  moreover have "pub_at b0 (mv_control m) hp1" using P pub_at_frame[where hp' = hp1 and hp = hp, OF _ h0] by blast
  ultimately show "pool_ok ok bound alloc b0 (m\<lparr>mv_slots := ?ss[i := s]\<rparr>, k1, hp1)"
    unfolding pool_ok_def using P V B assms(5,6) by simp
qed

text \<open>A pass over one slot of the pool.\<close>

lemma pool_service:
  assumes "unlinking_store ok bound alloc pf ops" and "pool_ok ok bound alloc b0 (m, k, hp)" and "i < length (mv_slots m)" and "64 < fuel"
  shows "\<exists>s k1 hp1. slot_service fuel pf ops now clk rnd (mv_slots m ! i) k hp = Some (s, k1, hp1) \<and>
    pool_ok ok bound alloc b0 (m\<lparr>mv_slots := (mv_slots m)[i := s]\<rparr>, k1, hp1) \<and> hp1 b0 = hp b0"
proof (cases "sl_pub (mv_slots m ! i) = None")
  case True
  then show ?thesis using assms(2) by (simp add: slot_service_def)
next
  case False
  let ?s = "mv_slots m ! i"
  note P = assms(2)[unfolded pool_ok_def prod.case]
  from P False views_okD(1)[of "mv_slots m" hp i] assms(3) obtain b where b: "view_object ?s = Some b" "slot_ok (view_config i) b ?s hp" by blast
  from b(2) obtain p where p: "sl_pub ?s = Some p" "pub_at b p hp" "p_cfg p = view_config i" by (auto simp: slot_ok_def)
  have q: "length (ring_queue (view_config i) Upstream (hp b)) < fuel"
    using queue_bounded[OF pub_atD(3)[OF p(2)], of Upstream] p(3) assms(4) by simp
  show ?thesis
  proof (cases "slot_gone now clk ?s (m_hdr (hp b))")
    case True
    let ?k = "LLSegment_unlink pf ops (cfg_name (view_config i)) k" and ?hp = "hp(b := (hp b)\<lparr>m_hdr := (m_hdr (hp b))\<lparr>h_shutdown := 1\<rparr>\<rparr>)"
    have okk: "ok k" using P by blast
    have u: "ok ?k" "bound ?k = (bound k)(channel_name i := None)" "alloc ?k = alloc k"
      using unlinking_store.unlink_frees[OF assms(1) okk, of "cfg_name (view_config i)"] by simp_all
    have d: "ok (LLSegment_destroy ops (p_seg p) ?k)" "bound (LLSegment_destroy ops (p_seg p) ?k) = (bound k)(channel_name i := None)"
      "alloc (LLSegment_destroy ops (p_seg p) ?k) = alloc k"
      using u unlinking_store.close_keeps[OF assms(1) u(1)] by (simp_all add: LLSegment_destroy_def split: option.splits)
    have "sl_pub Slot_new = None" by (simp add: Slot_new_def)
    then have "slot_ok (view_config i) b Slot_new ?hp \<and> bound (LLSegment_destroy ops (p_seg p) ?k) = bound k \<or>
        sl_pub Slot_new = None \<and> bound (LLSegment_destroy ops (p_seg p) ?k) = (bound k)(channel_name i := None)" using d(2) by blast
    note up = pool_slot_update[OF assms(2,3) b(1) this d(1,3)]
    have fr: "?hp x = hp x" if "x \<noteq> b" for x using that by simp
    from up[OF fr] show ?thesis unfolding slot_freed[OF b(2) p(1) True] by blast
  next
    case False
    then have g: "\<not> (has_subscriber p hp \<and> command_owner_stale clk p hp)" "has_subscriber p hp \<or> now - sl_last_active ?s < kIdleGracePeriod"
      using slot_gone_iff(1)[OF b(2) p(1), of now clk] by auto
    from slot_kept[OF b(2) p(1) q g, of pf ops rnd k] obtain s hp1 where
      v: "slot_service fuel pf ops now clk rnd ?s k hp = Some (s, k, hp1)" "slot_ok (view_config i) b s hp1" "\<And>x. x \<noteq> b \<Longrightarrow> hp1 x = hp x" by blast
    have "ok k" using P by blast
    from pool_slot_update[OF assms(2,3) b(1) _ this refl v(3)] v(1,2) show ?thesis by blast
  qed
qed

lemma pool_publish:
  assumes "pool_ok ok bound alloc b0 (m, k, hp)" and "i < length (mv_slots m)" and "slot_publish clk (mv_slots m ! i) hp = (s, hp1)"
  shows "pool_ok ok bound alloc b0 (m\<lparr>mv_slots := (mv_slots m)[i := s]\<rparr>, k, hp1) \<and> hp1 b0 = hp b0"
proof (cases "sl_pub (mv_slots m ! i)")
  case None
  then have "s = mv_slots m ! i" "hp1 = hp" using assms(3) by (simp_all add: slot_publish_def)
  then show ?thesis using assms(1) by simp
next
  case (Some p)
  let ?s = "mv_slots m ! i"
  note P = assms(1)[unfolded pool_ok_def prod.case]
  from P Some views_okD(1)[of "mv_slots m" hp i] assms(2) obtain b where b: "view_object ?s = Some b" "slot_ok (view_config i) b ?s hp" by blast
  note ff = slot_frame_facts[OF b(2) Some]
  from publish_eq[OF ff(1-6), of clk] publish_facts[OF ff(1-6), of clk] ff(8) obtain p1 where
    pub: "publish (Some (sl_canvas ?s)) (sl_width ?s) (sl_height ?s) 0 clk p hp = (True, p1, hp1)" "s = ?s\<lparr>sl_pub := Some p1\<rparr>"
      "pub_at b p1 hp1" "p_cfg p1 = view_config i" "p_pending p1 = None" "p_min_interval_ns p1 = p_min_interval_ns p" "\<And>x. x \<noteq> b \<Longrightarrow> hp1 x = hp x"
    using assms(3) Some by (auto simp: slot_publish_def)
  have "slot_ok (view_config i) b s hp1" using pub b(2) Some by (auto simp: slot_ok_def canvas_ok_def)
  moreover have "ok k" using P by blast
  ultimately show ?thesis using pool_slot_update[OF assms(1,2) b(1) _ _ refl pub(7)] by blast
qed

section \<open>Turns\<close>

lemma pool_serve:
  assumes "unlinking_store ok bound alloc pf ops" and "64 < fuel"
  shows "pool_ok ok bound alloc b0 (m\<lparr>mv_slots := pre @ ss\<rparr>, k, hp) \<Longrightarrow>
    \<exists>ss' k1 hp1. serve_slots fuel pf ops now clks rnds (length pre) ss k hp = Some (ss', k1, hp1) \<and> length ss' = length ss \<and>
      pool_ok ok bound alloc b0 (m\<lparr>mv_slots := pre @ ss'\<rparr>, k1, hp1) \<and> hp1 b0 = hp b0"
proof (induction ss arbitrary: pre k hp)
  case (Cons s ss)
  let ?m = "m\<lparr>mv_slots := pre @ s # ss\<rparr>"
  have i: "length pre < length (mv_slots ?m)" and at: "mv_slots ?m ! length pre = s" by simp_all
  from pool_service[OF assms(1) Cons.prems i assms(2), of now "clks (length pre)" "rnds (length pre)"] obtain s1 k1 hp1 where
    v: "slot_service fuel pf ops now (clks (length pre)) (rnds (length pre)) s k hp = Some (s1, k1, hp1)"
      "pool_ok ok bound alloc b0 (m\<lparr>mv_slots := (pre @ [s1]) @ ss\<rparr>, k1, hp1)" "hp1 b0 = hp b0" unfolding at by auto
  from Cons.IH[OF v(2)] v(1,3) show ?case by auto
qed simp

lemma pool_publishes:
  "pool_ok ok bound alloc b0 (m\<lparr>mv_slots := pre @ ss\<rparr>, k, hp) \<Longrightarrow> publish_slots clks (length pre) ss hp = (ss', hp1) \<Longrightarrow>
   length ss' = length ss \<and> pool_ok ok bound alloc b0 (m\<lparr>mv_slots := pre @ ss'\<rparr>, k, hp1) \<and> hp1 b0 = hp b0"
proof (induction ss arbitrary: pre hp ss')
  case (Cons s ss)
  let ?m = "m\<lparr>mv_slots := pre @ s # ss\<rparr>"
  obtain s1 hp0 where p: "slot_publish (clks (length pre)) s hp = (s1, hp0)" by force
  obtain ss1 where r: "publish_slots clks (length (pre @ [s1])) ss hp0 = (ss1, hp1)" "ss' = s1 # ss1"
    using Cons.prems(2) p by (auto split: prod.splits)
  have "pool_ok ok bound alloc b0 (m\<lparr>mv_slots := (pre @ [s1]) @ ss\<rparr>, k, hp0) \<and> hp0 b0 = hp b0"
    using pool_publish[OF Cons.prems(1), of "length pre" "clks (length pre)" s1 hp0] p by simp
  with Cons.IH[OF _ r(1)] r(2) show ?case by simp
qed simp

lemma pool_fields [simp]:
  "pool_ok ok bound alloc b0 (m\<lparr>mv_next_publish := t\<rparr>, k, hp) = pool_ok ok bound alloc b0 (m, k, hp)"
  "pool_ok ok bound alloc b0 (m\<lparr>mv_next_publish := t, mv_slots := ss\<rparr>, k, hp) = pool_ok ok bound alloc b0 (m\<lparr>mv_slots := ss\<rparr>, k, hp)"
  "m\<lparr>mv_slots := mv_slots m\<rparr> = m"
  by (simp_all add: pool_ok_def)

text \<open>A whole turn ends, makes no undefined store, and keeps the pool in order, on every name space where names can be unlinked.\<close>

lemma producer_turn_kept:
  assumes "unlinking_store ok bound alloc pf ops" and "64 < fuel" and "pool_ok ok bound alloc b0 (m, k, hp)"
  shows "\<exists>m' k' hp'. producer_turn fuel pf ops now env clks rnds pclks (m, k, hp) = Some (m', k', hp') \<and>
    pool_ok ok bound alloc b0 (m', k', hp') \<and> length (mv_slots m') = length (mv_slots m) \<and> m_hdr (hp' b0) = m_hdr (hp b0)"
proof -
  have ss: "segment_store ok bound alloc pf ops" using assms(1) unfolding unlinking_store_def by blast
  have q: "length (control_queue b0 (m, k, hp)) < fuel"
    using queue_bounded[of control_cfg "hp b0" Upstream] pub_atD(3)[of b0 "mv_control m" hp] assms(2,3)
    by (auto simp: control_queue_def pool_ok_def)
  from segment_store.request_loop[OF ss assms(3) q, of now env] obtain st1 where
    d: "drain fuel control_recv (control_handle pf ops now env) (m, k, hp) = Some st1" "pool_ok ok bound alloc b0 st1"
    and n1: "pool_view b0 st1 = fold pool_step (control_queue b0 (m, k, hp)) (pool_view b0 (m, k, hp))"
    and h1: "m_hdr (snd (snd st1) b0) = m_hdr (hp b0)" by auto
  obtain m1 k1 hp1 where st1: "st1 = (m1, k1, hp1)" by (cases st1)
  have "length (fst (fold pool_step xs v)) = length (fst v)" for xs v
    by (induction xs arbitrary: v) (auto simp: pool_step_def Let_def split: prod.splits)
  from this[of "control_queue b0 (m, k, hp)" "pool_view b0 (m, k, hp)"] have len1: "length (mv_slots m1) = length (mv_slots m)"
    unfolding n1[symmetric] by (simp add: st1 pool_view_def view_states_def)
  have "pool_ok ok bound alloc b0 (m1\<lparr>mv_slots := [] @ mv_slots m1\<rparr>, k1, hp1)" using d(2) st1 by simp
  from pool_serve[OF assms(1,2) this, of now clks rnds] obtain ss k2 hp2 where
    s: "serve_slots fuel pf ops now clks rnds 0 (mv_slots m1) k1 hp1 = Some (ss, k2, hp2)" "length ss = length (mv_slots m1)"
      "pool_ok ok bound alloc b0 (m1\<lparr>mv_slots := [] @ ss\<rparr>, k2, hp2)" "hp2 b0 = hp1 b0" by auto
  obtain ss' hp3 where p: "publish_slots pclks 0 ss hp2 = (ss', hp3)" by force
  from pool_publishes[OF s(3), unfolded list.size(3), OF p] have "length ss' = length ss" "pool_ok ok bound alloc b0 (m1\<lparr>mv_slots := ss'\<rparr>, k2, hp3)" "hp3 b0 = hp2 b0"
    by simp_all
  then show ?thesis using d(1) s p len1 h1 by (simp add: producer_turn_def st1 Let_def)
qed

definition keeps_pool :: "('k \<Rightarrow> bool) \<Rightarrow> ('k \<Rightarrow> string \<Rightarrow> (oid \<times> u64) option) \<Rightarrow> ('k \<Rightarrow> oid set) \<Rightarrow> ('k \<times> heap \<Rightarrow> 'k \<times> heap) \<Rightarrow> bool" where
  "keeps_pool ok bound alloc w \<longleftrightarrow> (\<forall>b0 m k hp. pool_ok ok bound alloc b0 (m, k, hp) \<longrightarrow> pool_ok ok bound alloc b0 (m, w (k, hp)))"

text \<open>Only a segment's own publisher stores its heartbeat.\<close>

definition keeps_beats :: "('k \<times> heap \<Rightarrow> 'k \<times> heap) \<Rightarrow> bool" where
  "keeps_beats w \<longleftrightarrow> (\<forall>k hp b. h_last_heartbeat_ns (m_hdr (snd (w (k, hp)) b)) = h_last_heartbeat_ns (m_hdr (hp b)))"

lemma producer_loop_kept:
  assumes "unlinking_store ok bound alloc pf ops" and "64 < fuel"
  shows "pool_ok ok bound alloc b0 (m, k, hp) \<Longrightarrow> \<forall>t\<in>set ts. keeps_pool ok bound alloc (mt_world t) \<Longrightarrow>
    \<exists>m' k' hp'. producer_loop fuel pf ops ts (m, k, hp) = Some (m', k', hp') \<and> pool_ok ok bound alloc b0 (m', k', hp') \<and>
      length (mv_slots m') = length (mv_slots m) \<and>
      ((\<forall>t\<in>set ts. keeps_beats (mt_world t)) \<longrightarrow> h_last_heartbeat_ns (m_hdr (hp' b0)) = h_last_heartbeat_ns (m_hdr (hp b0)))"
proof (induction ts arbitrary: m k hp)
  case (Cons t ts)
  obtain k1 hp1 where w: "mt_world t (k, hp) = (k1, hp1)" by force
  have "pool_ok ok bound alloc b0 (m, k1, hp1)" using Cons.prems w unfolding keeps_pool_def by (metis list.set_intros(1))
  from producer_turn_kept[OF assms this, of "mt_now t" "mt_env t" "mt_clks t" "mt_rnds t" "mt_pclks t"] obtain m2 k2 hp2 where
    t: "producer_turn fuel pf ops (mt_now t) (mt_env t) (mt_clks t) (mt_rnds t) (mt_pclks t) (m, k1, hp1) = Some (m2, k2, hp2)"
      "pool_ok ok bound alloc b0 (m2, k2, hp2)" "length (mv_slots m2) = length (mv_slots m)" "m_hdr (hp2 b0) = m_hdr (hp1 b0)" by blast
  have "h_last_heartbeat_ns (m_hdr (hp1 b0)) = h_last_heartbeat_ns (m_hdr (hp b0))" if "keeps_beats (mt_world t)"
    using that w unfolding keeps_beats_def by (metis snd_conv)
  with Cons.IH[OF t(2)] Cons.prems(2) t w show ?case by auto
qed simp

section \<open>Exit\<close>

text \<open>A publisher's destructor on such a name space.\<close>

lemma publisher_leaves:
  assumes "unlinking_store ok bound alloc pf ops" and "ok k" and "p_hdr p = Some b"
  shows "\<exists>k'. publisher_destroy pf ops p k hp = (k', hp(b := (hp b)\<lparr>m_hdr := (m_hdr (hp b))\<lparr>h_shutdown := 1\<rparr>\<rparr>)) \<and> ok k' \<and>
    bound k' = (bound k)(cfg_name (p_cfg p) := None)"
proof -
  note u = unlinking_store.unlink_frees[OF assms(1,2), of "cfg_name (p_cfg p)"]
  with unlinking_store.close_keeps[OF assms(1), of "LLSegment_unlink pf ops (cfg_name (p_cfg p)) k"] show ?thesis
    using assms(3) by (simp add: publisher_destroy_def LLSegment_destroy_def split: option.splits)
qed

text \<open>The slots \<open>n\<close>, \<open>n + 1\<close>, ... on the way out.\<close>

definition slot_named :: "('k \<Rightarrow> string \<Rightarrow> (oid \<times> u64) option) \<Rightarrow> 'k \<Rightarrow> nat \<Rightarrow> Slot \<Rightarrow> bool" where
  "slot_named bound k i s \<longleftrightarrow> (case sl_pub s of None \<Rightarrow> bound k (channel_name i) = None
     | Some p \<Rightarrow> p_hdr p \<noteq> None \<and> cfg_name (p_cfg p) = channel_name i)"

lemma release_slots_frees:
  assumes "unlinking_store ok bound alloc pf ops"
  shows "ok k \<Longrightarrow> \<forall>i<length ss. slot_named bound k (n + i) (ss ! i) \<Longrightarrow>
    \<exists>k' hp'. release_slots pf ops ss k hp = (k', hp') \<and> ok k' \<and> (\<forall>i<length ss. bound k' (channel_name (n + i)) = None) \<and>
      (\<forall>x. bound k x = None \<longrightarrow> bound k' x = None) \<and> (\<forall>b. h_shutdown (m_hdr (hp b)) = 1 \<longrightarrow> h_shutdown (m_hdr (hp' b)) = 1) \<and>
      (\<forall>i<length ss. \<forall>b. view_object (ss ! i) = Some b \<longrightarrow> h_shutdown (m_hdr (hp' b)) = 1)"
proof (induction ss arbitrary: n k hp)
  case (Cons s ss)
  have s0: "slot_named bound k n s" and rest: "\<forall>i<length ss. slot_named bound k (Suc n + i) (ss ! i)"
    using Cons.prems(2)[rule_format, of 0] Cons.prems(2)[rule_format, of "Suc _"] by auto
  have "\<exists>k1 hp1. release_pub pf ops (sl_pub s) k hp = (k1, hp1) \<and> ok k1 \<and> bound k1 (channel_name n) = None \<and>
      (\<forall>x. x \<noteq> channel_name n \<longrightarrow> bound k1 x = bound k x) \<and> (\<forall>b. h_shutdown (m_hdr (hp b)) = 1 \<longrightarrow> h_shutdown (m_hdr (hp1 b)) = 1) \<and>
      (\<forall>b. view_object s = Some b \<longrightarrow> h_shutdown (m_hdr (hp1 b)) = 1)"
  proof (cases "sl_pub s")
    case None
    then show ?thesis using s0 Cons.prems(1) by (simp add: release_pub_def slot_named_def view_object_def)
  next
    case (Some p)
    then obtain b where b: "p_hdr p = Some b" "cfg_name (p_cfg p) = channel_name n" using s0 by (auto simp: slot_named_def)
    from publisher_leaves[OF assms Cons.prems(1) b(1), of hp] b(2) Some show ?thesis
      by (auto simp: release_pub_def view_object_def b(1))
  qed
  then obtain k1 hp1 where r: "release_pub pf ops (sl_pub s) k hp = (k1, hp1)" "ok k1" "bound k1 (channel_name n) = None"
    "\<And>x. x \<noteq> channel_name n \<Longrightarrow> bound k1 x = bound k x" "\<And>b. h_shutdown (m_hdr (hp b)) = 1 \<Longrightarrow> h_shutdown (m_hdr (hp1 b)) = 1"
    "\<And>b. view_object s = Some b \<Longrightarrow> h_shutdown (m_hdr (hp1 b)) = 1" by blast
  have same: "bound k1 (channel_name (Suc n + i)) = bound k (channel_name (Suc n + i))" for i using r(4) channel_name_inj by auto
  have "slot_named bound k1 (Suc n + i) (ss ! i)" if "i < length ss" for i
    using rest[rule_format, OF that] unfolding slot_named_def same .
  with Cons.IH[OF r(2), of "Suc n" hp1] obtain k' hp' where
    l: "release_slots pf ops ss k1 hp1 = (k', hp')" "ok k'" "\<And>i. i < length ss \<Longrightarrow> bound k' (channel_name (Suc n + i)) = None"
      "\<And>x. bound k1 x = None \<Longrightarrow> bound k' x = None" "\<And>b. h_shutdown (m_hdr (hp1 b)) = 1 \<Longrightarrow> h_shutdown (m_hdr (hp' b)) = 1"
      "\<And>i b. i < length ss \<Longrightarrow> view_object (ss ! i) = Some b \<Longrightarrow> h_shutdown (m_hdr (hp' b)) = 1" by blast
  have "bound k' (channel_name (n + i)) = None" if "i < length (s # ss)" for i
    using l(3)[of "i - 1"] l(4)[OF r(3)] that by (cases i) auto
  moreover have "bound k' x = None" if "bound k x = None" for x using that l(4) r(3,4) by (cases "x = channel_name n") auto
  moreover have "h_shutdown (m_hdr (hp' b)) = 1" if "i < length (s # ss)" "view_object ((s # ss) ! i) = Some b" for i b
    using l(6)[of "i - 1" b] l(5)[OF r(6)] that by (cases i) auto
  ultimately show ?case using r(1,5) l(1,2,5) by (simp del: nth_Cons_0)
qed simp

lemma producer_exit_frees:
  assumes "unlinking_store ok bound alloc pf ops" and "pool_ok ok bound alloc b0 (m, k, hp)"
  shows "\<exists>k' hp'. producer_exit pf ops (m, k, hp) = (k', hp') \<and> ok k' \<and> bound k' kControlChannelName = None \<and>
    (\<forall>i<length (mv_slots m). bound k' (channel_name i) = None) \<and> h_shutdown (m_hdr (hp' b0)) = 1 \<and>
    (\<forall>i<length (mv_slots m). \<forall>b. view_object (mv_slots m ! i) = Some b \<longrightarrow> h_shutdown (m_hdr (hp' b)) = 1)"
proof -
  note P = assms(2)[unfolded pool_ok_def prod.case]
  have okk: "ok k" and at: "pub_at b0 (mv_control m) hp" "p_cfg (mv_control m) = control_cfg" using P by blast+
  from publisher_leaves[OF assms(1) okk pub_atD(4)[OF at(1)], of hp] at(2) obtain k1 where
    d: "publisher_destroy pf ops (mv_control m) k hp = (k1, hp(b0 := (hp b0)\<lparr>m_hdr := (m_hdr (hp b0))\<lparr>h_shutdown := 1\<rparr>\<rparr>))" (is "_ = (_, ?hp1)")
      "ok k1" "bound k1 = (bound k)(kControlChannelName := None)" by auto
  have nm: "slot_named bound k1 (0 + i) (mv_slots m ! i)" if i: "i < length (mv_slots m)" for i
  proof (cases "sl_pub (mv_slots m ! i)")
    case None
    then have "bound k (channel_name i) = None" using P i by (auto simp: view_bound_def view_object_def)
    then show ?thesis using None d(3) control_name_apart[of i] by (simp add: slot_named_def)
  next
    case (Some p)
    with P i obtain b where b: "slot_ok (view_config i) b (mv_slots m ! i) hp" using views_okD(1)[of "mv_slots m" hp i] by blast
    then have "pub_at b p hp" "p_cfg p = view_config i" using Some by (auto simp: slot_ok_def)
    then show ?thesis using Some pub_atD(4) by (fastforce simp: slot_named_def)
  qed
  from release_slots_frees[OF assms(1) d(2), of "mv_slots m" 0 ?hp1] nm obtain k' hp' where
    "release_slots pf ops (mv_slots m) k1 ?hp1 = (k', hp')" "ok k'" "\<forall>i<length (mv_slots m). bound k' (channel_name (0 + i)) = None"
    "\<forall>x. bound k1 x = None \<longrightarrow> bound k' x = None" "\<forall>b. h_shutdown (m_hdr (?hp1 b)) = 1 \<longrightarrow> h_shutdown (m_hdr (hp' b)) = 1"
    "\<forall>i<length (mv_slots m). \<forall>b. view_object (mv_slots m ! i) = Some b \<longrightarrow> h_shutdown (m_hdr (hp' b)) = 1" by blast
  then show ?thesis using d by (auto simp: producer_exit_def)
qed

section \<open>Properties\<close>

text \<open>
  C36.  The producer's whole run.  On every name space where names can be unlinked, with its names free, and next to any processes that leave its
  segments in order: the program comes up, every turn ends and makes no undefined store, the pool stays in order from
  turn to turn, and on exit no name is left behind, whatever slots were taken: the control channel's and every view's are free again, and the process
  ends with 0.
\<close>

theorem producer_runs:
  assumes "unlinking_store ok bound alloc pf ops" and "ok k" and "producer_args args = Some n" and "bound k kControlChannelName = None"
    and "\<forall>i<nat n. bound k (channel_name i) = None" and "\<forall>t\<in>set ts. keeps_pool ok bound alloc (mt_world t)" and "64 < fuel"
  shows "\<exists>m k1 hp1 m2 k2 hp2 b0 mib k' hp'. producer_start pf ops n start clk wall k hp = (Inr m, k1, hp1) \<and>
    producer_loop fuel pf ops ts (m, k1, hp1) = Some (m2, k2, hp2) \<and> pool_ok ok bound alloc b0 (m2, k2, hp2) \<and>
    producer_main pf ops fuel args clk wall start ts k hp = Some ([Mp_Ready n mib, Mp_Stopped], 0, k', hp') \<and>
    ok k' \<and> bound k' kControlChannelName = None \<and> (\<forall>i<nat n. bound k' (channel_name i) = None) \<and> h_shutdown (m_hdr (hp' b0)) = 1 \<and>
    (\<forall>s\<in>set (mv_slots m2). \<forall>b. view_object s = Some b \<longrightarrow> h_shutdown (m_hdr (hp' b)) = 1)"
proof -
  have ss: "segment_store ok bound alloc pf ops" using assms(1) unfolding unlinking_store_def by blast
  have n: "0 < n" "n < 2 ^ 31" using assms(3) by (auto simp: producer_args_def atoi_def Let_def kSlotCount_def split: option.splits if_splits)
  then have eq: "nat n = nat (if n \<le> 0 then 1 else n)" "nat n \<le> 2 ^ 31" by (simp_all add: nat_le_iff)
  from pool_started[OF ss assms(2,4) eq(1) _ eq(2), of start clk wall hp] assms(5) obtain m k1 hp1 b0 where
    s: "producer_start pf ops n start clk wall k hp = (Inr m, k1, hp1)" "pool_ok ok bound alloc b0 (m, k1, hp1)" "mv_slots m = replicate (nat n) Slot_new" by blast
  from producer_loop_kept[OF assms(1,7) s(2) assms(6)] obtain m2 k2 hp2 where
    l: "producer_loop fuel pf ops ts (m, k1, hp1) = Some (m2, k2, hp2)" "pool_ok ok bound alloc b0 (m2, k2, hp2)"
      "length (mv_slots m2) = length (mv_slots m)" by blast
  from producer_exit_frees[OF assms(1) l(2)] obtain k' hp' where
    e: "producer_exit pf ops (m2, k2, hp2) = (k', hp')" "ok k'" "bound k' kControlChannelName = None"
      "\<forall>i<length (mv_slots m2). bound k' (channel_name i) = None" "h_shutdown (m_hdr (hp' b0)) = 1"
      "\<forall>i<length (mv_slots m2). \<forall>b. view_object (mv_slots m2 ! i) = Some b \<longrightarrow> h_shutdown (m_hdr (hp' b)) = 1" by blast
  have len: "length (mv_slots m2) = nat n" using l(3) s(3) by simp
  have "producer_main pf ops fuel args clk wall start ts k hp =
      Some ([Mp_Ready n (segment_bytes view_cfg * of_int n div (1024 * 1024)), Mp_Stopped], 0, k', hp')"
    using assms(3) s(1) l(1) e(1) by (simp add: producer_main_def)
  moreover have "\<forall>s\<in>set (mv_slots m2). \<forall>b. view_object s = Some b \<longrightarrow> h_shutdown (m_hdr (hp' b)) = 1"
    using e(6) by (metis in_set_conv_nth)
  ultimately show ?thesis using s(1) l(1,2) e(2,3,5) e(4)[unfolded len] by blast
qed

theorem producer_runs_witness:
  "\<exists>k' hp' mib. producer_main Posix posix_ops 65 [''2''] (\<lambda>_. 5) 9 0
      (replicate 3 \<lparr>mt_world = (\<lambda>x. x), mt_now = 7, mt_env = (\<lambda>_. (\<lambda>_. 6, 9, \<lambda>_. 7)), mt_clks = (\<lambda>_ _. 6), mt_rnds = (\<lambda>_ _. 3), mt_pclks = (\<lambda>_ _. 6)\<rparr>)
      posix_empty (\<lambda>_. smem_zero) = Some ([Mp_Ready 2 mib, Mp_Stopped], 0, k', hp') \<and> posix_bound k' kControlChannelName = None"
proof -
  have a: "producer_args [''2''] = Some 2"
    by (simp add: producer_args_def atoi_def scan_signed_def scan_number_def is_space_def is_digit_def Let_def)
  have n: "posix_bound posix_empty kControlChannelName = None" "\<forall>i<nat 2. posix_bound posix_empty (channel_name i) = None" "(64 :: nat) < 65"
    by (simp_all add: posix_empty_bound)
  have w: "\<forall>t\<in>set (replicate 3 \<lparr>mt_world = (\<lambda>x :: posix_kernel \<times> heap. x), mt_now = 7, mt_env = (\<lambda>_. (\<lambda>_. 6, 9, \<lambda>_. 7)), mt_clks = (\<lambda>_ _. 6),
      mt_rnds = (\<lambda>_ _. 3), mt_pclks = (\<lambda>_ _. 6)\<rparr>). keeps_pool posix_ok posix_bound posix_alloc (mt_world t)" by (simp add: keeps_pool_def)
  from producer_runs[where start = 0 and clk = "\<lambda>_. 5" and wall = 9 and hp = "\<lambda>_. smem_zero",
      OF posix.unlinking_store_axioms posix_empty_ok a n(1,2) w n(3)] show ?thesis by blast
qed

text \<open>
  Where names cannot be unlinked the loss described next does not happen: a producer that is started while
  the control channel's name is still in use ends with an error and leaves memory and names as they were.
\<close>

lemma second_producer_refused:
  assumes "pinned_store ok bound alloc pf ops" and "ok k" and "bound k kControlChannelName = Some (b, sz)"
  shows "\<exists>k'. producer_start pf ops n start clk wall k hp = (Inl (to_string AlreadyExists), k', hp) \<and> ok k' \<and> bound k' = bound k"
  using pinned_store.create_refused[OF assms(1,2), of control_cfg b sz clk wall hp] assms(3) control_cfg_valid control_cfg_total
  by (auto simp: producer_start_def Let_def)

text \<open>
  C37.  A live producer loses its control channel, on a platform where the name of a segment in use can be unlinked (POSIX; on
  Windows the second producer is refused, see \<open>second_producer_refused\<close>).  The loop never calls \<open>heartbeat\<close> for the publisher of the control channel, which
  publishes no frames, so its heartbeat stays what it was at the start: two seconds later, however many turns the producer has
  made since and is still making, a second producer that is started takes the name for its own segment, and the first is never reached again.
  The processes that run between the turns are assumed to keep the producer's segments in order (\<open>keeps_pool\<close>) and to leave the
  heartbeats of publishers alone (\<open>keeps_beats\<close>); the producer was started with free names and fewer than \<open>2 ^ 31\<close> views.
\<close>

theorem control_channel_displaced:
  assumes "unlinking_store ok bound alloc pf ops" and "ok k" and "0 < n" and "n < 2 ^ 31" and "bound k kControlChannelName = None"
    and "\<forall>i<nat n. bound k (channel_name i) = None" and "\<forall>t\<in>set ts. keeps_pool ok bound alloc (mt_world t)"
    and "\<forall>t\<in>set ts. keeps_beats (mt_world t)" and "64 < fuel" and "2000000000 \<le> clk' 0 - clk 2"
  shows "\<exists>m k1 hp1 m2 k2 hp2 b0 m' k3 hp3 b'. producer_start pf ops n start clk wall k hp = (Inr m, k1, hp1) \<and>
    producer_loop fuel pf ops ts (m, k1, hp1) = Some (m2, k2, hp2) \<and> pub_at b0 (mv_control m2) hp2 \<and> map_option fst (bound k2 kControlChannelName) = Some b0 \<and>
    producer_start pf ops n' start' clk' wall' k2 hp2 = (Inr m', k3, hp3) \<and> pub_at b' (mv_control m') hp3 \<and>
    map_option fst (bound k3 kControlChannelName) = Some b' \<and> b' \<noteq> b0 \<and> hp3 b0 = hp2 b0"
proof -
  have ss: "segment_store ok bound alloc pf ops" using assms(1) unfolding unlinking_store_def by blast
  have eq: "nat n = nat (if n \<le> 0 then 1 else n)" "nat n \<le> 2 ^ 31" using assms(3,4) by (simp_all add: nat_le_iff)
  from pool_started[OF ss assms(2,5) eq(1) _ eq(2), of start clk wall hp] assms(6) obtain m k1 hp1 b0 where
    s: "producer_start pf ops n start clk wall k hp = (Inr m, k1, hp1)" "pool_ok ok bound alloc b0 (m, k1, hp1)"
      "h_last_heartbeat_ns (m_hdr (hp1 b0)) = clk 2" by blast
  from producer_loop_kept[OF assms(1,9) s(2) assms(7)] assms(8) s(3) obtain m2 k2 hp2 where
    l: "producer_loop fuel pf ops ts (m, k1, hp1) = Some (m2, k2, hp2)" "pool_ok ok bound alloc b0 (m2, k2, hp2)"
      "h_last_heartbeat_ns (m_hdr (hp2 b0)) = clk 2" by auto
  note P = l(2)[unfolded pool_ok_def prod.case]
  have okk: "ok k2" and bd: "bound k2 (cfg_name control_cfg) = Some (b0, L_total_size (compute_layout control_cfg))"
    and at: "pub_at b0 (mv_control m2) hp2" using P by simp_all
  have "abandoned control_cfg (clk' 0) b0 (L_total_size (compute_layout control_cfg)) hp2"
    using assms(10) l(3) by (simp add: abandoned_def control_cfg_def LLConfig_default_def)
  from unlinking_store.create_reclaims[where clk = clk' and wall = wall', OF assms(1) okk bd control_cfg_valid control_cfg_total this]
  obtain seg b' k3 where
    c: "publisher_create pf ops control_cfg clk' wall' k2 hp2 = ((Some (new_publisher control_cfg seg b'), LLStatus_Ok), k3,
        hp2(b' := init_segment control_cfg (make_session_id wall' (clk' 1)) (clk' 2) (hp2 b')))" (is "_ = (_, _, ?hp3)")
      "bound k3 = (bound k2)(cfg_name control_cfg \<mapsto> (b', L_total_size (compute_layout control_cfg)))" "b' \<noteq> b0" by blast
  let ?m' = "\<lparr>mv_slots = replicate (nat (if n' \<le> 0 then 1 else n')) Slot_new, mv_control = new_publisher control_cfg seg b', mv_next_publish = start'\<rparr>"
  have "producer_start pf ops n' start' clk' wall' k2 hp2 = (Inr ?m', k3, ?hp3)" using c(1) by (simp add: producer_start_def Let_def)
  moreover have "pub_at b' (mv_control ?m') ?hp3" using new_publisher_at[OF control_cfg_valid control_cfg_total] by simp
  moreover have "map_option fst (bound k2 kControlChannelName) = Some b0" "map_option fst (bound k3 kControlChannelName) = Some b'"
    using bd c(2) by simp_all
  moreover have "?hp3 b0 = hp2 b0" using c(3) by simp
  ultimately show ?thesis using s(1) l(1) at c(3) by blast
qed

theorem control_channel_displaced_witness:
  "\<exists>m k1 hp1 m2 k2 hp2 m' k3 hp3. producer_start Posix posix_ops 2 0 (\<lambda>_. 5) 9 posix_empty (\<lambda>_. smem_zero) = (Inr m, k1, hp1) \<and>
    producer_loop 65 Posix posix_ops (replicate 3 \<lparr>mt_world = (\<lambda>x. x), mt_now = 7, mt_env = (\<lambda>_. (\<lambda>_. 6, 9, \<lambda>_. 7)), mt_clks = (\<lambda>_ _. 6),
      mt_rnds = (\<lambda>_ _. 3), mt_pclks = (\<lambda>_ _. 6)\<rparr>) (m, k1, hp1) = Some (m2, k2, hp2) \<and>
    producer_start Posix posix_ops 2 0 (\<lambda>_. 2000000005) 10 k2 hp2 = (Inr m', k3, hp3) \<and>
    map_option fst (posix_bound k3 kControlChannelName) \<noteq> map_option fst (posix_bound k2 kControlChannelName)"
proof -
  let ?t = "\<lparr>mt_world = (\<lambda>x :: posix_kernel \<times> heap. x), mt_now = 7, mt_env = (\<lambda>_. (\<lambda>_. 6, 9, \<lambda>_. 7)), mt_clks = (\<lambda>_ _. 6),
    mt_rnds = (\<lambda>_ _. 3), mt_pclks = (\<lambda>_ _. 6)\<rparr>"
  have n: "(0 :: int) < 2" "(2 :: int) < 2 ^ 31" "posix_bound posix_empty kControlChannelName = None"
    "\<forall>i<nat 2. posix_bound posix_empty (channel_name i) = None" "(64 :: nat) < 65" "(2000000000 :: u64) \<le> (\<lambda>_ :: nat. 2000000005) 0 - (\<lambda>_ :: nat. 5) 2"
    by (simp_all add: posix_empty_bound)
  have w: "\<forall>t\<in>set (replicate 3 ?t). keeps_pool posix_ok posix_bound posix_alloc (mt_world t)" "\<forall>t\<in>set (replicate 3 ?t). keeps_beats (mt_world t)"
    by (simp_all add: keeps_pool_def keeps_beats_def)
  from control_channel_displaced[where start = 0 and wall = 9 and hp = "\<lambda>_. smem_zero" and n' = 2 and start' = 0 and wall' = 10,
      OF posix.unlinking_store_axioms posix_empty_ok n(1-4) w n(5,6)] show ?thesis by (elim exE conjE) (metis option.inject)
qed

end
