(* ===== verification/Multiview_Consumer.thy ===== *)
theory Multiview_Consumer
  imports Multiview_Producer
begin

text \<open>
  \<open>examples/multiview_consumer_gl\<close>: how the consumer gets a view from the producer, what it sends for the events of its
  window, and what it uploads.  The calls to GLFW and OpenGL are left out; what they are given is a value.  Between two calls of
  the consumer the other processes run: the fields \<open>claim_world\<close>, \<open>reply_world\<close> and \<open>view_world\<close> of the
  surroundings are what they do to the name space and to memory before a round of a loop, and before the view is opened.
\<close>

section \<open>State\<close>

record consumer =
  mTextureWidth :: u32
  mTextureHeight :: u32
  mSub :: "LLSubscriber option"
  mSlotIndex :: int
  mFrameBuf :: "u8 list"
  mFrameInfo :: LLFrameInfo
  mHaveFrame :: bool
  mWasConnected :: bool
  mPendingMoveX :: rat
  mPendingMoveY :: rat
  mMoveDirty :: bool

definition consumer_new :: consumer where
  "consumer_new = \<lparr>mTextureWidth = kDefaultWidth, mTextureHeight = kDefaultHeight, mSub = None, mSlotIndex = -1, mFrameBuf = [],
     mFrameInfo = LLFrameInfo_zero, mHaveFrame = False, mWasConnected = False, mPendingMoveX = 0, mPendingMoveY = 0, mMoveDirty = False\<rparr>"

section \<open>Getting a view\<close>

definition kControlClaimTimeout :: int where "kControlClaimTimeout = 3000000000"
definition kSlotRequestTimeout :: int where "kSlotRequestTimeout = 2000000000"

text \<open>The reasons for which \<open>connectToProducer\<close> returns false.\<close>

datatype connect_error =
    No_Producer
  | Control_Busy
  | Request_Failed
  | No_Reply
  | No_Free_View
  | View_Not_Claimed u32

text \<open>What the consumer meets while it connects: contention, clock readings, and the other processes.\<close>

record 'k surroundings =
  claim_evs :: "nat \<Rightarrow> contention list"
  claim_clk :: "nat \<Rightarrow> clock"
  claim_start :: int
  claim_now :: "nat \<Rightarrow> int"
  claim_world :: "nat \<Rightarrow> 'k \<times> heap \<Rightarrow> 'k \<times> heap"
  request_clk :: clock
  reply_clk :: "nat \<Rightarrow> clock"
  reply_start :: int
  reply_now :: "nat \<Rightarrow> int"
  reply_world :: "nat \<Rightarrow> 'k \<times> heap \<Rightarrow> 'k \<times> heap"
  view_world :: "'k \<times> heap \<Rightarrow> 'k \<times> heap"
  view_evs :: "contention list"
  view_clk :: clock
  url_clk :: clock

text \<open>The first loop.  An instance that lost the race is destroyed; \<open>None\<close> is running out of fuel.\<close>

fun claim_control :: "nat \<Rightarrow> 'k bip_ops \<Rightarrow> 'k surroundings \<Rightarrow> nat \<Rightarrow> 'k \<Rightarrow> heap
    \<Rightarrow> ((connect_error + LLSubscriber) \<times> 'k \<times> heap) option" where
  "claim_control 0 ops e i k hp = None"
| "claim_control (Suc n) ops e i k hp =
     (case claim_world e i (k, hp) of (k0, hp0) \<Rightarrow>
      case subscriber_open ops (claim_evs e i) kControlChannelName (claim_clk e i) k0 hp0 of (ctrl, k1, hp1) \<Rightarrow>
        if connected ctrl \<and> u_owns_commands ctrl then Some (Inr ctrl, k1, hp1)
        else case subscriber_destroy ops ctrl k1 hp1 of (k2, hp2) \<Rightarrow>
          if \<not> connected ctrl then Some (Inl No_Producer, k2, hp2)
          else if claim_now e i \<ge> claim_start e + kControlClaimTimeout then Some (Inl Control_Busy, k2, hp2)
          else claim_control n ops e (Suc i) k2 hp2)"

text \<open>The second loop: polling for the reply.\<close>

fun await_reply :: "nat \<Rightarrow> 'k surroundings \<Rightarrow> u64 \<Rightarrow> nat \<Rightarrow> LLSubscriber \<Rightarrow> 'k \<Rightarrow> heap
    \<Rightarrow> (LLShmCommand option \<times> LLSubscriber \<times> 'k \<times> heap) option" where
  "await_reply 0 e req i ctrl k hp = None"
| "await_reply (Suc n) e req i ctrl k hp =
     (if reply_now e i \<ge> reply_start e + kSlotRequestTimeout then Some (None, ctrl, k, hp)
      else case reply_world e i (k, hp) of (k0, hp0) \<Rightarrow>
        (case sub_receive (reply_clk e i) ctrl hp0 of
           (Some reply, ctrl1, hp1) \<Rightarrow>
             if cmd_reply_to reply = req then Some (Some reply, ctrl1, k0, hp1) else await_reply n e req (Suc i) ctrl1 k0 hp1
         | (None, ctrl1, hp1) \<Rightarrow> await_reply n e req (Suc i) ctrl1 k0 hp1))"

text \<open>From the claim to the index; on every way out the control subscriber is destroyed.\<close>

definition request_index :: "nat \<Rightarrow> 'k bip_ops \<Rightarrow> 'k surroundings \<Rightarrow> 'k \<Rightarrow> heap \<Rightarrow> ((connect_error + u32) \<times> 'k \<times> heap) option" where
  "request_index fuel ops e k hp =
     (case claim_control fuel ops e 0 k hp of
        None \<Rightarrow> None
      | Some (Inl err, k1, hp1) \<Rightarrow> Some (Inl err, k1, hp1)
      | Some (Inr ctrl, k1, hp1) \<Rightarrow>
          (case sub_send kRequestSlot None 0 0 (request_clk e) ctrl hp1 of
             (None, ctrl1, hp2) \<Rightarrow> (case subscriber_destroy ops ctrl1 k1 hp2 of (k3, hp3) \<Rightarrow> Some (Inl Request_Failed, k3, hp3))
           | (Some req, ctrl1, hp2) \<Rightarrow>
               (case await_reply fuel e req 0 ctrl1 k1 hp2 of
                  None \<Rightarrow> None
                | Some (r, ctrl2, k3, hp3) \<Rightarrow>
                    (case subscriber_destroy ops ctrl2 k3 hp3 of (k4, hp4) \<Rightarrow>
                       Some (case r of
                               None \<Rightarrow> Inl No_Reply
                             | Some reply \<Rightarrow>
                                 if cmd_type reply \<noteq> kSlotAssigned then Inl No_Free_View
                                 else (case unpack_u32 (cmd_data reply) (length (cmd_data reply)) of
                                         None \<Rightarrow> Inl No_Free_View | Some index \<Rightarrow> Inr index), k4, hp4)))))"

definition connectToProducer :: "nat \<Rightarrow> 'k bip_ops \<Rightarrow> 'k surroundings \<Rightarrow> u8 list \<Rightarrow> consumer \<Rightarrow> 'k \<Rightarrow> heap
    \<Rightarrow> ((connect_error option \<times> consumer) \<times> 'k \<times> heap) option" where
  "connectToProducer fuel ops e start_url cs k hp =
     (case request_index fuel ops e k hp of
        None \<Rightarrow> None
      | Some (Inl err, k1, hp1) \<Rightarrow> Some ((Some err, cs), k1, hp1)
      | Some (Inr index, k0, hp0) \<Rightarrow>
          (case view_world e (k0, hp0) of (k1, hp1) \<Rightarrow>
           case subscriber_open ops (view_evs e) (channel_name (unat index)) (view_clk e) k1 hp1 of (sub, k2, hp2) \<Rightarrow>
             if \<not> connected sub \<or> \<not> u_owns_commands sub
             then (case subscriber_destroy ops sub k2 hp2 of (k3, hp3) \<Rightarrow> Some ((Some (View_Not_Claimed index), cs), k3, hp3))
             else (case (if start_url = [] then (sub, hp2)
                         else case sub_send_text kSetUrl start_url 0 (url_clk e) sub hp2 of (_, sub1, hp3) \<Rightarrow> (sub1, hp3)) of
                     (sub1, hp3) \<Rightarrow> Some ((None, cs\<lparr>mSub := Some sub1, mSlotIndex := sint (index :: 32 word)\<rparr>), k2, hp3))))"

section \<open>Events of the window\<close>

text \<open>Sending through \<open>mSub\<close>, which is set once connected.\<close>

definition consumer_send :: "u32 \<Rightarrow> u8 list option \<Rightarrow> u32 \<Rightarrow> clock \<Rightarrow> consumer \<Rightarrow> heap \<Rightarrow> consumer \<times> heap" where
  "consumer_send ty data n clk cs hp =
     (case mSub cs of None \<Rightarrow> (cs, hp)
      | Some sub \<Rightarrow> (case sub_send ty data n 0 clk sub hp of (_, sub1, hp1) \<Rightarrow> (cs\<lparr>mSub := Some sub1\<rparr>, hp1)))"

text \<open>The conversion \<open>int(x)\<close> of a \<open>double\<close>: towards zero; not specified when the result does not fit an \<open>int\<close>.\<close>

definition int_of_double :: "rat \<Rightarrow> 32 word" where
  "int_of_double x = (let i = (if x \<ge> 0 then \<lfloor>x\<rfloor> else \<lceil>x\<rceil>) in
     if - (2 ^ 31) \<le> i \<and> i < 2 ^ 31 then of_int i else undefined)"

text \<open>The result tells whether the window should close; \<open>glfw_press\<close> and \<open>glfw_escape\<close> are constants of GLFW.\<close>

definition keyCallback :: "int \<Rightarrow> int \<Rightarrow> int \<Rightarrow> int \<Rightarrow> clock \<Rightarrow> consumer \<Rightarrow> heap \<Rightarrow> bool \<times> consumer \<times> heap" where
  "keyCallback glfw_press glfw_escape key action clk cs hp =
     (let url = (\<lambda>s. let txt = bytes_of s in consumer_send kSetUrl (Some txt) (of_nat (length txt)) clk cs hp) in
      if action \<noteq> glfw_press then (False, cs, hp)
      else if key = glfw_escape then (True, cs, hp)
      else if key = 82 then (False, url ''red'')
      else if key = 71 then (False, url ''green'')
      else if key = 66 then (False, url ''blue'')
      else (False, cs, hp))"

definition mouseButtonCallback :: "rat \<Rightarrow> rat \<Rightarrow> 32 word \<Rightarrow> 32 word \<Rightarrow> clock \<Rightarrow> consumer \<Rightarrow> heap \<Rightarrow> consumer \<times> heap" where
  "mouseButtonCallback mx my button action clk cs hp =
     (case pack_mouse_button (replicate 10 0) (int_of_double mx) (int_of_double my) (ucast button) (ucast action) of
        (payload, n) \<Rightarrow> consumer_send kMouseButton (Some payload) n clk cs hp)"

definition mouseMoveCallback :: "rat \<Rightarrow> rat \<Rightarrow> consumer \<Rightarrow> consumer" where
  "mouseMoveCallback xpos ypos cs = cs\<lparr>mPendingMoveX := xpos, mPendingMoveY := ypos, mMoveDirty := True\<rparr>"

definition sendPendingMouseMove :: "clock \<Rightarrow> consumer \<Rightarrow> heap \<Rightarrow> consumer \<times> heap" where
  "sendPendingMouseMove clk cs hp =
     (if \<not> mMoveDirty cs then (cs, hp)
      else let cs1 = cs\<lparr>mMoveDirty := False\<rparr> in
        case pack_i32x2 (replicate 8 0) (int_of_double (mPendingMoveX cs1)) (int_of_double (mPendingMoveY cs1)) of
          (payload, n) \<Rightarrow> consumer_send kMouseMove (Some payload) n clk cs1 hp)"

text \<open>The texture is allocated anew, without contents.\<close>

definition resizeCallback :: "32 word \<Rightarrow> 32 word \<Rightarrow> clock \<Rightarrow> consumer \<Rightarrow> heap \<Rightarrow> consumer \<times> heap" where
  "resizeCallback width height clk cs hp =
     (let cs1 = cs\<lparr>mTextureWidth := width, mTextureHeight := height, mHaveFrame := False\<rparr> in
      case pack_size (replicate 8 0) width height of (payload, n) \<Rightarrow> consumer_send kResize (Some payload) n clk cs1 hp)"

section \<open>Frames\<close>

text \<open>The result tells whether a line about the connection is printed.\<close>

definition update :: "'k bip_ops \<Rightarrow> contention list \<Rightarrow> clock \<Rightarrow> clock \<Rightarrow> clock \<Rightarrow> (smem \<Rightarrow> nat \<Rightarrow> nat \<Rightarrow> smem) \<Rightarrow> consumer \<Rightarrow> 'k \<Rightarrow> heap
    \<Rightarrow> bool option \<times> consumer \<times> 'k \<times> heap" where
  "update ops evs pclk qclk clk view cs k hp =
     (case mSub cs of None \<Rightarrow> (None, cs, k, hp)
      | Some sub \<Rightarrow>
          let connected_now = connected sub;
              line = (if connected_now \<noteq> mWasConnected cs then Some connected_now else None);
              cs1 = cs\<lparr>mWasConnected := connected_now\<rparr>
          in case read_latest_vec ops evs pclk qclk clk view (mFrameBuf cs1) sub k hp of
               ((r, buf, info), sub1, k1, hp1) \<Rightarrow>
                 let fi = (case info of Some fi \<Rightarrow> fi | None \<Rightarrow> mFrameInfo cs1);
                     cs2 = cs1\<lparr>mSub := Some sub1, mFrameBuf := buf, mFrameInfo := fi\<rparr>;
                     cs3 = (if r = Read_Ok
                            then cs2\<lparr>mHaveFrame := (fi_width fi = mTextureWidth cs2 \<and> fi_height fi = mTextureHeight cs2)\<rparr>
                            else cs2)
                 in (line, cs3, k1, hp1))"

text \<open>
  \<open>draw\<close>: what \<open>glTexSubImage2D\<close> reads from the buffer, four bytes per texel of the texture; \<open>Some None\<close> is a read past its end.
\<close>

definition upload :: "consumer \<Rightarrow> u8 list option option" where
  "upload cs =
     (if mHaveFrame cs
      then let n = unat (mTextureWidth cs) * unat (mTextureHeight cs) * 4 in
           Some (if n \<le> length (mFrameBuf cs) then Some (take n (mFrameBuf cs)) else None)
      else None)"

section \<open>The window's loop\<close>

text \<open>
  An event with the clock of the call it leads to; \<open>Button\<close> also has the pointer position that is queried.  \<open>Close\<close> is the
  user's request to close the window, for which the program has no callback: GLFW marks the window itself.
\<close>

datatype window_event =
    Key int int
  | Button rat rat "32 word" "32 word"
  | Move rat rat
  | Resize "32 word" "32 word"
  | Close

fun dispatch :: "int \<Rightarrow> int \<Rightarrow> window_event \<times> clock \<Rightarrow> bool \<times> consumer \<times> heap \<Rightarrow> bool \<times> consumer \<times> heap" where
  "dispatch press escape (Key key action, clk) (cl, cs, hp) =
     (case keyCallback press escape key action clk cs hp of (c, cs1, hp1) \<Rightarrow> (cl \<or> c, cs1, hp1))"
| "dispatch press escape (Button mx my button action, clk) (cl, cs, hp) = (cl, mouseButtonCallback mx my button action clk cs hp)"
| "dispatch press escape (Move x y, clk) (cl, cs, hp) = (cl, mouseMoveCallback x y cs, hp)"
| "dispatch press escape (Resize w h, clk) (cl, cs, hp) = (cl, resizeCallback w h clk cs hp)"
| "dispatch press escape (Close, clk) (cl, cs, hp) = (True, cs, hp)"

text \<open>What happens around one turn of the loop: the other processes, the readings, and the events that are polled.\<close>

record 'k turn =
  t_world :: "'k \<times> heap \<Rightarrow> 'k \<times> heap"
  t_evs :: "contention list"
  t_pclk :: clock
  t_qclk :: clock
  t_clk :: clock
  t_view :: "smem \<Rightarrow> nat \<Rightarrow> nat \<Rightarrow> smem"
  t_events :: "(window_event \<times> clock) list"
  t_move_clk :: clock

text \<open>The loop, with what each of its turns uploads.\<close>

fun run :: "int \<Rightarrow> int \<Rightarrow> 'k bip_ops \<Rightarrow> 'k turn list \<Rightarrow> bool \<times> consumer \<times> 'k \<times> heap
    \<Rightarrow> u8 list option option list \<times> bool \<times> consumer \<times> 'k \<times> heap" where
  "run press escape ops [] st = ([], st)"
| "run press escape ops (t # ts) (cl, cs, k, hp) =
     (if cl then ([], cl, cs, k, hp)
      else case t_world t (k, hp) of (k0, hp0) \<Rightarrow>
        case update ops (t_evs t) (t_pclk t) (t_qclk t) (t_clk t) (t_view t) cs k0 hp0 of (_, cs1, k1, hp1) \<Rightarrow>
        case fold (dispatch press escape) (t_events t) (cl, cs1, hp1) of (cl2, cs2, hp2) \<Rightarrow>
        case sendPendingMouseMove (t_move_clk t) cs2 hp2 of (cs3, hp3) \<Rightarrow>
        case run press escape ops ts (cl2, cs3, k1, hp3) of (pictures, st) \<Rightarrow> (upload cs1 # pictures, st))"

section \<open>Events reach the view\<close>

text \<open>A consumer that owns the command channel of slot \<open>i\<close>.\<close>

definition linked :: "nat \<Rightarrow> oid \<Rightarrow> Slot \<Rightarrow> consumer \<Rightarrow> heap \<Rightarrow> bool" where
  "linked i b s cs hp \<longleftrightarrow> slot_ok (view_config i) b s hp \<and>
     (\<exists>sub. mSub cs = Some sub \<and> attached (view_config i) b sub \<and> owner_ok sub (hp b))"

text \<open>The memory after an event at time \<open>t\<close>: one more command, which asks \<open>eff\<close> of the slot, the owner's heartbeat, and nothing else.\<close>

definition delivers :: "nat \<Rightarrow> oid \<Rightarrow> u64 \<Rightarrow> (Slot \<Rightarrow> Slot option) \<Rightarrow> heap \<Rightarrow> heap \<Rightarrow> bool" where
  "delivers i b t eff hp hp' \<longleftrightarrow> (\<exists>x. ring_queue (view_config i) Upstream (hp' b) = ring_queue (view_config i) Upstream (hp b) @ [x] \<and>
     (\<forall>s. slot_command x s = eff s)) \<and> m_hdr (hp' b) = beat t (m_hdr (hp b)) \<and> (\<forall>y. y \<noteq> b \<longrightarrow> hp' y = hp y)"

text \<open>The subscriber after a command.\<close>

definition sent_one :: "LLSubscriber \<Rightarrow> LLSubscriber" where
  "sent_one sub = sub\<lparr>u_next_cmd := u_next_cmd sub + 1, u_sent := u_sent sub + 1\<rparr>"

lemma consumer_send_step:
  assumes "linked i b s cs hp" and "length (ring_queue (view_config i) Upstream (hp b)) < 64"
    and "length (send_data data n) = unat n" and "n \<le> 512"
    and "\<And>x s. cmd_type x = ty \<Longrightarrow> cmd_data x = send_data data n \<Longrightarrow> slot_command x s = eff s"
  shows "\<exists>cs' hp'. consumer_send ty data n clk cs hp = (cs', hp') \<and> linked i b s cs' hp' \<and> delivers i b (clk 0) eff hp hp' \<and> cs' = cs\<lparr>mSub := map_option sent_one (mSub cs)\<rparr>"
proof -
  obtain p sub where p: "sl_pub s = Some p" "pub_at b p hp" "p_cfg p = view_config i" "p_pending p = None" "p_min_interval_ns p = 0" "canvas_ok s"
    and sub: "mSub cs = Some sub" "attached (view_config i) b sub" "owner_ok sub (hp b)"
    using assms(1) by (auto simp: linked_def slot_ok_def)
  have a: "attached (p_cfg p) b sub" "n \<le> cfg_max_command_bytes (p_cfg p)"
    "length (ring_queue (p_cfg p) Upstream (hp b)) < unat (cfg_command_slots (p_cfg p))" using sub(2) assms(2,4) p(3) by simp_all
  from sub_send_step[where hp = hp and data = data and ty = ty and reply_to = 0 and clk = clk, OF p(2) a(1) sub(3) assms(3) a(2,3)] obtain hp' where
    sd: "sub_send ty data n 0 clk sub hp = (Some (u_next_cmd sub), sub\<lparr>u_next_cmd := u_next_cmd sub + 1, u_sent := u_sent sub + 1\<rparr>, hp')"
    and at: "pub_at b p hp'" "owner_ok sub (hp' b)"
    and q: "ring_queue (view_config i) Upstream (hp' b) =
      ring_queue (view_config i) Upstream (hp b) @ [mk_command ty (send_data data n) (u_next_cmd sub) 0 (clk 1)]"
    and fr: "m_hdr (hp' b) = beat (clk 0) (m_hdr (hp b))" "\<forall>y. y \<noteq> b \<longrightarrow> hp' y = hp y"
    unfolding p(3) by blast
  let ?sub = "sub\<lparr>u_next_cmd := u_next_cmd sub + 1, u_sent := u_sent sub + 1\<rparr>"
  have "linked i b s (cs\<lparr>mSub := Some ?sub\<rparr>) hp'"
    using p at sub(2) by (simp add: linked_def slot_ok_def attached_def owner_ok_def)
  moreover have "delivers i b (clk 0) eff hp hp'"
    unfolding delivers_def using q fr assms(5)[of "mk_command ty (send_data data n) (u_next_cmd sub) 0 (clk 1)"] by (auto simp: mk_command_def)
  ultimately show ?thesis using sd sub(1) by (simp add: consumer_send_def sent_one_def)
qed

lemma linked_fields [simp]:
  "linked i b s (cs\<lparr>mTextureWidth := w, mTextureHeight := h, mHaveFrame := f\<rparr>) hp = linked i b s cs hp"
  "linked i b s (cs\<lparr>mMoveDirty := d\<rparr>) hp = linked i b s cs hp"
  by (simp_all add: linked_def)

text \<open>The payloads, as the slot decodes them.\<close>

lemma packed_pair:
  "pack_size (replicate 8 0) w h = (enc_pair (w, h), 8)" "pack_i32x2 (replicate 8 0) w h = (enc_pair (w, h), 8)"
  "pack_mouse_button (replicate 10 0) x y bt ac = (enc_button (x, y, bt, ac), 10)"
  using size.pack_enc[of "replicate 8 0" "(w, h)"] i32x2.pack_enc[of "replicate 8 0" "(w, h)"]
    button.pack_enc[of "replicate 10 0" "(x, y, bt, ac)"] by simp_all

lemma sent_pair: "send_data (Some (enc_pair v)) 8 = enc_pair v" "send_data (Some (enc_button u)) 10 = enc_button u"
  using size.enc_width[of v] button.enc_width[of u] by (simp_all add: send_data_def)

lemma command_effects:
  "cmd_type x = kResize \<Longrightarrow> cmd_data x = enc_pair (w, h) \<Longrightarrow> slot_command x s = Some (if w \<noteq> 0 \<and> h \<noteq> 0 then slot_resize s w h else s)"
  "cmd_type x = kMouseMove \<Longrightarrow> cmd_data x = enc_pair (px, py) \<Longrightarrow> slot_command x s = slot_mark s px py 255 255 0"
  "cmd_type x = kMouseButton \<Longrightarrow> cmd_data x = enc_button (px, py, bt, ac) \<Longrightarrow> slot_command x s = slot_mark s px py 255 255 255"
  "cmd_type x = kSetUrl \<Longrightarrow> slot_command x s = Some (s\<lparr>sl_color := color_from_text (cmd_data x), sl_dirty := True\<rparr>)"
  using size.delivered_value[of "(w, h)"] i32x2.delivered_value[of "(px, py)"] button.delivered_value[of "(px, py, bt, ac)"]
  by (simp_all add: slot_command_def Let_def opcode_defs)

lemma url_colors: "color_from_text (bytes_of ''red'') = Red" "color_from_text (bytes_of ''green'') = Green" "color_from_text (bytes_of ''blue'') = Blue"
  by (simp_all add: color_from_text_def bytes_of_def)

lemma url_sent: "length s \<le> 512 \<Longrightarrow> send_data (Some (bytes_of s)) (of_nat (length (bytes_of s))) = bytes_of s"
  "length s \<le> 512 \<Longrightarrow> (of_nat (length (bytes_of s)) :: u32) \<le> 512"
  "length s \<le> 512 \<Longrightarrow> unat (of_nat (length (bytes_of s)) :: u32) = length s"
  by (simp_all add: send_data_def unat_of_nat32 word_le_unat)

lemma moves_coalesced: "mouseMoveCallback mx my (fold (\<lambda>(x, y). mouseMoveCallback x y) moves cs) = mouseMoveCallback mx my cs"
  by (induction moves arbitrary: cs) (auto simp: mouseMoveCallback_def)

lemma pair_step:
  assumes "linked i b s cs hp" and "length (ring_queue (view_config i) Upstream (hp b)) < 64"
    and "\<And>x s. cmd_type x = ty \<Longrightarrow> cmd_data x = enc_pair v \<Longrightarrow> slot_command x s = eff s"
  shows "\<exists>cs' hp'. consumer_send ty (Some (enc_pair v)) 8 clk cs hp = (cs', hp') \<and> linked i b s cs' hp' \<and> delivers i b (clk 0) eff hp hp' \<and>
    cs' = cs\<lparr>mSub := map_option sent_one (mSub cs)\<rparr>"
proof (rule consumer_send_step[OF assms(1,2)])
  show "length (send_data (Some (enc_pair v)) 8) = unat (8 :: u32)" by (simp add: sent_pair size.enc_width)
  show "slot_command x s = eff s" if "cmd_type x = ty" "cmd_data x = send_data (Some (enc_pair v)) 8" for x s
    using assms(3) that unfolding sent_pair by blast
qed simp

lemma button_step:
  assumes "linked i b s cs hp" and "length (ring_queue (view_config i) Upstream (hp b)) < 64"
  shows "\<exists>cs' hp'. consumer_send kMouseButton (Some (enc_button (px, py, bt, ac))) 10 clk cs hp = (cs', hp') \<and> linked i b s cs' hp' \<and>
    delivers i b (clk 0) (\<lambda>s. slot_mark s px py 255 255 255) hp hp' \<and> cs' = cs\<lparr>mSub := map_option sent_one (mSub cs)\<rparr>"
proof (rule consumer_send_step[OF assms(1,2)])
  show "length (send_data (Some (enc_button (px, py, bt, ac))) 10) = unat (10 :: u32)" by (simp add: sent_pair button.enc_width)
  show "slot_command x s = slot_mark s px py 255 255 255"
    if "cmd_type x = kMouseButton" "cmd_data x = send_data (Some (enc_button (px, py, bt, ac))) 10" for x s
    using that unfolding sent_pair by (rule command_effects(3))
qed simp

lemma key_step:
  assumes "linked i b s cs hp" and "length (ring_queue (view_config i) Upstream (hp b)) < 64" and "length url \<le> 512"
    and "txt = bytes_of url"
  shows "\<exists>cs' hp'. consumer_send kSetUrl (Some txt) (of_nat (length txt)) clk cs hp = (cs', hp') \<and> linked i b s cs' hp' \<and>
    delivers i b (clk 0) (\<lambda>s. Some (s\<lparr>sl_color := color_from_text txt, sl_dirty := True\<rparr>)) hp hp'"
proof -
  have sd: "send_data (Some txt) (of_nat (length txt)) = txt" "(of_nat (length txt) :: u32) \<le> 512" "unat (of_nat (length txt) :: u32) = length txt"
    using url_sent[OF assms(3)] unfolding assms(4) length_bytes_of by blast+
  have "\<exists>cs' hp'. consumer_send kSetUrl (Some txt) (of_nat (length txt)) clk cs hp = (cs', hp') \<and> linked i b s cs' hp' \<and>
      delivers i b (clk 0) (\<lambda>s. Some (s\<lparr>sl_color := color_from_text txt, sl_dirty := True\<rparr>)) hp hp' \<and> cs' = cs\<lparr>mSub := map_option sent_one (mSub cs)\<rparr>"
    by (rule consumer_send_step[OF assms(1,2)]) (simp_all only: sd command_effects(4))
  then show ?thesis by blast
qed

section \<open>What the window shows\<close>

lemma picture_step:
  assumes "linked i b s cs hp" and "mSub cs = Some sub" and "sl_pub s = Some p" and "slot_publish clk s hp = (s', hp')"
    and "unat (p_frame_id p) + 1 < 2 ^ 62" and "u_last_frame sub \<noteq> p_frame_id p + 1" and "u_min_read_ns sub = 0"
    and "pclk 0 - u_last_progress sub < u_stale_ns sub" and "qclk 0 - u_last_progress sub < u_stale_ns sub"
    and "length (mFrameBuf cs) \<le> 8294400"
  shows "\<exists>line cs' hp''. update ops evs pclk qclk rclk calm cs k hp' = (line, cs', k, hp'') \<and> linked i b s' cs' hp'' \<and>
    length (mFrameBuf cs') = 8294400 \<and>
    upload cs' = (if mTextureWidth cs = sl_width s \<and> mTextureHeight cs = sl_height s then Some (Some (sl_canvas s)) else None)"
proof -
  let ?c = "view_config i" and ?n = "unat (sl_width s) * unat (sl_height s) * 4"
  have so: "slot_ok ?c b s hp" and at: "attached ?c b sub" "owner_ok sub (hp b)" using assms(1,2) by (auto simp: linked_def)
  note f = slot_published[OF so assms(3,5,4) refl refl refl]
  let ?j = "next_slot p" and ?fi = "published_info ?c (p_frame_id p + 1) (clk 1) (sl_width s) (sl_height s)"
  have ow: "owner_ok sub (hp' b)" using at(2) f(13) by (simp add: owner_ok_def)
  have b1: "length (mFrameBuf cs) \<le> unat (max_payload ?c)" using assms(10) by simp
  have n: "0 < unat (s_payload_bytes (slot_of ?c (hp' b) ?j))" "unat (s_payload_bytes (slot_of ?c (hp' b) ?j)) \<le> unat (max_payload ?c)"
    using f(7-9) by simp_all
  let ?buf = "sl_canvas s @ drop ?n (mFrameBuf cs @ replicate (unat (max_payload ?c) - length (mFrameBuf cs)) 0)"
  have rd: "read_latest_vec ops evs pclk qclk rclk calm (mFrameBuf cs) sub k hp' =
      ((Read_Ok, ?buf, Some ?fi), after_read (rclk 1) ?fi sub, k, upd_hdr b (beat (qclk 1)) hp')" (is "_ = (_, ?sub, _, ?hp)")
    using vec_current[where hp = hp' and pclk = pclk and qclk = qclk and clk = rclk and ops = ops and evs = evs and k = k,
        OF at(1) f(1-5) assms(6) f(6) n ow assms(7-9) b1] unfolding f(7,10,11) .
  have len: "length (sl_canvas s) = ?n" using so by (simp add: slot_ok_def canvas_ok_def)
  have bound: "?n \<le> 8294400" "unat (max_payload ?c) = 8294400" using f(9) by simp_all
  have lb: "length ?buf = 8294400"
    using bound assms(10) unfolding length_append length_drop length_replicate len bound(2) by linarith
  have tk: "take ?n ?buf = sl_canvas s" using len by simp
  have "pub_at b q ?hp" if "pub_at b q hp'" for q
    using pub_at_owner[OF that, of "beat (qclk 1) (m_hdr (hp' b))"] by (simp add: same_but_owner_def beat_def upd_hdr_def)
  then have "slot_ok ?c b s' ?hp" using f(12) by (auto simp: slot_ok_def)
  moreover have "attached ?c b ?sub" "owner_ok ?sub (?hp b)" using at(1) ow by (simp_all add: after_read_def attached_def owner_ok_def beat_def)
  ultimately have lk: "linked i b s' (cs\<lparr>mSub := Some ?sub, mFrameBuf := bf, mFrameInfo := ii, mWasConnected := wc, mHaveFrame := hf\<rparr>) ?hp" for bf ii wc hf
    by (simp add: linked_def)
  let ?cs = "cs\<lparr>mWasConnected := connected sub, mSub := Some ?sub, mFrameBuf := ?buf, mFrameInfo := ?fi,
      mHaveFrame := (sl_width s = mTextureWidth cs \<and> sl_height s = mTextureHeight cs)\<rparr>"
  have "update ops evs pclk qclk rclk calm cs k hp' =
      (if connected sub \<noteq> mWasConnected cs then Some (connected sub) else None, ?cs, k, ?hp)"
    using rd assms(2) by (simp add: update_def Let_def published_info_def)
  moreover have "upload ?cs = (if mTextureWidth cs = sl_width s \<and> mTextureHeight cs = sl_height s then Some (Some (sl_canvas s)) else None)"
    using tk len unfolding upload_def Let_def by auto
  moreover have "linked i b s' ?cs ?hp" using lk by (simp add: linked_def)
  ultimately show ?thesis using lb by auto
qed

section \<open>A small link\<close>

lemma demo_link:
  obtains s p b k hp sub hp' where
    "allocate_slot Posix posix_ops Slot_new 0 view_cfg 0 (\<lambda>_. 5) 9 posix_empty (\<lambda>_. smem_zero) = ((True, s), k, hp)"
    "linked 0 b s (consumer_new\<lparr>mSub := Some sub\<rparr>) hp'" "sl_pub s = Some p" "p_frame_id p = 0"
    "ring_queue (view_config 0) Upstream (hp' b) = []" "u_last_frame sub = 0" "u_last_progress sub = 0" "u_stale_ns sub = 500000000"
    "u_min_read_ns sub = 0" "u_owner_gen sub = 5"
proof -
  obtain s p b k hp where a: "allocate_slot Posix posix_ops Slot_new 0 view_cfg 0 (\<lambda>_. 5) 9 posix_empty (\<lambda>_. smem_zero) = ((True, s), k, hp)"
    and d: "slot_ok (view_config 0) b s hp" "sl_pub s = Some p" "p_frame_id p = 0" "\<And>d. ring_queue (view_config 0) d (hp b) = []"
      "hdr_describes (view_config 0) (m_hdr (hp b))" by (rule demo_view) blast
  let ?m = "adopted (view_config 0) b \<lparr>sg_obj = 3, sg_region = (Some b, 0)\<rparr> (m_hdr (hp b)) (Some 5) LLSubscriber_new"
  let ?hp = "upd_hdr b (\<lambda>_. take_claim 5 0 (m_hdr (hp b))) hp"
  have "pub_at b q ?hp" if "pub_at b q hp" for q using that by (intro pub_at_owner) (simp_all add: same_but_owner_def)
  then have "slot_ok (view_config 0) b s ?hp" using d(1) by (auto simp: slot_ok_def)
  moreover have "attached (view_config 0) b ?m" by (rule adopted_attached[OF d(5)])
  moreover have "owner_ok ?m (?hp b)" by (simp add: owner_ok_def adopted_def take_claim_def)
  ultimately have "linked 0 b s (consumer_new\<lparr>mSub := Some ?m\<rparr>) ?hp" by (simp add: linked_def)
  moreover have "ring_queue (view_config 0) Upstream (?hp b) = []" by (simp add: d(4))
  moreover have "u_last_frame ?m = 0" "u_last_progress ?m = 0" "u_stale_ns ?m = 500000000" "u_min_read_ns ?m = 0"
    "u_owner_gen ?m = 5"
    by (simp_all add: adopted_def LLSubscriber_new_def)
  ultimately show ?thesis using that a d(2,3) by blast
qed

section \<open>Properties\<close>

text \<open>
  C28.  Window events reach the view.  With room in the queue, each event of the window of a consumer that owns its channel puts one command
  at the end of the queue, and what the producer makes of that command is what the event means: the new
  size, clamped to the channel's; a white mark where a button was used; a yellow mark at the last pointer position, sent once however many moves
  came before; the colour of the key.
\<close>

theorem events_obeyed:
  assumes "linked i b s cs hp" and "length (ring_queue (view_config i) Upstream (hp b)) < 64" and "escape \<notin> {82, 71, 66}"
  shows "(\<exists>cs' hp'. resizeCallback w h clk cs hp = (cs', hp') \<and> linked i b s cs' hp' \<and> \<not> mHaveFrame cs' \<and>
       delivers i b (clk 0) (\<lambda>s. Some (if w \<noteq> 0 \<and> h \<noteq> 0 then slot_resize s w h else s)) hp hp') \<and>
    (\<exists>cs' hp'. mouseButtonCallback mx my button action clk cs hp = (cs', hp') \<and> linked i b s cs' hp' \<and>
       delivers i b (clk 0) (\<lambda>s. slot_mark s (int_of_double mx) (int_of_double my) 255 255 255) hp hp') \<and>
    (\<exists>cs' hp'. sendPendingMouseMove clk (mouseMoveCallback mx my (fold (\<lambda>(x, y). mouseMoveCallback x y) moves cs)) hp = (cs', hp') \<and> linked i b s cs' hp' \<and>
       delivers i b (clk 0) (\<lambda>s. slot_mark s (int_of_double mx) (int_of_double my) 255 255 0) hp hp' \<and>
       sendPendingMouseMove clk2 cs' hp' = (cs', hp')) \<and>
    (\<forall>(key, color) \<in> {(82, Red), (71, Green), (66, Blue)}. \<exists>cs' hp'. keyCallback press escape key press clk cs hp = (False, cs', hp') \<and>
       linked i b s cs' hp' \<and> delivers i b (clk 0) (\<lambda>s. Some (s\<lparr>sl_color := color, sl_dirty := True\<rparr>)) hp hp')"
proof (intro conjI)
  let ?r = "\<lambda>s. Some (if w \<noteq> 0 \<and> h \<noteq> 0 then slot_resize s w h else s)" and ?cs = "cs\<lparr>mTextureWidth := w, mTextureHeight := h, mHaveFrame := False\<rparr>"
  have "linked i b s ?cs hp" using assms(1) by simp
  from pair_step[where ty = kResize and v = "(w, h)" and eff = ?r and clk = clk, OF this assms(2) command_effects(1)] obtain cs' hp' where
    m: "consumer_send kResize (Some (enc_pair (w, h))) 8 clk ?cs hp = (cs', hp')" "linked i b s cs' hp'" "delivers i b (clk 0) ?r hp hp'"
    "cs' = ?cs\<lparr>mSub := map_option sent_one (mSub ?cs)\<rparr>" by blast
  have "\<not> mHaveFrame cs'" unfolding m(4) by simp
  moreover have "resizeCallback w h clk cs hp = (cs', hp')" using m(1) by (simp add: resizeCallback_def Let_def packed_pair)
  ultimately show "\<exists>cs' hp'. resizeCallback w h clk cs hp = (cs', hp') \<and> linked i b s cs' hp' \<and> \<not> mHaveFrame cs' \<and> delivers i b (clk 0) ?r hp hp'"
    using m(2,3) by blast
next
  show "\<exists>cs' hp'. mouseButtonCallback mx my button action clk cs hp = (cs', hp') \<and> linked i b s cs' hp' \<and>
       delivers i b (clk 0) (\<lambda>s. slot_mark s (int_of_double mx) (int_of_double my) 255 255 255) hp hp'"
    using button_step[OF assms(1,2), of "int_of_double mx" "int_of_double my" "ucast button" "ucast action" clk]
    unfolding mouseButtonCallback_def packed_pair prod.case by blast
next
  let ?ms = "(mouseMoveCallback mx my cs)\<lparr>mMoveDirty := False\<rparr>"
  have "linked i b s ?ms hp" using assms(1) by (simp add: linked_def mouseMoveCallback_def)
  from pair_step[where ty = kMouseMove and v = "(int_of_double mx, int_of_double my)" and clk = clk
      and eff = "\<lambda>s. slot_mark s (int_of_double mx) (int_of_double my) 255 255 0", OF this assms(2) command_effects(2)]
  obtain cs' hp' where m: "consumer_send kMouseMove (Some (enc_pair (int_of_double mx, int_of_double my))) 8 clk ?ms hp = (cs', hp')"
    "linked i b s cs' hp'" "delivers i b (clk 0) (\<lambda>s. slot_mark s (int_of_double mx) (int_of_double my) 255 255 0) hp hp'"
    "cs' = ?ms\<lparr>mSub := map_option sent_one (mSub ?ms)\<rparr>" by blast
  have "\<not> mMoveDirty cs'" unfolding m(4) by simp
  then have "sendPendingMouseMove clk2 cs' hp' = (cs', hp')" by (simp add: sendPendingMouseMove_def)
  moreover have "sendPendingMouseMove clk (mouseMoveCallback mx my (fold (\<lambda>(x, y). mouseMoveCallback x y) moves cs)) hp = (cs', hp')"
    unfolding moves_coalesced using m(1) by (simp add: sendPendingMouseMove_def mouseMoveCallback_def packed_pair)
  ultimately show "\<exists>cs' hp'. sendPendingMouseMove clk (mouseMoveCallback mx my (fold (\<lambda>(x, y). mouseMoveCallback x y) moves cs)) hp = (cs', hp') \<and> linked i b s cs' hp' \<and>
       delivers i b (clk 0) (\<lambda>s. slot_mark s (int_of_double mx) (int_of_double my) 255 255 0) hp hp' \<and>
       sendPendingMouseMove clk2 cs' hp' = (cs', hp')" using m(2,3) by blast
next
  show "\<forall>(key, color) \<in> {(82, Red), (71, Green), (66, Blue)}. \<exists>cs' hp'. keyCallback press escape key press clk cs hp = (False, cs', hp') \<and>
       linked i b s cs' hp' \<and> delivers i b (clk 0) (\<lambda>s. Some (s\<lparr>sl_color := color, sl_dirty := True\<rparr>)) hp hp'"
    using key_step[OF assms(1,2) _ refl, of "''red''" clk] key_step[OF assms(1,2) _ refl, of "''green''" clk]
      key_step[OF assms(1,2) _ refl, of "''blue''" clk] assms(3)
    by (auto simp: keyCallback_def Let_def url_colors)
qed

theorem events_obeyed_witness:
  "\<exists>s k hp cs b hp' cs' hp''. allocate_slot Posix posix_ops Slot_new 0 view_cfg 0 (\<lambda>_. 5) 9 posix_empty (\<lambda>_. smem_zero) = ((True, s), k, hp) \<and>
    resizeCallback 640 480 (\<lambda>_. 7) cs hp' = (cs', hp'') \<and> delivers 0 b 7 (\<lambda>s. Some (slot_resize s 640 480)) hp' hp''"
proof -
  obtain s p b k hp sub hp' where
    a: "allocate_slot Posix posix_ops Slot_new 0 view_cfg 0 (\<lambda>_. 5) 9 posix_empty (\<lambda>_. smem_zero) = ((True, s), k, hp)"
    and l: "linked 0 b s (consumer_new\<lparr>mSub := Some sub\<rparr>) hp'" "ring_queue (view_config 0) Upstream (hp' b) = []" by (rule demo_link) blast
  have n: "length (ring_queue (view_config 0) Upstream (hp' b)) < 64" by (simp add: l(2))
  have e: "(256 :: int) \<notin> {82, 71, 66}" by simp
  from events_obeyed[where w = 640 and h = 480 and clk = "\<lambda>_. 7", OF l(1) n e, THEN conjunct1] obtain cs' hp'' where
    "resizeCallback 640 480 (\<lambda>_. 7) (consumer_new\<lparr>mSub := Some sub\<rparr>) hp' = (cs', hp'')"
    "delivers 0 b 7 (\<lambda>s. Some (slot_resize s 640 480)) hp' hp''" by auto
  with a show ?thesis by blast
qed

text \<open>
  What the window shows.  After the producer's publish pass, \<open>update\<close> and \<open>draw\<close> upload exactly the canvas of the slot if it has the size of
  the texture, and nothing otherwise; the buffer always holds the bytes that are read from it.
\<close>

theorem picture_uploaded:
  assumes "linked i b s cs hp" and "mSub cs = Some sub" and "sl_pub s = Some p" and "slot_publish clk s hp = (s', hp')"
    and "unat (p_frame_id p) + 1 < 2 ^ 62" and "u_last_frame sub \<noteq> p_frame_id p + 1" and "u_min_read_ns sub = 0"
    and "pclk 0 - u_last_progress sub < u_stale_ns sub" and "qclk 0 - u_last_progress sub < u_stale_ns sub"
    and "length (mFrameBuf cs) \<le> 8294400"
  shows "\<exists>line cs' hp''. update ops evs pclk qclk rclk calm cs k hp' = (line, cs', k, hp'') \<and> linked i b s' cs' hp'' \<and>
    length (mFrameBuf cs') = 8294400 \<and>
    upload cs' = (if mTextureWidth cs = sl_width s \<and> mTextureHeight cs = sl_height s then Some (Some (sl_canvas s)) else None)"
  using assms by (rule picture_step)

theorem picture_uploaded_witness:
  "\<exists>s k hp cs hp' s1 hp1 line cs' hp''.
    allocate_slot Posix posix_ops Slot_new 0 view_cfg 0 (\<lambda>_. 5) 9 posix_empty (\<lambda>_. smem_zero) = ((True, s), k, hp) \<and>
    slot_publish (\<lambda>_. 6) s hp' = (s1, hp1) \<and>
    update posix_ops [] (\<lambda>_. 7) (\<lambda>_. 8) (\<lambda>_. 9) calm cs k hp1 = (line, cs', k, hp'') \<and> length (mFrameBuf cs') = 8294400"
proof -
  obtain s p b k hp sub hp' where
    a: "allocate_slot Posix posix_ops Slot_new 0 view_cfg 0 (\<lambda>_. 5) 9 posix_empty (\<lambda>_. smem_zero) = ((True, s), k, hp)"
    and l: "linked 0 b s (consumer_new\<lparr>mSub := Some sub\<rparr>) hp'" "sl_pub s = Some p" "p_frame_id p = 0"
      "u_last_frame sub = 0" "u_last_progress sub = 0" "u_stale_ns sub = 500000000" "u_min_read_ns sub = 0" by (rule demo_link) blast
  obtain s1 hp1 where p: "slot_publish (\<lambda>_. 6) s hp' = (s1, hp1)" by (cases "slot_publish (\<lambda>_. 6) s hp'")
  have "\<exists>line cs' hp''. update posix_ops [] (\<lambda>_. 7) (\<lambda>_. 8) (\<lambda>_. 9) calm (consumer_new\<lparr>mSub := Some sub\<rparr>) k hp1 = (line, cs', k, hp'') \<and>
      linked 0 b s1 cs' hp'' \<and> length (mFrameBuf cs') = 8294400 \<and>
      upload cs' = (if mTextureWidth (consumer_new\<lparr>mSub := Some sub\<rparr>) = sl_width s \<and> mTextureHeight (consumer_new\<lparr>mSub := Some sub\<rparr>) = sl_height s
        then Some (Some (sl_canvas s)) else None)"
    by (rule picture_uploaded[where sub = sub, OF l(1) _ l(2) p]) (simp_all add: l(3-7) consumer_new_def)
  with a p show ?thesis by blast
qed

end
