(* ===== verification/Multiview_Connect.thy ===== *)
theory Multiview_Connect
  imports Multiview_Consumer
begin

text \<open>
  The handshake of \<open>multiview_consumer.cpp\<close> and \<open>multiview_producer.cpp\<close> over the control channel, both sides at work on the same
  name space and memory.
\<close>

section \<open>The pool while others act\<close>

lemma pool_ok_names:
  "pool_ok ok bound alloc b0 (m, k, hp) \<Longrightarrow> ok k1 \<Longrightarrow> bound k1 = bound k \<Longrightarrow> alloc k1 = alloc k \<Longrightarrow> pool_ok ok bound alloc b0 (m, k1, hp)"
  unfolding pool_ok_def prod.case by (auto intro: view_bound_mono[where k = k])

lemma pool_ok_control:
  assumes "pool_ok ok bound alloc b0 (m, k, hp)" and "pub_at b0 (mv_control m) hp'" and "\<forall>x. x \<noteq> b0 \<longrightarrow> hp' x = hp x"
  shows "pool_ok ok bound alloc b0 (m, k, hp')"
  using pool_control_write[OF assms(1,2) _ assms(3)] assms(1) by (simp add: pool_ok_def)

text \<open>A write to the segment of one view that keeps that view in order.\<close>

lemma pool_ok_view:
  assumes "pool_ok ok bound alloc b0 (m, k, hp)" and "i < length (mv_slots m)" and "slot_ok (view_config i) b (mv_slots m ! i) hp'"
    and "\<forall>x. x \<noteq> b \<longrightarrow> hp' x = hp x"
  shows "pool_ok ok bound alloc b0 (m, k, hp')"
proof -
  note P = assms(1)[unfolded pool_ok_def prod.case] and vo = view_object_slot[OF assms(3)]
  have V: "views_ok (mv_slots m) hp" and B: "\<forall>i<length (mv_slots m). view_bound bound alloc b0 k i (mv_slots m ! i)" using P by blast+
  have "b \<noteq> b0" using B assms(2) vo by (auto simp: view_bound_def)
  then have "pub_at b0 (mv_control m) hp'" using P assms(4) by (auto intro: pub_at_frame)
  moreover have "views_ok (mv_slots m) hp'"
    unfolding views_ok_def
  proof (intro conjI allI impI)
    fix j assume j: "j < length (mv_slots m)" "sl_pub (mv_slots m ! j) \<noteq> None"
    show "\<exists>b. view_object (mv_slots m ! j) = Some b \<and> slot_ok (view_config j) b (mv_slots m ! j) hp'"
    proof (cases "j = i")
      case True
      then show ?thesis using vo assms(3) by blast
    next
      case False
      from views_okD(1)[OF V j] obtain b' where b': "view_object (mv_slots m ! j) = Some b'" "slot_ok (view_config j) b' (mv_slots m ! j) hp" by blast
      with views_okD(2)[OF V j(1) assms(2) False b'(1)] vo have "b' \<noteq> b" by auto
      with assms(4) b' show ?thesis using slot_ok_frame by blast
    qed
  qed (use V in \<open>auto simp: views_ok_def\<close>)
  ultimately show ?thesis using P unfolding pool_ok_def prod.case by blast
qed

lemma sub_receive_step:
  assumes "pub_at b p hp" and "attached (p_cfg p) b s" and "owner_ok s (hp b)" and "ring_queue (p_cfg p) Downstream (hp b) = x # q"
  shows "\<exists>hp'. sub_receive clk s hp = (Some x, s\<lparr>u_recvd := u_recvd s + 1, u_last_progress := clk 1\<rparr>, hp') \<and> pub_at b p hp' \<and>
    owner_ok s (hp' b) \<and> ring_queue (p_cfg p) Downstream (hp' b) = q \<and>
    ring_queue (p_cfg p) Upstream (hp' b) = ring_queue (p_cfg p) Upstream (hp b) \<and> (\<forall>y. y \<noteq> b \<longrightarrow> hp' y = hp y)"
proof -
  let ?hp = "upd_hdr b (beat (clk 0)) hp"
  from sub_receive_eq[where hp = hp and clk = clk, OF assms(2) pub_atD(3)[OF assms(1)] assms(3)] assms(4) obtain sm' where
    r: "sub_receive clk s hp = (Some x, s\<lparr>u_recvd := u_recvd s + 1, u_last_progress := clk 1\<rparr>, hp(b := sm'))"
    and e: "cmd_effect (p_cfg p) Downstream q (?hp b) sm'" by auto
  have "pub_at b p ?hp"
    using pub_at_owner[OF assms(1), of "beat (clk 0) (m_hdr (hp b))"] by (simp add: same_but_owner_def beat_def upd_hdr_def)
  moreover have "?hp(b := sm') = hp(b := sm')" by (simp add: upd_hdr_def)
  ultimately have "pub_at b p (hp(b := sm'))" using pub_at_cmd[of b p ?hp Downstream q sm'] e by metis
  moreover have "owner_ok s sm'" using assms(3) e by (simp add: owner_ok_def cmd_effect_def beat_def)
  ultimately show ?thesis using r e by (intro exI[of _ "hp(b := sm')"]) (auto simp: cmd_effect_def)
qed

text \<open>The start page, if there is one, is the first command of the new view.\<close>

lemma page_named:
  assumes "pub_at b p hp" and "p_cfg p = view_config i" and "attached (view_config i) b sub" and "owner_ok sub (hp b)"
    and "ring_queue (view_config i) Upstream (hp b) = []" and "length url \<le> 512"
  shows "\<exists>sub1 hp'. (if url = [] then (sub, hp) else case sub_send_text kSetUrl url 0 uclk sub hp of (_, sub1, hp3) \<Rightarrow> (sub1, hp3)) = (sub1, hp') \<and>
    attached (view_config i) b sub1 \<and> owner_ok sub1 (hp' b) \<and> pub_at b p hp' \<and> (\<forall>x. x \<noteq> b \<longrightarrow> hp' x = hp x) \<and>
    map (\<lambda>x. (cmd_type x, cmd_data x)) (ring_queue (view_config i) Upstream (hp' b)) = (if url = [] then [] else [(kSetUrl, url)]) \<and>
    u_owner_gen sub1 = u_owner_gen sub"
proof (cases "url = []")
  case True
  then show ?thesis using assms by simp
next
  case False
  let ?c = "view_config i"
  have n: "unat (of_nat (length url) :: u32) = length url" using assms(6) by (simp add: unat_of_nat32)
  then have sd: "send_data (Some url) (of_nat (length url)) = url" by (simp add: send_data_def)
  have le: "(of_nat (length url) :: u32) \<le> cfg_max_command_bytes ?c" using assms(6) n by (simp add: word_le_unat)
  have room: "length (ring_queue ?c Upstream (hp b)) < unat (cfg_command_slots ?c)" unfolding assms(5) by simp
  have len: "length (send_data (Some url) (of_nat (length url))) = unat (of_nat (length url) :: u32)" by (simp only: sd n)
  from sub_send_step[OF assms(1), unfolded assms(2), OF assms(3,4) len le room, of kSetUrl 0 uclk] obtain hp' where
    "sub_send kSetUrl (Some url) (of_nat (length url)) 0 uclk sub hp =
      (Some (u_next_cmd sub), sub\<lparr>u_next_cmd := u_next_cmd sub + 1, u_sent := u_sent sub + 1\<rparr>, hp')"
    "pub_at b p hp'" "owner_ok sub (hp' b)" "\<forall>x. x \<noteq> b \<longrightarrow> hp' x = hp x"
    "ring_queue ?c Upstream (hp' b) = [mk_command kSetUrl url (u_next_cmd sub) 0 (uclk 1)]" unfolding assms(5) sd append_Nil by blast
  with False assms(3) show ?thesis by (simp add: sub_send_text_def attached_def owner_ok_def mk_command_def)
qed

text \<open>What the producer does to the name space and to memory when it serves its control channel.\<close>

definition serves :: "nat \<Rightarrow> platform \<Rightarrow> 'k bip_ops \<Rightarrow> int \<Rightarrow> (u64 \<Rightarrow> clock \<times> u64 \<times> clock) \<Rightarrow> producer \<Rightarrow> 'k \<times> heap \<Rightarrow> 'k \<times> heap" where
  "serves fuel pf ops now env m kh = (case kh of (k, hp) \<Rightarrow>
     case drain fuel control_recv (control_handle pf ops now env) (m, k, hp) of Some (m', k', hp') \<Rightarrow> (k', hp') | None \<Rightarrow> (k, hp))"

text \<open>The destructor of the subscriber that owns the channel.\<close>

context unlinking_store
begin

lemma closes: "ok k \<Longrightarrow> ok (LLSegment_destroy ops sg k) \<and> bound (LLSegment_destroy ops sg k) = bound k \<and> alloc (LLSegment_destroy ops sg k) = alloc k"
  by (simp add: LLSegment_destroy_def close_keeps split: option.split)

lemma control_released:
  assumes "pool_ok ok bound alloc b0 (m, k, hp)" and "attached control_cfg b0 s" and "owner_ok s (hp b0)"
  shows "\<exists>k' hp'. subscriber_destroy ops s k hp = (k', hp') \<and> pool_ok ok bound alloc b0 (m, k', hp') \<and> bound k' = bound k \<and>
    h_command_owner_gen (m_hdr (hp' b0)) = 0 \<and> view_states (mv_slots m) hp' = view_states (mv_slots m) hp \<and>
    (\<forall>d. ring_queue control_cfg d (hp' b0) = ring_queue control_cfg d (hp b0))"
proof -
  let ?k = "LLSegment_destroy ops (u_seg s) k" and ?hp = "upd_hdr b0 (\<lambda>h. h\<lparr>h_command_owner_gen := 0\<rparr>) hp"
  have d: "subscriber_destroy ops s k hp = (?k, ?hp)" using assms(2,3) by (simp add: subscriber_destroy_def attached_def owner_ok_def)
  have P: "ok k" "pub_at b0 (mv_control m) hp" using assms(1) by (simp_all add: pool_ok_def)
  have "pub_at b0 (mv_control m) ?hp"
    using pub_at_owner[OF P(2), of "(m_hdr (hp b0))\<lparr>h_command_owner_gen := 0\<rparr>"] by (simp add: same_but_owner_def upd_hdr_def)
  moreover have fr: "\<forall>x. x \<noteq> b0 \<longrightarrow> ?hp x = hp x" by (simp add: upd_hdr_def)
  ultimately have "pool_ok ok bound alloc b0 (m, k, ?hp)" by (intro pool_ok_control[OF assms(1)])
  with closes[OF P(1), of "u_seg s"] have "pool_ok ok bound alloc b0 (m, ?k, ?hp)" by (elim pool_ok_names) blast+
  moreover have "h_command_owner_gen (m_hdr (?hp b0)) = 0" "ring_queue control_cfg d (?hp b0) = ring_queue control_cfg d (hp b0)" for d
    by (simp_all add: upd_hdr_def)
  ultimately show ?thesis using d view_states_frame[OF assms(1) fr] closes[OF P(1), of "u_seg s"] by blast
qed

text \<open>A requester finds the control channel free, takes it and sends its request, which has the id 1.\<close>

lemma request_sent:
  assumes "pool_ok ok bound alloc b0 (m, k, hp)"
    and "h_command_owner_gen (m_hdr (hp b0)) = 0" and "length (ring_queue control_cfg Upstream (hp b0)) < 64"
    and "claim_world e 0 kh = (k, hp)" and "claim_evs e 0 = []"
  shows "\<exists>ctrl k1 hp1 ctrl1 hp2. claim_control (Suc n) ops e 0 (fst kh) (snd kh) = Some (Inr ctrl, k1, hp1) \<and>
    sub_send kRequestSlot None 0 0 (request_clk e) ctrl hp1 = (Some 1, ctrl1, hp2) \<and>
    attached control_cfg b0 ctrl1 \<and> owner_ok ctrl1 (hp2 b0) \<and> pool_ok ok bound alloc b0 (m, k1, hp2) \<and> bound k1 = bound k \<and>
    view_states (mv_slots m) hp2 = view_states (mv_slots m) hp \<and>
    ring_queue control_cfg Upstream (hp2 b0) = ring_queue control_cfg Upstream (hp b0) @ [mk_command kRequestSlot [] 1 0 (request_clk e 1)] \<and>
    ring_queue control_cfg Downstream (hp2 b0) = ring_queue control_cfg Downstream (hp b0)"
proof -
  have P: "ok k" "pub_at b0 (mv_control m) hp" "p_cfg (mv_control m) = control_cfg"
    "bound k kControlChannelName = Some (b0, L_total_size (compute_layout control_cfg))" using assms(1) by (simp_all add: pool_ok_def)
  note si = pub_atD(3)[OF P(2), unfolded P(3)]
  from open_owner[where hp = hp and clk = "claim_clk e 0", OF P(1,4) control_cfg_valid seg_inv_describes[OF si] order_refl assms(2)] obtain ctrl k1 t g where
    o: "subscriber_open ops [] kControlChannelName (claim_clk e 0) k hp = (ctrl, k1, upd_hdr b0 (\<lambda>_. take_claim g t (m_hdr (hp b0))) hp)"
      (is "_ = (_, _, ?hp1)")
    and c: "attached control_cfg b0 ctrl" "u_owns_commands ctrl" "u_owner_gen ctrl = g" "u_next_cmd ctrl = 1"
    and k1: "ok k1" "bound k1 = bound k" "alloc k1 = alloc k" by blast
  have at1: "pub_at b0 (mv_control m) ?hp1" using P(2) by (intro pub_at_owner) (simp_all add: same_but_owner_def)
  have ow: "owner_ok ctrl (?hp1 b0)" using c(2,3) by (simp add: owner_ok_def take_claim_def)
  have q1: "ring_queue control_cfg d (?hp1 b0) = ring_queue control_cfg d (hp b0)" for d by simp
  have len: "length (ring_queue control_cfg Upstream (?hp1 b0)) < unat (cfg_command_slots control_cfg)" using assms(3) unfolding q1 by simp
  have none: "length (send_data None 0) = unat (0 :: u32)" "(0 :: u32) \<le> cfg_max_command_bytes control_cfg" by (simp_all add: send_data_def)
  from sub_send_step[OF at1, unfolded P(3), OF c(1) ow none len, of kRequestSlot 0 "request_clk e"] obtain hp2 where
    sd: "sub_send kRequestSlot None 0 0 (request_clk e) ctrl ?hp1 =
      (Some 1, ctrl\<lparr>u_next_cmd := u_next_cmd ctrl + 1, u_sent := u_sent ctrl + 1\<rparr>, hp2)" (is "_ = (_, ?ctrl1, _)")
    and r: "pub_at b0 (mv_control m) hp2" "owner_ok ctrl (hp2 b0)"
      "ring_queue control_cfg Upstream (hp2 b0) = ring_queue control_cfg Upstream (?hp1 b0) @ [mk_command kRequestSlot (send_data None 0) 1 0 (request_clk e 1)]"
      "ring_queue control_cfg Downstream (hp2 b0) = ring_queue control_cfg Downstream (?hp1 b0)" "\<forall>x. x \<noteq> b0 \<longrightarrow> hp2 x = ?hp1 x"
    unfolding c(4) by blast
  have cl: "claim_control (Suc n) ops e 0 (fst kh) (snd kh) = Some (Inr ctrl, k1, ?hp1)"
    using o c(1,2) assms(4,5) by (simp add: connected_def attached_def)
  have fr: "\<forall>x. x \<noteq> b0 \<longrightarrow> hp2 x = hp x" using r(5) by (simp add: upd_hdr_def)
  have "pool_ok ok bound alloc b0 (m, k1, hp2)" by (rule pool_ok_names[OF pool_ok_control[OF assms(1) r(1) fr] k1])
  moreover have "attached control_cfg b0 ?ctrl1" "owner_ok ?ctrl1 (hp2 b0)" using c(1) r(2) by (simp_all add: attached_def owner_ok_def)
  moreover have "send_data None 0 = []" by (simp add: send_data_def)
  ultimately show ?thesis using cl sd r(3,4) k1(2) view_states_frame[OF assms(1) fr] unfolding q1 by metis
qed

text \<open>A requester that meets a reply to the id 1 in its first round takes it and gives the control channel back.\<close>

lemma reply_taken:
  assumes "pool_ok ok bound alloc b0 (m, k, hp)" and "attached control_cfg b0 ctrl" and "owner_ok ctrl (hp b0)"
    and "ring_queue control_cfg Downstream (hp b0) = x # q" and "cmd_reply_to x = req"
    and "reply_now e 0 < reply_start e + kSlotRequestTimeout" and "reply_world e 0 kh = (k, hp)"
  shows "\<exists>ctrl1 hp1 k' hp'. await_reply (Suc n) e req 0 ctrl (fst kh) (snd kh) = Some (Some x, ctrl1, k, hp1) \<and>
    subscriber_destroy ops ctrl1 k hp1 = (k', hp') \<and> pool_ok ok bound alloc b0 (m, k', hp') \<and> bound k' = bound k \<and>
    h_command_owner_gen (m_hdr (hp' b0)) = 0 \<and> view_states (mv_slots m) hp' = view_states (mv_slots m) hp \<and>
    ring_queue control_cfg Upstream (hp' b0) = ring_queue control_cfg Upstream (hp b0) \<and> ring_queue control_cfg Downstream (hp' b0) = q"
proof -
  have P: "pub_at b0 (mv_control m) hp" "p_cfg (mv_control m) = control_cfg" using assms(1) by (simp_all add: pool_ok_def)
  let ?ctrl = "ctrl\<lparr>u_recvd := u_recvd ctrl + 1, u_last_progress := reply_clk e 0 1\<rparr>"
  from sub_receive_step[OF P(1), unfolded P(2), OF assms(2-4), of "reply_clk e 0"] obtain hp1 where
    r: "sub_receive (reply_clk e 0) ctrl hp = (Some x, ?ctrl, hp1)" "pub_at b0 (mv_control m) hp1" "owner_ok ctrl (hp1 b0)"
      "ring_queue control_cfg Upstream (hp1 b0) = ring_queue control_cfg Upstream (hp b0)" "\<forall>y. y \<noteq> b0 \<longrightarrow> hp1 y = hp y"
      "ring_queue control_cfg Downstream (hp1 b0) = q" by blast
  have a: "await_reply (Suc n) e req 0 ctrl (fst kh) (snd kh) = Some (Some x, ?ctrl, k, hp1)" using r(1) assms(5-7) by simp
  have c: "attached control_cfg b0 ?ctrl" "owner_ok ?ctrl (hp1 b0)" using assms(2) r(3) by (simp_all add: attached_def owner_ok_def)
  from control_released[OF pool_ok_control[OF assms(1) r(2,5)] c] obtain k' hp' where
    d: "subscriber_destroy ops ?ctrl k hp1 = (k', hp')" "pool_ok ok bound alloc b0 (m, k', hp')" "bound k' = bound k"
      "h_command_owner_gen (m_hdr (hp' b0)) = 0" "view_states (mv_slots m) hp' = view_states (mv_slots m) hp1"
      "\<forall>d. ring_queue control_cfg d (hp' b0) = ring_queue control_cfg d (hp1 b0)" by blast
  with a r(4,6) view_states_frame[OF assms(1) r(5)] show ?thesis by metis
qed

text \<open>The consumer takes the view it was given and names the page.\<close>

lemma view_claimed:
  assumes "pool_ok ok bound alloc b0 (m, k, hp)" and "i < length (mv_slots m)" and "view_states (mv_slots m) hp ! i = Some (0, [])"
    and "length url \<le> 512"
  shows "\<exists>sub k' hp1 sub1 hp' b. subscriber_open ops [] (channel_name i) clk k hp = (sub, k', hp1) \<and> connected sub \<and> u_owns_commands sub \<and>
    (if url = [] then (sub, hp1) else case sub_send_text kSetUrl url 0 uclk sub hp1 of (_, sub1, hp3) \<Rightarrow> (sub1, hp3)) = (sub1, hp') \<and>
    attached (view_config i) b sub1 \<and> owner_ok sub1 (hp' b) \<and> slot_ok (view_config i) b (mv_slots m ! i) hp' \<and>
    pool_ok ok bound alloc b0 (m, k', hp') \<and> (\<forall>x. x \<noteq> b \<longrightarrow> hp' x = hp x) \<and> b \<noteq> b0 \<and>
    map (\<lambda>x. (cmd_type x, cmd_data x)) (ring_queue (view_config i) Upstream (hp' b)) = (if url = [] then [] else [(kSetUrl, url)]) \<and>
    u_owner_gen sub1 \<noteq> 0"
proof -
  let ?s = "mv_slots m ! i" and ?c = "view_config i"
  have vs: "view_state hp ?s = Some (0, [])" using assms(2,3) by (simp add: view_states_def)
  have P: "ok k" "length (mv_slots m) \<le> 2 ^ 31" "views_ok (mv_slots m) hp" "view_bound bound alloc b0 k i ?s"
    using assms(1,2) unfolding pool_ok_def prod.case by blast+
  have "view_object ?s \<noteq> None" using vs view_state_None by (metis option.distinct(1))
  then have "sl_pub ?s \<noteq> None" by (cases "sl_pub ?s") (simp_all add: view_object_def)
  from views_okD(1)[OF P(3) assms(2) this] obtain b where b: "view_object ?s = Some b" "slot_ok ?c b ?s hp" by blast
  from b(2) obtain p where p: "canvas_ok ?s" "sl_pub ?s = Some p" "pub_at b p hp" "p_cfg p = ?c" "p_pending p = None" "p_min_interval_ns p = 0"
    by (auto simp: slot_ok_def)
  have so: "slot_ok ?c b ?s hp'" if "pub_at b p hp'" for hp' using p that by (auto simp: slot_ok_def)
  have gq: "h_command_owner_gen (m_hdr (hp b)) = 0" "ring_queue ?c Upstream (hp b) = []"
    using vs p(2,4) pub_atD(4)[OF p(3)] by (simp_all add: view_state_def)
  have bd: "bound k (channel_name i) = Some (b, L_total_size (compute_layout ?c))" "b \<noteq> b0" using P(4) b(1) by (simp_all add: view_bound_def)
  have i31: "i < 2 ^ 31" using assms(2) P(2) by linarith
  note des = seg_inv_describes[OF pub_atD(3)[OF p(3)], unfolded p(4)]
  from open_owner[where hp = hp and clk = clk, OF P(1) bd(1) view_cfg_valid[OF i31] des order_refl gq(1)] obtain sub k' t g where
    o: "subscriber_open ops [] (channel_name i) clk k hp = (sub, k', upd_hdr b (\<lambda>_. take_claim g t (m_hdr (hp b))) hp)" (is "_ = (_, _, ?hp1)")
    and c: "attached ?c b sub" "u_owns_commands sub" "u_owner_gen sub = g" and g: "g \<noteq> 0" and k': "ok k'" "bound k' = bound k" "alloc k' = alloc k" by blast
  have at1: "pub_at b p ?hp1" using p(3) by (intro pub_at_owner) (simp_all add: same_but_owner_def)
  have ow: "owner_ok sub (?hp1 b)" using c(2,3) by (simp add: owner_ok_def take_claim_def)
  have q1: "ring_queue ?c Upstream (?hp1 b) = []" using gq(2) by simp
  from page_named[where hp = ?hp1 and uclk = uclk, OF at1 p(4) c(1) ow q1 assms(4)] obtain sub1 hp' where
    r: "(if url = [] then (sub, ?hp1) else case sub_send_text kSetUrl url 0 uclk sub ?hp1 of (_, sub1, hp3) \<Rightarrow> (sub1, hp3)) = (sub1, hp')"
      "attached ?c b sub1" "owner_ok sub1 (hp' b)" "pub_at b p hp'" "\<forall>x. x \<noteq> b \<longrightarrow> hp' x = ?hp1 x"
      "map (\<lambda>x. (cmd_type x, cmd_data x)) (ring_queue ?c Upstream (hp' b)) = (if url = [] then [] else [(kSetUrl, url)])" and gen: "u_owner_gen sub1 = u_owner_gen sub" by blast
  have fr: "\<forall>x. x \<noteq> b \<longrightarrow> hp' x = hp x" using r(5) by (simp add: upd_hdr_def)
  have "pool_ok ok bound alloc b0 (m, k', hp')" by (rule pool_ok_names[OF pool_ok_view[OF assms(1,2) so[OF r(4)] fr] k'])
  moreover have "connected sub" using c(1) by (simp add: connected_def attached_def)
  ultimately show ?thesis using o c(2) r so[OF r(4)] fr bd(2) g[folded c(3), folded gen] by blast
qed

text \<open>The producer answers the one request that is queued.\<close>

lemma request_served:
  assumes "pool_ok ok bound alloc b0 (m, k, hp)" and "ring_queue control_cfg Upstream (hp b0) = [req]" and "cmd_type req = kRequestSlot"
    and "ring_queue control_cfg Downstream (hp b0) = []" and "None \<in> set (view_states (mv_slots m) hp)"
    and "i = length (takeWhile (\<lambda>t. t \<noteq> None) (view_states (mv_slots m) hp))" and "1 < fuel"
  shows "\<exists>m' k' hp' x. drain fuel control_recv (control_handle pf ops now env) (m, k, hp) = Some (m', k', hp') \<and>
    pool_ok ok bound alloc b0 (m', k', hp') \<and> m_hdr (hp' b0) = m_hdr (hp b0) \<and>
    view_states (mv_slots m') hp' = (view_states (mv_slots m) hp)[i := Some (0, [])] \<and> ring_queue control_cfg Upstream (hp' b0) = [] \<and>
    ring_queue control_cfg Downstream (hp' b0) = [x] \<and> reply_view x = (kSlotAssigned, to_le32 (of_nat i), cmd_id req)"
proof -
  have cq: "control_queue b0 (m, k, hp) = [req]" using assms(2) by (simp add: control_queue_def)
  from request_loop[OF assms(1), of fuel now env] cq assms(7) obtain m' k' hp' where
    d: "drain fuel control_recv (control_handle pf ops now env) (m, k, hp) = Some (m', k', hp')" "pool_ok ok bound alloc b0 (m', k', hp')"
      "control_queue b0 (m', k', hp') = []" "m_hdr (hp' b0) = m_hdr (hp b0)"
    and pv: "pool_view b0 (m', k', hp') = pool_step req (pool_view b0 (m, k, hp))" by auto
  have "view_states (mv_slots m') hp' = (view_states (mv_slots m) hp)[i := Some (0, [])] \<and>
      replies control_cfg (hp' b0) = [(kSlotAssigned, to_le32 (of_nat i), cmd_id req)]"
    using pv assms(3-6) by (simp add: pool_view_def pool_step_def replies_def enq_reply_def Let_def)
  then show ?thesis using d by (auto simp: replies_def control_queue_def)
qed

text \<open>A requester whose request is not served in time looks in vain and gives up.\<close>

lemma await_idle:
  assumes "pool_ok ok bound alloc b0 (m, k, hp)" and "attached control_cfg b0 ctrl" and "owner_ok ctrl (hp b0)"
    and "ring_queue control_cfg Downstream (hp b0) = []" and "\<And>j. reply_world e j = id"
    and "reply_start e + kSlotRequestTimeout \<le> reply_now e (i + d)" and "d < n"
  shows "\<exists>hp'. await_reply n e req i ctrl k hp = Some (None, ctrl, k, hp') \<and> pool_ok ok bound alloc b0 (m, k, hp') \<and> owner_ok ctrl (hp' b0) \<and>
    view_states (mv_slots m) hp' = view_states (mv_slots m) hp \<and> (\<forall>d. ring_queue control_cfg d (hp' b0) = ring_queue control_cfg d (hp b0))"
  using assms(1,3,4,6,7)
proof (induction d arbitrary: i n hp)
  case 0
  then show ?case by (cases n) auto
next
  case (Suc d)
  then obtain n' where n: "n = Suc n'" "d < n'" by (cases n) auto
  show ?case
  proof (cases "reply_start e + kSlotRequestTimeout \<le> reply_now e i")
    case True
    then show ?thesis using Suc.prems n by auto
  next
    case False
    let ?hp = "upd_hdr b0 (beat (reply_clk e i 0)) hp"
    have P: "pub_at b0 (mv_control m) hp" "p_cfg (mv_control m) = control_cfg" using Suc.prems(1) by (simp_all add: pool_ok_def)
    have rc: "sub_receive (reply_clk e i) ctrl hp = (None, ctrl, ?hp)"
      using sub_receive_eq[where hp = hp, OF assms(2) pub_atD(3)[OF P(1), unfolded P(2)] Suc.prems(2), of "reply_clk e i"] Suc.prems(3) by simp
    have at: "pub_at b0 (mv_control m) ?hp"
      using pub_at_owner[OF P(1), of "beat (reply_clk e i 0) (m_hdr (hp b0))"] by (simp add: same_but_owner_def beat_def upd_hdr_def)
    have fr: "\<forall>x. x \<noteq> b0 \<longrightarrow> ?hp x = hp x" by (simp add: upd_hdr_def)
    have q: "ring_queue control_cfg d (?hp b0) = ring_queue control_cfg d (hp b0)" for d by simp
    have ow: "owner_ok ctrl (?hp b0)" using Suc.prems(2) by simp
    have dn: "ring_queue control_cfg Downstream (?hp b0) = []" using Suc.prems(3) q by metis
    have late: "reply_start e + kSlotRequestTimeout \<le> reply_now e (Suc i + d)" using Suc.prems(4) by simp
    have step: "await_reply n e req i ctrl k hp = await_reply n' e req (Suc i) ctrl k ?hp" using False rc assms(5)[of i] n(1) by simp
    show ?thesis using Suc.IH[OF pool_ok_control[OF Suc.prems(1) at fr] ow dn late n(2)]
      unfolding step view_states_frame[OF Suc.prems(1) fr] q .
  qed
qed

text \<open>The whole handshake, with the producer at work between the request and the first look for a reply.\<close>

lemma request_granted:
  assumes "pool_ok ok bound alloc b0 (m, k, hp)"
    and "h_command_owner_gen (m_hdr (hp b0)) = 0" and "\<And>d. ring_queue control_cfg d (hp b0) = []"
    and "None \<in> set (view_states (mv_slots m) hp)" and "i = length (takeWhile (\<lambda>t. t \<noteq> None) (view_states (mv_slots m) hp))"
    and "claim_world e 0 = id" and "claim_evs e 0 = []" and "reply_now e 0 < reply_start e + kSlotRequestTimeout"
    and "reply_world e 0 = serves fuel pf ops now env m" and "1 < fuel"
  shows "\<exists>m' k' hp' st st'. request_index (Suc n) ops e k hp = Some (Inr (of_nat i), k', hp') \<and>
    drain fuel control_recv (control_handle pf ops now env) (m, st) = Some (m', st') \<and>
    pool_ok ok bound alloc b0 (m', k', hp') \<and> view_states (mv_slots m') hp' = (view_states (mv_slots m) hp)[i := Some (0, [])] \<and>
    h_command_owner_gen (m_hdr (hp' b0)) = 0 \<and> (\<forall>d. ring_queue control_cfg d (hp' b0) = [])"
proof -
  let ?req = "mk_command kRequestSlot [] 1 0 (request_clk e 1)"
  have "length (ring_queue control_cfg Upstream (hp b0)) < 64" by (simp add: assms(3))
  from request_sent[OF assms(1-2) this _ assms(7), of "(k, hp)" n] assms(6) obtain ctrl k1 hp1 ctrl1 hp2 where
    s: "claim_control (Suc n) ops e 0 k hp = Some (Inr ctrl, k1, hp1)"
      "sub_send kRequestSlot None 0 0 (request_clk e) ctrl hp1 = (Some 1, ctrl1, hp2)"
    and c: "attached control_cfg b0 ctrl1" "owner_ok ctrl1 (hp2 b0)" and ok2: "pool_ok ok bound alloc b0 (m, k1, hp2)"
    and v2: "view_states (mv_slots m) hp2 = view_states (mv_slots m) hp"
    and q2: "ring_queue control_cfg Upstream (hp2 b0) = [?req]" "ring_queue control_cfg Downstream (hp2 b0) = []"
    by (auto simp: assms(3))
  have "None \<in> set (view_states (mv_slots m) hp2)" "i = length (takeWhile (\<lambda>t. t \<noteq> None) (view_states (mv_slots m) hp2))"
    using assms(4,5) by (simp_all only: v2)
  from request_served[OF ok2 q2(1) _ q2(2) this assms(10), of now env] obtain m' k2 hp3 x where
    d: "drain fuel control_recv (control_handle pf ops now env) (m, k1, hp2) = Some (m', k2, hp3)"
    and ok3: "pool_ok ok bound alloc b0 (m', k2, hp3)" and h3: "m_hdr (hp3 b0) = m_hdr (hp2 b0)"
    and v3: "view_states (mv_slots m') hp3 = (view_states (mv_slots m) hp)[i := Some (0, [])]"
    and q3: "ring_queue control_cfg Upstream (hp3 b0) = []"
    and x: "ring_queue control_cfg Downstream (hp3 b0) = [x]" "cmd_type x = kSlotAssigned" "cmd_data x = to_le32 (of_nat i)" "cmd_reply_to x = 1"
    by (auto simp: v2 reply_view_def mk_command_def)
  have ow: "owner_ok ctrl1 (hp3 b0)" using c(2) h3 by (simp add: owner_ok_def)
  have w: "reply_world e 0 (k1, hp2) = (k2, hp3)" using d assms(9) by (simp add: serves_def)
  from reply_taken[OF ok3 c(1) ow x(1,4) assms(8) w, of n] obtain ctrl2 hp4 k' hp' where
    r: "await_reply (Suc n) e 1 0 ctrl1 k1 hp2 = Some (Some x, ctrl2, k2, hp4)" "subscriber_destroy ops ctrl2 k2 hp4 = (k', hp')"
      "pool_ok ok bound alloc b0 (m', k', hp')" "h_command_owner_gen (m_hdr (hp' b0)) = 0"
      "view_states (mv_slots m') hp' = view_states (mv_slots m') hp3"
      "ring_queue control_cfg Upstream (hp' b0) = []" "ring_queue control_cfg Downstream (hp' b0) = []"
    using q3 by auto
  have "request_index (Suc n) ops e k hp = Some (Inr (of_nat i), k', hp')"
    unfolding request_index_def using s r(1,2) x(2,3) u32.delivered_value[of "of_nat i"] by (simp del: claim_control.simps await_reply.simps)
  moreover have "ring_queue control_cfg dir (hp' b0) = []" for dir using r(6,7) by (cases dir) simp_all
  ultimately show ?thesis using d r(3-5) v3 by metis
qed

text \<open>A reply to another requester's first request, as met by the next one.\<close>

lemma answer_taken:
  assumes "pool_ok ok bound alloc b0 (m, k, hp)" and "ring_queue control_cfg Upstream (hp b0) = [req]"
    and "cmd_type req = kRequestSlot \<and> cmd_id req = 1" and "ring_queue control_cfg Downstream (hp b0) = []"
    and "None \<in> set (view_states (mv_slots m) hp)" and "i = length (takeWhile (\<lambda>t. t \<noteq> None) (view_states (mv_slots m) hp))" and "1 < fuel"
    and "h_command_owner_gen (m_hdr (hp b0)) = 0" and "claim_world e 0 = serves fuel pf ops now env m" and "claim_evs e 0 = []"
    and "reply_now e 0 < reply_start e + kSlotRequestTimeout" and "reply_world e 0 = id"
  shows "\<exists>k' hp'. request_index (Suc n) ops e k hp = Some (Inr (of_nat i), k', hp') \<and>
    ring_queue control_cfg Upstream (hp' b0) = [mk_command kRequestSlot [] 1 0 (request_clk e 1)]"
proof -
  from request_served[OF assms(1,2) conjunct1[OF assms(3)] assms(4-7), of now env] assms(3) obtain m' k1 hp1 x where
    d: "drain fuel control_recv (control_handle pf ops now env) (m, k, hp) = Some (m', k1, hp1)" "pool_ok ok bound alloc b0 (m', k1, hp1)"
      "m_hdr (hp1 b0) = m_hdr (hp b0)" "ring_queue control_cfg Upstream (hp1 b0) = []" "ring_queue control_cfg Downstream (hp1 b0) = [x]"
    and x: "cmd_type x = kSlotAssigned" "cmd_data x = to_le32 (of_nat i)" "cmd_reply_to x = 1"
    by (auto simp: reply_view_def)
  have w: "claim_world e 0 (k, hp) = (k1, hp1)" using d(1) assms(9) by (simp add: serves_def)
  have g: "h_command_owner_gen (m_hdr (hp1 b0)) = 0" "length (ring_queue control_cfg Upstream (hp1 b0)) < 64" using d(3,4) assms(8) by simp_all
  from request_sent[OF d(2) g w assms(10), of n] d(4,5) obtain ctrl k2 hp2 ctrl1 hp3 where
    s: "claim_control (Suc n) ops e 0 k hp = Some (Inr ctrl, k2, hp2)"
      "sub_send kRequestSlot None 0 0 (request_clk e) ctrl hp2 = (Some 1, ctrl1, hp3)"
    and c: "attached control_cfg b0 ctrl1" "owner_ok ctrl1 (hp3 b0)" and ok3: "pool_ok ok bound alloc b0 (m', k2, hp3)"
    and q3: "ring_queue control_cfg Upstream (hp3 b0) = [mk_command kRequestSlot [] 1 0 (request_clk e 1)]"
      "ring_queue control_cfg Downstream (hp3 b0) = [x]" by auto
  have "reply_world e 0 (k2, hp3) = (k2, hp3)" using assms(12) by simp
  from reply_taken[OF ok3 c q3(2) x(3) assms(11) this, of n] obtain ctrl2 hp4 k' hp' where
    r: "await_reply (Suc n) e 1 0 ctrl1 k2 hp3 = Some (Some x, ctrl2, k2, hp4)" "subscriber_destroy ops ctrl2 k2 hp4 = (k', hp')"
      "ring_queue control_cfg Upstream (hp' b0) = ring_queue control_cfg Upstream (hp3 b0)" by auto
  have "request_index (Suc n) ops e k hp = Some (Inr (of_nat i), k', hp')"
    unfolding request_index_def using s r(1,2) x(1,2) u32.delivered_value[of "of_nat i"] by (simp del: claim_control.simps await_reply.simps)
  then show ?thesis using r(3) q3(1) by metis
qed

end

lemma index_word: "i < 2 ^ 31 \<Longrightarrow> unat (of_nat i :: u32) = i" "i < 2 ^ 31 \<Longrightarrow> sint (of_nat i :: u32) = int i"
  by (simp_all add: unat_of_nat32 signed_of_nat take_bit_nat_eq_self signed_take_bit_int_eq_self)

text \<open>Surroundings without contention.\<close>

definition demo_surroundings :: "(nat \<Rightarrow> 'k \<times> heap \<Rightarrow> 'k \<times> heap) \<Rightarrow> (nat \<Rightarrow> 'k \<times> heap \<Rightarrow> 'k \<times> heap) \<Rightarrow> int \<Rightarrow> 'k surroundings" where
  "demo_surroundings cw rw t = \<lparr>claim_evs = \<lambda>_. [], claim_clk = \<lambda>_ _. 7, claim_start = 0, claim_now = \<lambda>_. 0, claim_world = cw,
     request_clk = \<lambda>_. 8, reply_clk = \<lambda>_ _. 8, reply_start = 0, reply_now = \<lambda>_. t, reply_world = rw,
     view_world = id, view_evs = [], view_clk = \<lambda>_. 9, url_clk = \<lambda>_. 10\<rparr>"

lemma demo_pool:
  obtains m k hp b0 where "producer_start Posix posix_ops 2 0 (\<lambda>_. 5) 9 posix_empty (\<lambda>_. smem_zero) = (Inr m, k, hp)"
    "pool_ok posix_ok posix_bound posix_alloc b0 (m, k, hp)" "h_command_owner_gen (m_hdr (hp b0)) = 0"
    "\<And>d. ring_queue control_cfg d (hp b0) = []" "view_states (mv_slots m) hp = [None, None]"
proof -
  from pool_started[OF posix.segment_store_axioms posix_empty_ok, of 2 2 0 "\<lambda>_. 5" 9 "\<lambda>_. smem_zero"] obtain m k hp b0 where
    s: "producer_start Posix posix_ops 2 0 (\<lambda>_. 5) 9 posix_empty (\<lambda>_. smem_zero) = (Inr m, k, hp)"
    and p: "pool_ok posix_ok posix_bound posix_alloc b0 (m, k, hp)" "mv_slots m = replicate 2 Slot_new"
      "\<And>d. ring_queue control_cfg d (hp b0) = []" "h_command_owner_gen (m_hdr (hp b0)) = 0" by (auto simp: posix_empty_bound)
  have "view_states (mv_slots m) hp = [None, None]" by (simp add: p(2) view_states_def view_state_def Slot_new_def numeral_eq_Suc)
  then show ?thesis using that[OF s p(1,4,3)] by blast
qed

text \<open>The whole handshake, with a producer that serves its control channel.\<close>

lemma view_obtained:
  assumes "unlinking_store ok bound alloc pf ops" and "pool_ok ok bound alloc b0 (m, k, hp)"
    and "h_command_owner_gen (m_hdr (hp b0)) = 0" and "\<And>d. ring_queue control_cfg d (hp b0) = []"
    and "None \<in> set (view_states (mv_slots m) hp)" and "i = length (takeWhile (\<lambda>t. t \<noteq> None) (view_states (mv_slots m) hp))"
    and "claim_world e 0 = id" and "claim_evs e 0 = []" and "reply_now e 0 < reply_start e + kSlotRequestTimeout"
    and "reply_world e 0 = serves fuel pf ops now env m" and "1 < fuel" and "view_world e = id" and "view_evs e = []" and "length url \<le> 512"
  shows "\<exists>cs' k' hp' m' st st' b. connectToProducer (Suc n) ops e url cs k hp = Some ((None, cs'), k', hp') \<and> mSlotIndex cs' = int i \<and>
    drain fuel control_recv (control_handle pf ops now env) (m, st) = Some (m', st') \<and> linked i b (mv_slots m' ! i) cs' hp' \<and>
    map (\<lambda>x. (cmd_type x, cmd_data x)) (ring_queue (view_config i) Upstream (hp' b)) = (if url = [] then [] else [(kSetUrl, url)]) \<and>
    pool_ok ok bound alloc b0 (m', k', hp') \<and> h_command_owner_gen (m_hdr (hp' b0)) = 0 \<and> (\<forall>d. ring_queue control_cfg d (hp' b0) = []) \<and>
    (\<exists>sub. mSub cs' = Some sub \<and> u_owner_gen sub \<noteq> 0)"
proof -
  let ?ts = "view_states (mv_slots m) hp"
  from unlinking_store.request_granted[OF assms(1-11), of n] obtain m' k1 hp1 st st' where
    r: "request_index (Suc n) ops e k hp = Some (Inr (of_nat i), k1, hp1)"
      "drain fuel control_recv (control_handle pf ops now env) (m, st) = Some (m', st')"
    and ok1: "pool_ok ok bound alloc b0 (m', k1, hp1)" and vs: "view_states (mv_slots m') hp1 = ?ts[i := Some (0, [])]"
    and ctl: "h_command_owner_gen (m_hdr (hp1 b0)) = 0" "\<forall>d. ring_queue control_cfg d (hp1 b0) = []" by blast
  have len: "length (mv_slots m') = length (mv_slots m)" using arg_cong[OF vs, of length] by (simp add: view_states_def)
  have "first_free 0 (mv_slots m) = Some i" using first_free_view_states(1)[OF assms(2)] assms(5,6) by simp
  then have i: "i < length (mv_slots m)" using first_free_view_states(2)[OF assms(2)] by blast
  have "length (mv_slots m) \<le> 2 ^ 31" using assms(2) by (simp add: pool_ok_def)
  with i have i31: "i < 2 ^ 31" by linarith
  have at: "view_states (mv_slots m') hp1 ! i = Some (0, [])" using vs i by (simp add: view_states_def)
  have "i < length (mv_slots m')" using i len by simp
  from unlinking_store.view_claimed[OF assms(1) ok1 this at assms(14), of "view_clk e" "url_clk e"] obtain sub k' hp2 sub1 hp' b where
    v: "subscriber_open ops [] (channel_name i) (view_clk e) k1 hp1 = (sub, k', hp2)" "connected sub" "u_owns_commands sub"
      "(if url = [] then (sub, hp2) else case sub_send_text kSetUrl url 0 (url_clk e) sub hp2 of (_, sub1, hp3) \<Rightarrow> (sub1, hp3)) = (sub1, hp')"
    and w: "attached (view_config i) b sub1" "owner_ok sub1 (hp' b)" "slot_ok (view_config i) b (mv_slots m' ! i) hp'"
      "pool_ok ok bound alloc b0 (m', k', hp')" "\<forall>x. x \<noteq> b \<longrightarrow> hp' x = hp1 x" "b \<noteq> b0"
      "map (\<lambda>x. (cmd_type x, cmd_data x)) (ring_queue (view_config i) Upstream (hp' b)) = (if url = [] then [] else [(kSetUrl, url)])" and gen: "u_owner_gen sub1 \<noteq> 0" by blast
  have idx: "unat (of_nat i :: u32) = i" "sint (of_nat i :: u32) = int i" using i31 index_word by simp_all
  let ?cs = "cs\<lparr>mSub := Some sub1, mSlotIndex := int i\<rparr>"
  have "connectToProducer (Suc n) ops e url cs k hp = Some ((None, ?cs), k', hp')"
    unfolding connectToProducer_def r(1) using v assms(12,13) idx by (simp del: if_split_asm split del: if_split)
  moreover have "linked i b (mv_slots m' ! i) ?cs hp'" using w(1-3) by (simp add: linked_def)
  moreover have "hp' b0 = hp1 b0" using w(5,6) by auto
  ultimately show ?thesis using r(2) w(4,7) ctl gen by (intro exI[of _ ?cs] exI[of _ k'] exI[of _ hp'] exI[of _ m'] exI[of _ st] exI[of _ st'] exI[of _ b]) simp
qed

section \<open>Properties\<close>

text \<open>
  C27.  A new window gets a view.  On POSIX, when the control channel is free and quiet, an index is free and the producer serves the request,
  \<open>connectToProducer\<close> succeeds: the consumer owns the command channel of the lowest free index, whose slot the producer has
  allocated and which has nothing queued but the start page; the producer's pool is in order, and the control channel is free and
  quiet again for the next one.
\<close>

theorem connect_gets_view:
  assumes "unlinking_store ok bound alloc pf ops" and "pool_ok ok bound alloc b0 (m, k, hp)"
    and "h_command_owner_gen (m_hdr (hp b0)) = 0" and "\<And>d. ring_queue control_cfg d (hp b0) = []"
    and "None \<in> set (view_states (mv_slots m) hp)" and "i = length (takeWhile (\<lambda>t. t \<noteq> None) (view_states (mv_slots m) hp))"
    and "claim_world e 0 = id" and "claim_evs e 0 = []" and "reply_now e 0 < reply_start e + kSlotRequestTimeout"
    and "reply_world e 0 = serves fuel pf ops now env m" and "1 < fuel" and "view_world e = id" and "view_evs e = []" and "length url \<le> 512"
  shows "\<exists>cs' k' hp' m' st st' b. connectToProducer (Suc n) ops e url cs k hp = Some ((None, cs'), k', hp') \<and> mSlotIndex cs' = int i \<and>
    drain fuel control_recv (control_handle pf ops now env) (m, st) = Some (m', st') \<and> linked i b (mv_slots m' ! i) cs' hp' \<and>
    map (\<lambda>x. (cmd_type x, cmd_data x)) (ring_queue (view_config i) Upstream (hp' b)) = (if url = [] then [] else [(kSetUrl, url)]) \<and>
    pool_ok ok bound alloc b0 (m', k', hp') \<and> h_command_owner_gen (m_hdr (hp' b0)) = 0 \<and> (\<forall>d. ring_queue control_cfg d (hp' b0) = [])"
  using view_obtained[OF assms, of n] by blast

theorem connect_gets_view_witness:
  "\<exists>m k hp e cs' k' hp' b. producer_start Posix posix_ops 2 0 (\<lambda>_. 5) 9 posix_empty (\<lambda>_. smem_zero) = (Inr m, k, hp) \<and>
    connectToProducer 1 posix_ops e (bytes_of ''red'') consumer_new k hp = Some ((None, cs'), k', hp') \<and> mSlotIndex cs' = 0 \<and>
    map (\<lambda>x. (cmd_type x, cmd_data x)) (ring_queue (view_config 0) Upstream (hp' b)) = [(kSetUrl, bytes_of ''red'')]"
proof -
  obtain m k hp b0 where s: "producer_start Posix posix_ops 2 0 (\<lambda>_. 5) 9 posix_empty (\<lambda>_. smem_zero) = (Inr m, k, hp)"
    and p: "pool_ok posix_ok posix_bound posix_alloc b0 (m, k, hp)" "h_command_owner_gen (m_hdr (hp b0)) = 0"
      "\<And>d. ring_queue control_cfg d (hp b0) = []" "view_states (mv_slots m) hp = [None, None]" by (rule demo_pool) blast
  let ?e = "demo_surroundings (\<lambda>_. id) (\<lambda>_. serves 2 Posix posix_ops 3 (\<lambda>_. (\<lambda>_. 6, 9, \<lambda>_. 7)) m) 0"
  have free: "None \<in> set (view_states (mv_slots m) hp)" "0 = length (takeWhile (\<lambda>t. t \<noteq> None) (view_states (mv_slots m) hp))" by (simp_all add: p(4))
  have "\<exists>cs' k' hp' m' st st' b. connectToProducer (Suc 0) posix_ops ?e (bytes_of ''red'') consumer_new k hp = Some ((None, cs'), k', hp') \<and>
      mSlotIndex cs' = int 0 \<and>
      drain 2 control_recv (control_handle Posix posix_ops 3 (\<lambda>_. (\<lambda>_. 6, 9, \<lambda>_. 7))) (m, st) = Some (m', st') \<and> linked 0 b (mv_slots m' ! 0) cs' hp' \<and>
      map (\<lambda>x. (cmd_type x, cmd_data x)) (ring_queue (view_config 0) Upstream (hp' b)) =
        (if bytes_of ''red'' = [] then [] else [(kSetUrl, bytes_of ''red'')]) \<and>
      pool_ok posix_ok posix_bound posix_alloc b0 (m', k', hp') \<and> h_command_owner_gen (m_hdr (hp' b0)) = 0 \<and> (\<forall>d. ring_queue control_cfg d (hp' b0) = [])"
    by (rule connect_gets_view[OF posix.unlinking_store_axioms p(1-3) free]) (simp_all add: demo_surroundings_def kSlotRequestTimeout_def)
  moreover have "bytes_of ''red'' \<noteq> []" by (simp add: bytes_of_def)
  ultimately obtain cs' k' hp' b where "connectToProducer 1 posix_ops ?e (bytes_of ''red'') consumer_new k hp = Some ((None, cs'), k', hp')"
    "mSlotIndex cs' = 0" "map (\<lambda>x. (cmd_type x, cmd_data x)) (ring_queue (view_config 0) Upstream (hp' b)) = [(kSetUrl, bytes_of ''red'')]"
    unfolding One_nat_def int_ops(1) by (simp only: if_False) (elim exE conjE)
  with s show ?thesis by (intro exI conjI)
qed

text \<open>
  C40.  A late reply goes to the wrong requester.  Every requester's first id is 1, and replies stay in the ring when a requester leaves.  So when
  a request is answered only after its sender has given up, the next requester takes that answer for its own, at once, while
  its own request is still queued: its answer will in turn meet the requester after it.
\<close>

theorem late_reply_misdelivered:
  assumes "unlinking_store ok bound alloc pf ops" and "pool_ok ok bound alloc b0 (m, k, hp)"
    and "h_command_owner_gen (m_hdr (hp b0)) = 0" and "\<And>d. ring_queue control_cfg d (hp b0) = []"
    and "None \<in> set (view_states (mv_slots m) hp)" and "i = length (takeWhile (\<lambda>t. t \<noteq> None) (view_states (mv_slots m) hp))"
    and "claim_world e 0 = id" and "claim_evs e 0 = []" and "\<And>j. reply_world e j = id"
    and "reply_start e + kSlotRequestTimeout \<le> reply_now e d" and "d \<le> n"
    and "claim_world e2 0 = serves fuel pf ops now env m" and "1 < fuel" and "claim_evs e2 0 = []"
    and "reply_now e2 0 < reply_start e2 + kSlotRequestTimeout" and "reply_world e2 0 = id"
  shows "\<exists>k1 hp1 k2 hp2 r. request_index (Suc n) ops e k hp = Some (Inl No_Reply, k1, hp1) \<and>
    request_index (Suc n) ops e2 k1 hp1 = Some (Inr (of_nat i), k2, hp2) \<and>
    ring_queue control_cfg Upstream (hp2 b0) = [r] \<and> cmd_type r = kRequestSlot \<and> cmd_id r = 1"
proof -
  let ?req = "mk_command kRequestSlot [] 1 0 (request_clk e 1)"
  note store = assms(1)
  have "length (ring_queue control_cfg Upstream (hp b0)) < 64" by (simp add: assms(4))
  from unlinking_store.request_sent[OF store assms(2,3) this _ assms(8), of "(k, hp)" n] assms(7) obtain ctrl k1 hp1 ctrl1 hp2 where
    s: "claim_control (Suc n) ops e 0 k hp = Some (Inr ctrl, k1, hp1)"
      "sub_send kRequestSlot None 0 0 (request_clk e) ctrl hp1 = (Some 1, ctrl1, hp2)"
    and c: "attached control_cfg b0 ctrl1" "owner_ok ctrl1 (hp2 b0)" and ok2: "pool_ok ok bound alloc b0 (m, k1, hp2)"
    and v2: "view_states (mv_slots m) hp2 = view_states (mv_slots m) hp"
    and q2: "ring_queue control_cfg Upstream (hp2 b0) = [?req]" "ring_queue control_cfg Downstream (hp2 b0) = []"
    by (auto simp: assms(4))
  have d: "reply_start e + kSlotRequestTimeout \<le> reply_now e (0 + d)" "d < Suc n" using assms(10,11) by simp_all
  from unlinking_store.await_idle[OF store ok2 c q2(2) assms(9) d, of 1] obtain hp3 where
    a: "await_reply (Suc n) e 1 0 ctrl1 k1 hp2 = Some (None, ctrl1, k1, hp3)" "pool_ok ok bound alloc b0 (m, k1, hp3)" "owner_ok ctrl1 (hp3 b0)"
      "view_states (mv_slots m) hp3 = view_states (mv_slots m) hp2" "\<forall>d. ring_queue control_cfg d (hp3 b0) = ring_queue control_cfg d (hp2 b0)" by blast
  from unlinking_store.control_released[OF store a(2) c(1) a(3)] obtain k4 hp4 where
    r: "subscriber_destroy ops ctrl1 k1 hp3 = (k4, hp4)" "pool_ok ok bound alloc b0 (m, k4, hp4)" "h_command_owner_gen (m_hdr (hp4 b0)) = 0"
      "view_states (mv_slots m) hp4 = view_states (mv_slots m) hp3" "\<forall>d. ring_queue control_cfg d (hp4 b0) = ring_queue control_cfg d (hp3 b0)" by blast
  have first: "request_index (Suc n) ops e k hp = Some (Inl No_Reply, k4, hp4)"
    unfolding request_index_def using s a(1) r(1) by (simp del: claim_control.simps await_reply.simps)
  have v4: "view_states (mv_slots m) hp4 = view_states (mv_slots m) hp" using r(4) a(4) v2 by simp
  have q4: "ring_queue control_cfg Upstream (hp4 b0) = [?req]" "ring_queue control_cfg Downstream (hp4 b0) = []" using r(5) a(5) q2 by simp_all
  have "\<exists>k2 hp2 q. request_index (Suc n) ops e2 k4 hp4 = Some (Inr (of_nat i), k2, hp2) \<and>
      ring_queue control_cfg Upstream (hp2 b0) = [mk_command kRequestSlot [] 1 0 (request_clk e2 1)]"
    using unlinking_store.answer_taken[OF store r(2) q4(1) _ q4(2) assms(5,6)[folded v4] assms(13) r(3) assms(12,14-16)] by (simp add: mk_command_def)
  with first show ?thesis by (auto simp: mk_command_def)
qed

theorem late_reply_misdelivered_witness:
  "\<exists>m k hp b0 e e2 k1 hp1 k2 hp2 r. producer_start Posix posix_ops 2 0 (\<lambda>_. 5) 9 posix_empty (\<lambda>_. smem_zero) = (Inr m, k, hp) \<and>
    request_index 1 posix_ops e k hp = Some (Inl No_Reply, k1, hp1) \<and> request_index 1 posix_ops e2 k1 hp1 = Some (Inr 0, k2, hp2) \<and>
    ring_queue control_cfg Upstream (hp2 b0) = [r] \<and> cmd_type r = kRequestSlot"
proof -
  obtain m k hp b0 where s: "producer_start Posix posix_ops 2 0 (\<lambda>_. 5) 9 posix_empty (\<lambda>_. smem_zero) = (Inr m, k, hp)"
    and p: "pool_ok posix_ok posix_bound posix_alloc b0 (m, k, hp)" "h_command_owner_gen (m_hdr (hp b0)) = 0"
      "\<And>d. ring_queue control_cfg d (hp b0) = []" "view_states (mv_slots m) hp = [None, None]" by (rule demo_pool) blast
  let ?e = "demo_surroundings (\<lambda>_. id) (\<lambda>_. id) 2000000000"
    and ?f = "demo_surroundings (\<lambda>_. serves 2 Posix posix_ops 3 (\<lambda>_. (\<lambda>_. 6, 9, \<lambda>_. 7)) m) (\<lambda>_. id) 0"
  have free: "None \<in> set (view_states (mv_slots m) hp)" "0 = length (takeWhile (\<lambda>t. t \<noteq> None) (view_states (mv_slots m) hp))" by (simp_all add: p(4))
  have "\<exists>k1 hp1 k2 hp2 r. request_index (Suc 0) posix_ops ?e k hp = Some (Inl No_Reply, k1, hp1) \<and>
      request_index (Suc 0) posix_ops ?f k1 hp1 = Some (Inr (of_nat 0), k2, hp2) \<and>
      ring_queue control_cfg Upstream (hp2 b0) = [r] \<and> cmd_type r = kRequestSlot \<and> cmd_id r = 1"
    by (rule late_reply_misdelivered[where d = 0 and fuel = 2, OF posix.unlinking_store_axioms p(1-3) free])
      (simp_all add: demo_surroundings_def kSlotRequestTimeout_def)
  then obtain k1 hp1 k2 hp2 r where "request_index 1 posix_ops ?e k hp = Some (Inl No_Reply, k1, hp1)"
    "request_index 1 posix_ops ?f k1 hp1 = Some (Inr 0, k2, hp2)" "ring_queue control_cfg Upstream (hp2 b0) = [r]" "cmd_type r = kRequestSlot"
    unfolding One_nat_def semiring_1_class.of_nat_0 by (elim exE conjE)
  with s show ?thesis by blast
qed

end
