(* ===== verification/Multiview_Session.thy ===== *)
theory Multiview_Session
  imports Multiview_Consumer
begin

text \<open>
  The producer and the consumer of a view at work together: an event of the window, a pass of the producer over the slot, its publish pass, and
  the next turn of the window.  Then the window's loop on its own, whatever the other processes do.
\<close>

section \<open>One round\<close>

text \<open>The commands that are waiting are obeyed, the canvas is published, and the window shows it if it has the texture's size.\<close>

lemma round_shown:
  assumes "linked i b s cs hp" and "mSub cs = Some sub" and "sl_pub s = Some p"
    and "length (ring_queue (view_config i) Upstream (hp b)) < fuel" and "u_owner_gen sub \<noteq> 0"
    and "sclk 0 - h_command_owner_heartbeat_ns (m_hdr (hp b)) < kCommandOwnerStaleNs"
    and "unat (p_frame_id p) + 1 < 2 ^ 62" and "u_last_frame sub \<noteq> p_frame_id p + 1" and "u_min_read_ns sub = 0"
    and "pclk 0 - u_last_progress sub < u_stale_ns sub" and "qclk 0 - u_last_progress sub < u_stale_ns sub"
    and "length (mFrameBuf cs) \<le> 8294400"
  shows "\<exists>s1 hp1 s2 hp2 line cs' hp3. slot_service fuel pf ops now sclk rnd s k hp = Some (s1, k, hp1) \<and>
    slot_publish wclk s1 hp1 = (s2, hp2) \<and> update ops evs pclk qclk rclk calm cs k hp2 = (line, cs', k, hp3) \<and>
    linked i b s2 cs' hp3 \<and> canvas_ok s1 \<and>
    Option.bind (fold slot_obey (ring_queue (view_config i) Upstream (hp b)) (Some (slot_attend now (rnd 0) True (s\<lparr>sl_pub := None\<rparr>))))
      (slot_regen now (\<lambda>i. rnd (Suc i))) = Some (s1\<lparr>sl_pub := None\<rparr>) \<and>
    upload cs' = (if mTextureWidth cs = sl_width s1 \<and> mTextureHeight cs = sl_height s1 then Some (Some (sl_canvas s1)) else None)"
proof -
  have so: "slot_ok (view_config i) b s hp" and at: "attached (view_config i) b sub" "owner_ok sub (hp b)"
    using assms(1,2) by (auto simp: linked_def)
  have gen: "has_subscriber p hp" using slot_gone_iff(2)[OF so assms(3)] at(2) assms(5) by (simp add: owner_ok_def)
  have "\<not> slot_gone 0 sclk s (m_hdr (hp b))" using at(2) assms(5,6) by (simp add: slot_gone_def owner_ok_def not_le)
  then have "\<not> command_owner_stale sclk p hp" using slot_gone_iff(1)[OF so assms(3)] gen by blast
  with slot_kept[OF so assms(3,4), of sclk now pf ops rnd k] gen obtain s1 hp1 where
    v: "slot_service fuel pf ops now sclk rnd s k hp = Some (s1, k, hp1)" "slot_ok (view_config i) b s1 hp1" "m_hdr (hp1 b) = m_hdr (hp b)"
      "Option.bind (fold slot_obey (ring_queue (view_config i) Upstream (hp b)) (Some (slot_attend now (rnd 0) True (s\<lparr>sl_pub := None\<rparr>))))
        (slot_regen now (\<lambda>i. rnd (Suc i))) = Some (s1\<lparr>sl_pub := None\<rparr>)"
    and f: "map_option p_frame_id (sl_pub s1) = Some (p_frame_id p)" by auto
  from f obtain p1 where p1: "sl_pub s1 = Some p1" "p_frame_id p1 = p_frame_id p" by auto
  have l1: "linked i b s1 cs hp1" using v(2,3) at assms(2) by (simp add: linked_def owner_ok_def)
  obtain s2 hp2 where w: "slot_publish wclk s1 hp1 = (s2, hp2)" by (cases "slot_publish wclk s1 hp1")
  from picture_step[where pclk = pclk and qclk = qclk and ops = ops and evs = evs and rclk = rclk and k = k,
      OF l1 assms(2) p1(1) w, unfolded p1(2), OF assms(7-12)] obtain line cs' hp3 where
    "update ops evs pclk qclk rclk calm cs k hp2 = (line, cs', k, hp3)" "linked i b s2 cs' hp3"
    "upload cs' = (if mTextureWidth cs = sl_width s1 \<and> mTextureHeight cs = sl_height s1 then Some (Some (sl_canvas s1)) else None)" by blast
  with v w show ?thesis by (auto simp: slot_ok_def)
qed

lemma sent_one_fields [simp]:
  "u_owner_gen (sent_one sub) = u_owner_gen sub" "u_last_frame (sent_one sub) = u_last_frame sub"
  "u_min_read_ns (sent_one sub) = u_min_read_ns sub" "u_last_progress (sent_one sub) = u_last_progress sub"
  "u_stale_ns (sent_one sub) = u_stale_ns sub"
  by (simp_all add: sent_one_def)

lemma slot_size_kept:
  "slot_regen now rnd s = Some s' \<Longrightarrow> sl_width s' = sl_width s \<and> sl_height s' = sl_height s"
  "sl_width (slot_attend now r has_sub s) = sl_width s" "sl_height (slot_attend now r has_sub s) = sl_height s"
  by (auto simp: slot_regen_def slot_attend_def Let_def split: if_splits)

text \<open>The heartbeat of the event itself is what the producer finds.\<close>

lemma event_shown:
  assumes "linked i b s cs hp" and "mSub cs = Some sub" and "sl_pub s = Some p" and "ring_queue (view_config i) Upstream (hp b) = []"
    and "cs' = cs1\<lparr>mSub := map_option sent_one (mSub cs)\<rparr>" and "linked i b s cs' hp'" and "delivers i b t eff hp hp'"
    and "mFrameBuf cs1 = mFrameBuf cs" and "1 < fuel" and "u_owner_gen sub \<noteq> 0" and "sclk 0 - t < kCommandOwnerStaleNs"
    and "unat (p_frame_id p) + 1 < 2 ^ 62" and "u_last_frame sub \<noteq> p_frame_id p + 1" and "u_min_read_ns sub = 0"
    and "pclk 0 - u_last_progress sub < u_stale_ns sub" and "qclk 0 - u_last_progress sub < u_stale_ns sub"
    and "length (mFrameBuf cs) \<le> 8294400"
  shows "\<exists>s1 hp1 s2 hp2 line cs2 hp3. slot_service fuel pf ops now sclk rnd s k hp' = Some (s1, k, hp1) \<and>
    slot_publish wclk s1 hp1 = (s2, hp2) \<and> update ops evs pclk qclk rclk calm cs' k hp2 = (line, cs2, k, hp3) \<and>
    linked i b s2 cs2 hp3 \<and> canvas_ok s1 \<and>
    Option.bind (eff (slot_attend now (rnd 0) True (s\<lparr>sl_pub := None\<rparr>))) (slot_regen now (\<lambda>i. rnd (Suc i))) = Some (s1\<lparr>sl_pub := None\<rparr>) \<and>
    upload cs2 = (if mTextureWidth cs' = sl_width s1 \<and> mTextureHeight cs' = sl_height s1 then Some (Some (sl_canvas s1)) else None)"
proof -
  from assms(4,7) obtain x where q: "ring_queue (view_config i) Upstream (hp' b) = [x]" "\<And>s. slot_command x s = eff s"
    and h: "m_hdr (hp' b) = beat t (m_hdr (hp b))" by (auto simp: delivers_def)
  have sub: "mSub cs' = Some (sent_one sub)" using assms(2,5) by simp
  have pre: "length (ring_queue (view_config i) Upstream (hp' b)) < fuel" "u_owner_gen (sent_one sub) \<noteq> 0"
    "sclk 0 - h_command_owner_heartbeat_ns (m_hdr (hp' b)) < kCommandOwnerStaleNs" "u_last_frame (sent_one sub) \<noteq> p_frame_id p + 1"
    "u_min_read_ns (sent_one sub) = 0" "pclk 0 - u_last_progress (sent_one sub) < u_stale_ns (sent_one sub)"
    "qclk 0 - u_last_progress (sent_one sub) < u_stale_ns (sent_one sub)" "length (mFrameBuf cs') \<le> 8294400"
    using assms(5,8-17) by (simp_all add: q(1) h beat_def)
  have "fold slot_obey [x] (Some v) = eff v" for v by (simp add: slot_obey_def q(2))
  with round_shown[where pclk = pclk and qclk = qclk and fuel = fuel and sclk = sclk,
      OF assms(6) sub assms(3) pre(1-3) assms(12) pre(4-8), of pf ops now rnd k wclk evs rclk]
  show ?thesis unfolding q(1) by simp
qed

text \<open>A mark on a canvas that is not about to be drawn anew.\<close>

lemma slot_marked:
  assumes "canvas_ok s" and "\<not> sl_dirty s" and "now < sl_next_regen s"
  shows "\<exists>c. Option.bind (slot_mark s x y r g b) (slot_regen now rnd) = Some (s\<lparr>sl_canvas := c\<rparr>) \<and>
    (\<forall>px py. px < unat (sl_width s) \<and> py < unat (sl_height s) \<longrightarrow> pixel_at c (sl_width s) px py =
       (if marked (sl_width s) (sl_height s) x y px py then [b, g, r, 255] else pixel_at (sl_canvas s) (sl_width s) px py))"
proof -
  from mark_pixels[OF canvas_okD[OF assms(1)], of x y r g b] obtain c where
    "draw_mark (sl_canvas s) (sl_width s) (sl_height s) x y r g b = Some c"
    "\<forall>px py. px < unat (sl_width s) \<and> py < unat (sl_height s) \<longrightarrow> pixel_at c (sl_width s) px py =
       (if marked (sl_width s) (sl_height s) x y px py then [b, g, r, 255] else pixel_at (sl_canvas s) (sl_width s) px py)" by blast
  then show ?thesis using assms(2,3) by (intro exI[of _ c]) (simp add: slot_mark_def slot_regen_def)
qed

section \<open>The window's loop\<close>

text \<open>A read never shrinks the buffer.\<close>

lemma read_attempts_grow: "length dst \<le> length (fst (snd (read_attempts n a v now m dst)))"
proof (induction n arbitrary: a dst)
  case (Suc n)
  have "length dst \<le> length (copy_out (v a) x y @ drop y dst)" for x y by simp
  then have "length dst \<le> length (fst (snd (read_attempts n (Suc a) v now m (copy_out (v a) x y @ drop y dst))))" for x y
    using Suc.IH[of "copy_out (v a) x y @ drop y dst" "Suc a"] by (meson order_trans)
  moreover have "length dst \<le> x + (length dst - x)" for x by simp
  ultimately show ?case using Suc.IH by (simp add: Let_def)
qed simp

lemma read_vec_grows:
  assumes "read_latest_vec ops evs pclk qclk clk view dst m k hp = ((r, dst', info), m', k', hp')"
  shows "length dst \<le> length dst'"
proof -
  have raw: "length d \<le> length d'" if "read_latest ops evs qclk clk view d m k hp = ((r, d', info), m', k', hp')" for d d' m k hp
    using that read_attempts_grow[of d 4 0]
    by (auto simp: read_latest_def Let_def split: prod.splits bool.splits if_splits option.splits) (metis fst_conv snd_conv)+
  obtain ok m1 k1 hp1 where po: "poll ops evs pclk m k hp = (ok, m1, k1, hp1)" by (metis surj_pair)
  let ?need = "unat (max_payload (u_remote m1))"
  consider "dst' = dst" | d where "read_latest ops evs qclk clk view d m1 k1 hp1 = ((r, dst', info), m', k', hp')" "length dst \<le> length d"
    using assms by (cases "length dst < ?need") (auto simp: read_latest_vec_def po Let_def split: bool.splits if_splits)
  then show ?thesis using raw by cases (auto intro: order_trans)
qed

text \<open>
  A slot whose counter is even describes a picture of four bytes per pixel.  Everything a publisher of such a channel does keeps
  it so; a reader sees it so when a counter that did not move vouches for the fields in between.
\<close>

definition enough :: "LLFrameInfo \<Rightarrow> bool" where
  "enough fi \<longleftrightarrow> unat (fi_width fi) * unat (fi_height fi) * 4 \<le> unat (fi_payload_bytes fi)"

definition whole :: "(addr \<Rightarrow> LLSlotHeader) \<Rightarrow> bool" where
  "whole slots \<longleftrightarrow> (\<forall>s. even (s_seq (slots s)) \<longrightarrow> enough (slot_info (slots s)))"

definition heap_whole :: "heap \<Rightarrow> bool" where
  "heap_whole hp \<longleftrightarrow> (\<forall>b. whole (m_slots (hp b)))"

definition view_whole :: "(nat \<Rightarrow> nat \<Rightarrow> smem) \<Rightarrow> bool" where
  "view_whole v \<longleftrightarrow> (\<forall>a s. let fi = load_info (v a) s in
     even (s_seq (m_slots (v a 1) s)) \<and> s_seq (m_slots (v a (8 + unat (fi_payload_bytes fi))) s) = s_seq (m_slots (v a 1) s) \<longrightarrow> enough fi)"

text \<open>The other processes keep it so between the turns, and the reads of a turn see it so.\<close>

definition turn_whole :: "'k turn \<Rightarrow> bool" where
  "turn_whole t \<longleftrightarrow> (\<forall>k hp. heap_whole hp \<longrightarrow> heap_whole (snd (t_world t (k, hp)))) \<and>
     (\<forall>sm. whole (m_slots sm) \<longrightarrow> view_whole (t_view t sm))"

lemma calm_whole: "whole (m_slots sm) \<Longrightarrow> view_whole (calm sm)"
  by (simp add: view_whole_def calm_def whole_def load_info_def slot_info_def enough_def)

text \<open>A frame that is read is whole, and all of it is in the buffer.\<close>

lemma read_attempts_whole:
  assumes "view_whole v" and "read_attempts n a v now m dst = (Read_Ok, dst', info, m')"
  shows "\<exists>fi. info = Some fi \<and> enough fi \<and> unat (fi_payload_bytes fi) \<le> length dst'"
  using assms(2)
proof (induction n arbitrary: a dst)
  case (Suc n)
  define slot where "slot = (ucast (h_latest (m_hdr (v a 0)) AND 3) :: u32)"
  define s where "s = slot_at (u_L m) slot"
  define fi where "fi = load_info (v a) s"
  have b: "unat (ucast (fi_payload_bytes fi) :: u64) = unat (fi_payload_bytes fi)" by simp
  from assms(1) have w: "even (s_seq (m_slots (v a 1) s)) \<Longrightarrow>
      s_seq (m_slots (v a (8 + unat (fi_payload_bytes fi))) s) = s_seq (m_slots (v a 1) s) \<Longrightarrow> enough fi"
    unfolding view_whole_def Let_def fi_def by blast
  show ?case
    using Suc.prems w Suc.IH unfolding read_attempts.simps Let_def slot_def[symmetric] s_def[symmetric] fi_def[symmetric] b
    by (auto simp: and_one_odd split: if_splits)
qed simp

text \<open>What the consumer itself writes leaves every slot header alone.\<close>

lemma heap_whole_cong: "(\<And>b. m_slots (hp' b) = m_slots (hp b)) \<Longrightarrow> heap_whole hp' = heap_whole hp"
  by (simp add: heap_whole_def)

lemma upd_hdr_slots [simp]: "m_slots (upd_hdr b f hp x) = m_slots (hp x)"
  by (simp add: upd_hdr_def)

lemma still_owns_slots: "still_owns_commands now m hp = (r, m', hp') \<Longrightarrow> m_slots (hp' x) = m_slots (hp x)"
  by (auto simp: still_owns_commands_def split: if_splits option.splits)

lemma try_connect_slots: "try_connect ops evs clk m k hp = (r, m', k', hp') \<Longrightarrow> m_slots (hp' x) = m_slots (hp x)"
  by (auto simp: try_connect_def Let_def split: if_splits option.splits prod.splits)

lemma poll_slots:
  assumes "poll ops evs clk m k hp = (r, m', k', hp')"
  shows "m_slots (hp' x) = m_slots (hp x)"
proof -
  obtain m1 hp1 where o: "(if u_hdr m \<noteq> None then snd (still_owns_commands (clk 1) m hp) else (m, hp)) = (m1, hp1)" by force
  have e: "m_slots (hp1 x) = m_slots (hp x)"
    using o still_owns_slots[of "clk 1" m hp] by (cases "still_owns_commands (clk 1) m hp") (auto split: if_splits)
  obtain r2 m2 k2 hp2 where t: "try_connect ops evs (\<lambda>i. clk (4 + i)) (m1\<lparr>u_last_attempt := clk 0\<rparr>) k hp1 = (r2, m2, k2, hp2)"
    by (metis surj_pair)
  show ?thesis using assms[unfolded poll_def Let_def o prod.case t] e try_connect_slots[OF t, of x] by (auto split: if_splits)
qed

lemma push_slots: "push r ty data sz cid rt ts hp = (ok, hp') \<Longrightarrow> m_slots (hp' x) = m_slots (hp x)"
  by (auto simp: push_def Let_def split: if_splits option.splits)

lemma consumer_send_slots:
  assumes "consumer_send ty data n clk cs hp = (cs', hp')"
  shows "m_slots (hp' x) = m_slots (hp x)"
proof (cases "mSub cs")
  case None
  then show ?thesis using assms by (simp add: consumer_send_def)
next
  case (Some sub)
  obtain r m1 hp1 where o: "still_owns_commands (clk 0) sub hp = (r, m1, hp1)" by (metis surj_pair)
  obtain ok hp2 where p: "push (u_tx m1) ty data n (u_next_cmd m1) 0 (clk 1) hp1 = (ok, hp2)" by force
  have "m_slots (hp2 x) = m_slots (hp x)" "m_slots (hp1 x) = m_slots (hp x)"
    using push_slots[OF p, of x] still_owns_slots[OF o, of x] by simp_all
  then show ?thesis using assms o p by (auto simp: consumer_send_def Some sub_send_def Let_def split: if_splits bool.splits)
qed

text \<open>A picture that is on display fits the buffer.\<close>

definition window_safe :: "consumer \<Rightarrow> bool" where
  "window_safe cs \<longleftrightarrow>
     (mHaveFrame cs \<longrightarrow> unat (mTextureWidth cs) * unat (mTextureHeight cs) * 4 \<le> length (mFrameBuf cs))"

lemma window_safe_upload: "window_safe cs \<Longrightarrow> upload cs \<noteq> Some None"
  by (simp add: window_safe_def upload_def Let_def)

lemma consumer_send_safe: "consumer_send ty data n clk cs hp = (cs', hp') \<Longrightarrow> window_safe cs' = window_safe cs"
  by (auto simp: consumer_send_def window_safe_def split: option.splits prod.splits)

lemma read_latest_whole:
  assumes "read_latest ops evs pclk clk view dst m k hp = ((r, dst', info), m', k', hp')"
    and "\<And>sm. whole (m_slots sm) \<Longrightarrow> view_whole (view sm)" and "heap_whole hp"
  shows "heap_whole hp'" and "r = Read_Ok \<Longrightarrow> \<exists>fi. info = Some fi \<and> enough fi \<and> unat (fi_payload_bytes fi) \<le> length dst'"
proof -
  obtain ok m1 k1 hp1 where p: "poll ops evs pclk m k hp = (ok, m1, k1, hp1)" by (metis surj_pair)
  have h1: "heap_whole hp1" using heap_whole_cong[of hp1 hp] poll_slots[OF p] assms(3) by simp
  then have v: "view_whole (view (hp1 b))" for b using assms(2) by (simp add: heap_whole_def)
  have r: "hp' = hp1 \<and> (r = Read_Ok \<longrightarrow> (\<exists>b m0. read_attempts 4 0 (view (hp1 b)) (clk 1) m0 dst = (Read_Ok, dst', info, m')))"
    using assms(1) by (auto simp: read_latest_def p Let_def split: bool.splits if_splits option.splits prod.splits)
  show "heap_whole hp'" using r h1 by simp
  show "\<exists>fi. info = Some fi \<and> enough fi \<and> unat (fi_payload_bytes fi) \<le> length dst'" if "r = Read_Ok"
    using r that read_attempts_whole[OF v] by blast
qed

lemma read_vec_whole:
  assumes "read_latest_vec ops evs pclk qclk clk view dst m k hp = ((r, dst', info), m', k', hp')"
    and "\<And>sm. whole (m_slots sm) \<Longrightarrow> view_whole (view sm)" and "heap_whole hp"
  shows "heap_whole hp' \<and> (r = Read_Ok \<longrightarrow> (\<exists>fi. info = Some fi \<and> enough fi \<and> unat (fi_payload_bytes fi) \<le> length dst'))"
proof -
  obtain ok m1 k1 hp1 where p: "poll ops evs pclk m k hp = (ok, m1, k1, hp1)" by (metis surj_pair)
  have h1: "heap_whole hp1" using heap_whole_cong[of hp1 hp] poll_slots[OF p] assms(3) by simp
  consider "r \<noteq> Read_Ok" "hp' = hp1"
    | d where "read_latest ops evs qclk clk view d m1 k1 hp1 = ((r, dst', info), m', k', hp')"
    using assms(1) by (auto simp: read_latest_vec_def p Let_def split: bool.splits if_splits)
  then show ?thesis
  proof cases
    case 1
    then show ?thesis using h1 by simp
  next
    case 2
    from read_latest_whole[OF this assms(2) h1] show ?thesis by blast
  qed
qed

lemma update_safe:
  assumes "update ops evs pclk qclk clk view cs k hp = (line, cs', k', hp')" and "window_safe cs"
    and "\<And>sm. whole (m_slots sm) \<Longrightarrow> view_whole (view sm)" and "heap_whole hp"
  shows "window_safe cs' \<and> heap_whole hp'"
proof (cases "mSub cs")
  case None
  then show ?thesis using assms by (simp add: update_def)
next
  case (Some sub)
  obtain r buf info sub1 k1 hp1 where rd: "read_latest_vec ops evs pclk qclk clk view (mFrameBuf cs) sub k hp = ((r, buf, info), sub1, k1, hp1)"
    by (metis surj_pair)
  note w = read_vec_whole[OF rd assms(3,4)] and g = read_vec_grows[OF rd]
  show ?thesis
  proof (cases "r = Read_Ok")
    case True
    with w obtain fi where "info = Some fi" "enough fi" "unat (fi_payload_bytes fi) \<le> length buf" by blast
    then show ?thesis using assms(1) w True by (auto simp: update_def Some rd Let_def window_safe_def enough_def)
  next
    case False
    then show ?thesis using assms(1,2) w g by (auto simp: update_def Some rd Let_def window_safe_def)
  qed
qed

lemma dispatch_safe:
  assumes "window_safe cs" and "dispatch press escape e (cl, cs, hp) = (cl', cs', hp')"
  shows "window_safe cs' \<and> heap_whole hp' = heap_whole hp"
proof -
  obtain ev clk where e: "e = (ev, clk)" by force
  have snd: "window_safe c' = window_safe c \<and> heap_whole h' = heap_whole h" if "consumer_send ty data n clk c h = (c', h')" for ty data n c h c' h'
    using consumer_send_safe[OF that] heap_whole_cong consumer_send_slots[OF that] by blast
  show ?thesis
  proof (cases ev)
    case (Key key action)
    then show ?thesis using assms snd by (auto simp: e keyCallback_def Let_def split: if_splits prod.splits)
  next
    case (Button mx my button action)
    then show ?thesis using assms snd by (auto simp: e mouseButtonCallback_def split: prod.splits)
  next
    case (Move x y)
    then show ?thesis using assms by (auto simp: e mouseMoveCallback_def window_safe_def)
  next
    case (Resize w h)
    have "window_safe (cs\<lparr>mTextureWidth := w, mTextureHeight := h, mHaveFrame := False\<rparr>)" by (simp add: window_safe_def)
    then show ?thesis using assms(2) Resize snd by (auto simp: e resizeCallback_def Let_def split: prod.splits)
  next
    case Close
    then show ?thesis using assms by (simp add: e)
  qed
qed

lemma dispatches_safe:
  "window_safe cs \<Longrightarrow> fold (dispatch press escape) es (cl, cs, hp) = (cl', cs', hp') \<Longrightarrow> window_safe cs' \<and> heap_whole hp' = heap_whole hp"
proof (induction es arbitrary: cl cs hp)
  case (Cons e es)
  obtain cl1 cs1 hp1 where d: "dispatch press escape e (cl, cs, hp) = (cl1, cs1, hp1)" by (metis surj_pair)
  note s = dispatch_safe[OF Cons.prems(1) d]
  show ?case using Cons.IH[of cs1 cl1 hp1] s Cons.prems(2) d by simp
qed simp

lemma pending_safe:
  assumes "sendPendingMouseMove clk cs hp = (cs', hp')" and "window_safe cs"
  shows "window_safe cs' \<and> heap_whole hp' = heap_whole hp"
proof (cases "mMoveDirty cs")
  case True
  let ?cs = "cs\<lparr>mMoveDirty := False\<rparr>"
  obtain payload n where "pack_i32x2 (replicate 8 0) (int_of_double (mPendingMoveX ?cs)) (int_of_double (mPendingMoveY ?cs)) = (payload, n)" by force
  then have s: "consumer_send kMouseMove (Some payload) n clk ?cs hp = (cs', hp')"
    using assms(1) True by (simp add: sendPendingMouseMove_def Let_def)
  have "window_safe ?cs" using assms(2) by (simp add: window_safe_def)
  then show ?thesis using consumer_send_safe[OF s] heap_whole_cong consumer_send_slots[OF s] by blast
qed (use assms in \<open>simp add: sendPendingMouseMove_def\<close>)

lemma run_safe:
  "\<forall>t\<in>set ts. turn_whole t \<Longrightarrow> window_safe cs \<Longrightarrow> heap_whole hp \<Longrightarrow>
   run press escape ops ts (cl, cs, k, hp) = (pictures, st) \<Longrightarrow> Some None \<notin> set pictures"
proof (induction ts arbitrary: cl cs k hp pictures st)
  case (Cons t ts)
  show ?case
  proof (cases cl)
    case True
    then show ?thesis using Cons.prems(4) by auto
  next
    case False
    obtain k0 hp0 where t0: "t_world t (k, hp) = (k0, hp0)" by force
    obtain line cs1 k1 hp1 where t1: "update ops (t_evs t) (t_pclk t) (t_qclk t) (t_clk t) (t_view t) cs k0 hp0 = (line, cs1, k1, hp1)"
      by (metis surj_pair)
    obtain cl2 cs2 hp2 where t2: "fold (dispatch press escape) (t_events t) (cl, cs1, hp1) = (cl2, cs2, hp2)" by (metis surj_pair)
    obtain cs3 hp3 where t3: "sendPendingMouseMove (t_move_clk t) cs2 hp2 = (cs3, hp3)" by force
    obtain ps st' where t4: "run press escape ops ts (cl2, cs3, k1, hp3) = (ps, st')" by (metis surj_pair)
    have tw: "turn_whole t" "\<forall>t\<in>set ts. turn_whole t" using Cons.prems(1) by auto
    have "heap_whole (snd (t_world t (k, hp)))" using tw(1) Cons.prems(3) unfolding turn_whole_def by blast
    then have h0: "heap_whole hp0" by (simp add: t0)
    have v: "whole (m_slots sm) \<Longrightarrow> view_whole (t_view t sm)" for sm using tw(1) unfolding turn_whole_def by blast
    note s1 = update_safe[OF t1 Cons.prems(2) v h0]
    note s2 = dispatches_safe[OF conjunct1[OF s1] t2]
    note s3 = pending_safe[OF t3 conjunct1[OF s2]]
    from Cons.IH[OF tw(2) _ _ t4] s1 s2 s3 window_safe_upload[of cs1] show ?thesis
      using Cons.prems(4) False t0 t1 t2 t3 t4 by auto
  qed
qed simp

section \<open>A picture nobody published\<close>

text \<open>
  An attempt whose check fails after the copy: the bytes \<open>bs\<close> are in the buffer, and they need not be any frame's.  Bytes that are
  copied at different moments come from different frames.
\<close>

definition attempt_torn :: "(nat \<Rightarrow> smem) \<Rightarrow> LLSubscriber \<Rightarrow> u8 list \<Rightarrow> bool" where
  "attempt_torn v m bs \<longleftrightarrow>
     (let packed = h_latest (m_hdr (v 0)); slot = ucast (packed AND 3) :: u32; s = slot_at (u_L m) slot; n = unat (fi_payload_bytes (load_info v s)) in
      packed \<noteq> 0 \<and> drop_bit 2 packed \<noteq> u_last_frame m \<and> slot < cfg_slot_count (u_remote m) \<and> even (s_seq (m_slots (v 1) s)) \<and>
      0 < n \<and> n \<le> unat (max_payload (u_remote m)) \<and> bs = copy_out v (slot_payload (u_L m) slot) n \<and>
      s_seq (m_slots (v (8 + n)) s) \<noteq> s_seq (m_slots (v 1) s))"

lemma torn_step:
  assumes "attempt_torn (v a) m bs" and "unat (max_payload (u_remote m)) \<le> length dst" and "length dst < 2 ^ 64"
  shows "\<exists>d. read_attempts (Suc n) a v now m dst = read_attempts n (Suc a) v now m d \<and> length d = length dst \<and> take (length bs) d = bs"
proof -
  define slot where "slot = (ucast (h_latest (m_hdr (v a 0)) AND 3) :: u32)"
  define s where "s = slot_at (u_L m) slot"
  define n0 where "n0 = unat (fi_payload_bytes (load_info (v a) s))"
  let ?b = "ucast (fi_payload_bytes (load_info (v a) s)) :: u64" and ?d = "bs @ drop n0 dst"
  note t = assms(1)[unfolded attempt_torn_def Let_def slot_def[symmetric] s_def[symmetric] n0_def[symmetric]]
  have b: "unat ?b = n0" by (simp add: n0_def)
  have ok: "?b \<noteq> 0" "\<not> max_payload (u_remote m) < ?b" "\<not> of_nat (length dst) < ?b"
    using t assms(2,3) b by (auto simp: not_less word_le_unat unat_of_nat64 unat_eq_zero[symmetric])
  have l: "length bs = n0" "length ?d = length dst" using t assms(2) by simp_all
  have "read_attempts (Suc n) a v now m dst = read_attempts n (Suc a) v now m ?d"
    using t ok unfolding read_attempts.simps Let_def slot_def[symmetric] s_def[symmetric] b
    by (auto simp: and_one_odd not_le)
  with l show ?thesis by (intro exI[of _ ?d]) simp
qed

lemma torn_attempts:
  assumes "\<forall>i\<le>n. attempt_torn (v (a + i)) m (bs i)" and "unat (max_payload (u_remote m)) \<le> length dst" and "length dst < 2 ^ 64"
  shows "\<exists>d. read_attempts (Suc n) a v now m dst = (Contended, d, None, m) \<and> length d = length dst \<and> take (length (bs n)) d = bs n"
  using assms
proof (induction n arbitrary: a dst bs)
  case 0
  then show ?case using torn_step[of v a m "bs 0" dst 0 now] by auto
next
  case (Suc n)
  from Suc.prems(1) have "attempt_torn (v a) m (bs 0)" by force
  from torn_step[where v = v and a = a and bs = "bs 0" and n = "Suc n" and now = now, OF this Suc.prems(2,3)] obtain d where
    d: "read_attempts (Suc (Suc n)) a v now m dst = read_attempts (Suc n) (Suc a) v now m d" "length d = length dst" by blast
  have "\<forall>i\<le>n. attempt_torn (v (Suc a + i)) m (bs (Suc i))" using Suc.prems(1) by auto
  from Suc.IH[OF this, of d] d Suc.prems(2,3) show ?case by auto
qed

section \<open>Properties\<close>

text \<open>
  C29.  A resized window gets a picture of its size.  The resize event, a pass of the producer over the slot, its publish pass and the next
  \<open>update\<close> and \<open>draw\<close> end with the slot at the new size, clamped to the channel's, and the window showing exactly its
  canvas; but a window larger than the channel shows nothing at all, because the clamped picture never has its size.
\<close>

theorem resize_followed:
  assumes "linked i b s cs hp" and "mSub cs = Some sub" and "sl_pub s = Some p" and "ring_queue (view_config i) Upstream (hp b) = []"
    and "w \<noteq> 0" and "h \<noteq> 0" and "1 < fuel" and "u_owner_gen sub \<noteq> 0" and "sclk 0 - clk 0 < kCommandOwnerStaleNs"
    and "unat (p_frame_id p) + 1 < 2 ^ 62" and "u_last_frame sub \<noteq> p_frame_id p + 1" and "u_min_read_ns sub = 0"
    and "pclk 0 - u_last_progress sub < u_stale_ns sub" and "qclk 0 - u_last_progress sub < u_stale_ns sub"
    and "length (mFrameBuf cs) \<le> 8294400"
  shows "\<exists>cs1 hp1 s1 hp2 s2 hp3 line cs2 hp4. resizeCallback w h clk cs hp = (cs1, hp1) \<and>
    slot_service fuel pf ops now sclk rnd s k hp1 = Some (s1, k, hp2) \<and> slot_publish wclk s1 hp2 = (s2, hp3) \<and>
    update ops evs pclk qclk rclk calm cs1 k hp3 = (line, cs2, k, hp4) \<and> linked i b s2 cs2 hp4 \<and>
    sl_width s1 = min w kMaxWidth \<and> sl_height s1 = min h kMaxHeight \<and>
    upload cs2 = (if w \<le> kMaxWidth \<and> h \<le> kMaxHeight then Some (Some (sl_canvas s1)) else None)"
proof -
  let ?cs = "cs\<lparr>mTextureWidth := w, mTextureHeight := h, mHaveFrame := False\<rparr>"
    and ?r = "\<lambda>s. Some (if w \<noteq> 0 \<and> h \<noteq> 0 then slot_resize s w h else s)" and ?s = "slot_attend now (rnd 0) True (s\<lparr>sl_pub := None\<rparr>)"
  have ok: "canvas_ok ?s" using assms(1) by (simp add: linked_def slot_ok_def)
  have l: "linked i b s ?cs hp" and n: "length (ring_queue (view_config i) Upstream (hp b)) < 64" using assms(1,4) by simp_all
  from pair_step[where ty = kResize and v = "(w, h)" and eff = ?r and clk = clk, OF l n command_effects(1)] obtain cs1 hp1 where
    e: "consumer_send kResize (Some (enc_pair (w, h))) 8 clk ?cs hp = (cs1, hp1)" "linked i b s cs1 hp1" "delivers i b (clk 0) ?r hp hp1"
    "cs1 = ?cs\<lparr>mSub := map_option sent_one (mSub ?cs)\<rparr>" by blast
  have c1: "cs1 = ?cs\<lparr>mSub := map_option sent_one (mSub cs)\<rparr>" and buf: "mFrameBuf ?cs = mFrameBuf cs" using e(4) by simp_all
  from event_shown[where pclk = pclk and qclk = qclk and sclk = sclk and fuel = fuel,
      OF assms(1-4) c1 e(2,3) buf assms(7-15), of pf ops now rnd k wclk evs rclk]
  obtain s1 hp2 s2 hp3 line cs2 hp4 where
    v: "slot_service fuel pf ops now sclk rnd s k hp1 = Some (s1, k, hp2)" "slot_publish wclk s1 hp2 = (s2, hp3)"
      "update ops evs pclk qclk rclk calm cs1 k hp3 = (line, cs2, k, hp4)" "linked i b s2 cs2 hp4"
    and r: "slot_regen now (\<lambda>i. rnd (Suc i)) (slot_resize ?s w h) = Some (s1\<lparr>sl_pub := None\<rparr>)"
    and u: "upload cs2 = (if mTextureWidth cs1 = sl_width s1 \<and> mTextureHeight cs1 = sl_height s1 then Some (Some (sl_canvas s1)) else None)"
    using assms(5,6) by auto
  have dim: "sl_width s1 = min w kMaxWidth" "sl_height s1 = min h kMaxHeight"
    using slot_size_kept(1)[OF r] slot_resize_ok(3,4)[OF ok assms(5,6)] by simp_all
  have "resizeCallback w h clk cs hp = (cs1, hp1)" using e(1) by (simp add: resizeCallback_def Let_def packed_pair)
  moreover have "mTextureWidth cs1 = w" "mTextureHeight cs1 = h" unfolding c1 by simp_all
  ultimately show ?thesis using v dim u by (auto simp: min_def)
qed

theorem resize_followed_witness:
  "\<exists>s k hp cs hp' cs1 hp1 s1 hp2 s2 hp3 line cs2 hp4.
    allocate_slot Posix posix_ops Slot_new 0 view_cfg 0 (\<lambda>_. 5) 9 posix_empty (\<lambda>_. smem_zero) = ((True, s), k, hp) \<and>
    resizeCallback 640 480 (\<lambda>_. 6) cs hp' = (cs1, hp1) \<and>
    slot_service 2 Posix posix_ops 3 (\<lambda>_. 7) (\<lambda>_. 1) s k hp1 = Some (s1, k, hp2) \<and> slot_publish (\<lambda>_. 8) s1 hp2 = (s2, hp3) \<and>
    update posix_ops [] (\<lambda>_. 9) (\<lambda>_. 9) (\<lambda>_. 9) calm cs1 k hp3 = (line, cs2, k, hp4) \<and>
    sl_width s1 = 640 \<and> sl_height s1 = 480 \<and> upload cs2 = Some (Some (sl_canvas s1))"
proof -
  obtain s p b k hp sub hp' where
    a: "allocate_slot Posix posix_ops Slot_new 0 view_cfg 0 (\<lambda>_. 5) 9 posix_empty (\<lambda>_. smem_zero) = ((True, s), k, hp)"
    and l: "linked 0 b s (consumer_new\<lparr>mSub := Some sub\<rparr>) hp'" "sl_pub s = Some p" "p_frame_id p = 0"
      "ring_queue (view_config 0) Upstream (hp' b) = []" "u_last_frame sub = 0" "u_last_progress sub = 0" "u_stale_ns sub = 500000000"
      "u_min_read_ns sub = 0" "u_owner_gen sub = 5" by (rule demo_link) blast
  have "\<exists>cs1 hp1 s1 hp2 s2 hp3 line cs2 hp4. resizeCallback 640 480 (\<lambda>_. 6) (consumer_new\<lparr>mSub := Some sub\<rparr>) hp' = (cs1, hp1) \<and>
    slot_service 2 Posix posix_ops 3 (\<lambda>_. 7) (\<lambda>_. 1) s k hp1 = Some (s1, k, hp2) \<and> slot_publish (\<lambda>_. 8) s1 hp2 = (s2, hp3) \<and>
    update posix_ops [] (\<lambda>_. 9) (\<lambda>_. 9) (\<lambda>_. 9) calm cs1 k hp3 = (line, cs2, k, hp4) \<and> linked 0 b s2 cs2 hp4 \<and>
    sl_width s1 = min 640 kMaxWidth \<and> sl_height s1 = min 480 kMaxHeight \<and>
    upload cs2 = (if 640 \<le> kMaxWidth \<and> 480 \<le> kMaxHeight then Some (Some (sl_canvas s1)) else None)"
    by (rule resize_followed[where sub = sub, OF l(1) _ l(2,4)]) (simp_all add: l(3,5-9) consumer_new_def kCommandOwnerStaleNs_def)
  moreover have "min 640 kMaxWidth = 640" "min 480 kMaxHeight = 480" "640 \<le> kMaxWidth" "480 \<le> kMaxHeight" by (simp_all add: geometry_defs)
  ultimately show ?thesis using a by (elim exE conjE) (intro exI conjI, assumption+, simp_all)
qed

text \<open>
  C30.  A click is seen.  When the canvas is not due to be drawn anew, a click in a window of the view's size comes back in the next picture: it has a white
  square around the pointer, clipped at the borders, and is unchanged everywhere else.
\<close>

theorem click_seen:
  assumes "linked i b s cs hp" and "mSub cs = Some sub" and "sl_pub s = Some p" and "ring_queue (view_config i) Upstream (hp b) = []"
    and "mTextureWidth cs = sl_width s" and "mTextureHeight cs = sl_height s"
    and "\<not> sl_dirty s" and "sl_had_subscriber s" and "now < sl_next_regen s"
    and "1 < fuel" and "u_owner_gen sub \<noteq> 0" and "sclk 0 - clk 0 < kCommandOwnerStaleNs"
    and "unat (p_frame_id p) + 1 < 2 ^ 62" and "u_last_frame sub \<noteq> p_frame_id p + 1" and "u_min_read_ns sub = 0"
    and "pclk 0 - u_last_progress sub < u_stale_ns sub" and "qclk 0 - u_last_progress sub < u_stale_ns sub"
    and "length (mFrameBuf cs) \<le> 8294400"
  shows "\<exists>cs1 hp1 s1 hp2 s2 hp3 line cs2 hp4 picture. mouseButtonCallback mx my button action clk cs hp = (cs1, hp1) \<and>
    slot_service fuel pf ops now sclk rnd s k hp1 = Some (s1, k, hp2) \<and> slot_publish wclk s1 hp2 = (s2, hp3) \<and>
    update ops evs pclk qclk rclk calm cs1 k hp3 = (line, cs2, k, hp4) \<and> upload cs2 = Some (Some picture) \<and>
    (\<forall>px py. px < unat (sl_width s) \<and> py < unat (sl_height s) \<longrightarrow> pixel_at picture (sl_width s) px py =
       (if marked (sl_width s) (sl_height s) (int_of_double mx) (int_of_double my) px py then [255, 255, 255, 255]
        else pixel_at (sl_canvas s) (sl_width s) px py))"
proof -
  let ?x = "int_of_double mx" and ?y = "int_of_double my" and ?s = "slot_attend now (rnd 0) True (s\<lparr>sl_pub := None\<rparr>)"
  have ok: "canvas_ok ?s" using assms(1) by (simp add: linked_def slot_ok_def)
  have at: "sl_width ?s = sl_width s" "sl_height ?s = sl_height s" "sl_canvas ?s = sl_canvas s" "\<not> sl_dirty ?s" "now < sl_next_regen ?s"
    using assms(7-9) by (simp_all add: slot_attend_def Let_def)
  have n: "length (ring_queue (view_config i) Upstream (hp b)) < 64" using assms(4) by simp
  from button_step[OF assms(1) n, of ?x ?y "ucast button" "ucast action" clk] obtain cs1 hp1 where
    e: "consumer_send kMouseButton (Some (enc_button (?x, ?y, ucast button, ucast action))) 10 clk cs hp = (cs1, hp1)" "linked i b s cs1 hp1"
    "delivers i b (clk 0) (\<lambda>s. slot_mark s ?x ?y 255 255 255) hp hp1" "cs1 = cs\<lparr>mSub := map_option sent_one (mSub cs)\<rparr>" by blast
  from slot_marked[OF ok at(4,5), of ?x ?y 255 255 255 "\<lambda>i. rnd (Suc i)"] obtain c where
    c: "Option.bind (slot_mark ?s ?x ?y 255 255 255) (slot_regen now (\<lambda>i. rnd (Suc i))) = Some (?s\<lparr>sl_canvas := c\<rparr>)"
      "\<forall>px py. px < unat (sl_width s) \<and> py < unat (sl_height s) \<longrightarrow> pixel_at c (sl_width s) px py =
       (if marked (sl_width s) (sl_height s) ?x ?y px py then [255, 255, 255, 255] else pixel_at (sl_canvas s) (sl_width s) px py)"
    unfolding at(1-3) by blast
  from event_shown[where pclk = pclk and qclk = qclk and sclk = sclk and fuel = fuel,
      OF assms(1-4) e(4,2,3) refl assms(10-18), of pf ops now rnd k wclk evs rclk]
  obtain s1 hp2 s2 hp3 line cs2 hp4 where
    v: "slot_service fuel pf ops now sclk rnd s k hp1 = Some (s1, k, hp2)" "slot_publish wclk s1 hp2 = (s2, hp3)"
      "update ops evs pclk qclk rclk calm cs1 k hp3 = (line, cs2, k, hp4)"
    and r: "s1\<lparr>sl_pub := None\<rparr> = ?s\<lparr>sl_canvas := c\<rparr>"
    and u: "upload cs2 = (if mTextureWidth cs1 = sl_width s1 \<and> mTextureHeight cs1 = sl_height s1 then Some (Some (sl_canvas s1)) else None)"
    unfolding c(1) by auto
  have "sl_width s1 = sl_width s" "sl_height s1 = sl_height s" "sl_canvas s1 = c"
    using arg_cong[OF r, of sl_width] arg_cong[OF r, of sl_height] arg_cong[OF r, of sl_canvas] at(1,2) by simp_all
  then have "upload cs2 = Some (Some c)" using u assms(5,6) unfolding e(4) by simp
  moreover have "mouseButtonCallback mx my button action clk cs hp = (cs1, hp1)" using e(1) by (simp add: mouseButtonCallback_def packed_pair)
  ultimately show ?thesis using v c(2) by blast
qed

theorem click_seen_witness:
  "\<exists>s cs hp1 s1 k hp2 cs1 hp3 line cs2 hp4 s2 hp5 picture. mouseButtonCallback 5 6 0 1 (\<lambda>_. 6) cs hp1 = (cs1, hp2) \<and>
    slot_service 2 Posix posix_ops 3 (\<lambda>_. 7) (\<lambda>_. 1) s k hp2 = Some (s1, k, hp3) \<and> slot_publish (\<lambda>_. 8) s1 hp3 = (s2, hp4) \<and>
    update posix_ops [] (\<lambda>_. 9) (\<lambda>_. 9) (\<lambda>_. 9) calm cs1 k hp4 = (line, cs2, k, hp5) \<and> upload cs2 = Some (Some picture)"
proof -
  obtain s p b k hp sub hp' where
    l: "linked 0 b s (consumer_new\<lparr>mSub := Some sub\<rparr>) hp'" "sl_pub s = Some p" "p_frame_id p = 0"
      "ring_queue (view_config 0) Upstream (hp' b) = []" "u_last_frame sub = 0" "u_last_progress sub = 0" "u_stale_ns sub = 500000000"
      "u_min_read_ns sub = 0" "u_owner_gen sub = 5" by (rule demo_link) blast
  let ?s = "s\<lparr>sl_dirty := False, sl_had_subscriber := True, sl_next_regen := 1000\<rparr>"
    and ?cs = "consumer_new\<lparr>mTextureWidth := sl_width s, mTextureHeight := sl_height s, mSub := Some sub\<rparr>"
  have k: "linked 0 b ?s ?cs hp'" using l(1) by (simp add: linked_def slot_ok_def canvas_ok_def)
  have "\<exists>cs1 hp1 s1 hp2 s2 hp3 line cs2 hp4 picture. mouseButtonCallback 5 6 0 1 (\<lambda>_. 6) ?cs hp' = (cs1, hp1) \<and>
    slot_service 2 Posix posix_ops 3 (\<lambda>_. 7) (\<lambda>_. 1) ?s posix_empty hp1 = Some (s1, posix_empty, hp2) \<and> slot_publish (\<lambda>_. 8) s1 hp2 = (s2, hp3) \<and>
    update posix_ops [] (\<lambda>_. 9) (\<lambda>_. 9) (\<lambda>_. 9) calm cs1 posix_empty hp3 = (line, cs2, posix_empty, hp4) \<and> upload cs2 = Some (Some picture) \<and>
    (\<forall>px py. px < unat (sl_width ?s) \<and> py < unat (sl_height ?s) \<longrightarrow> pixel_at picture (sl_width ?s) px py =
       (if marked (sl_width ?s) (sl_height ?s) (int_of_double 5) (int_of_double 6) px py then [255, 255, 255, 255]
        else pixel_at (sl_canvas ?s) (sl_width ?s) px py))"
    by (rule click_seen[where sub = sub and p = p, OF k]) (simp_all add: l(2-9) consumer_new_def kCommandOwnerStaleNs_def)
  then show ?thesis by blast
qed

text \<open>
  C31.  The window never reads past its buffer.  From the state \<open>init\<close> leaves, with no picture on display and whatever buffer,
  no turn of the loop uploads past the buffer's end: whatever sizes the window is asked for, whatever sequence of events is
  polled, and whatever the other processes do between the turns and during the reads, as long as they keep the frames whole: a
  slot whose counter does not move describes a picture of at least four bytes per pixel.  The condition is needed: \<open>update\<close>
  compares the frame's width and height with the texture's, but not its bytes.
\<close>

theorem window_never_overreads:
  assumes "\<not> mHaveFrame cs" and "heap_whole hp" and "\<forall>t\<in>set ts. turn_whole t"
    and "run press escape ops ts (cl, cs, k, hp) = (pictures, st)"
  shows "Some None \<notin> set pictures"
  using run_safe[OF assms(3) _ assms(2,4)] assms(1) by (simp add: window_safe_def)

text \<open>A frame of one by two pixels is read and uploaded; then the window is resized beyond its buffer and closed.\<close>

theorem window_never_overreads_witness:
  "\<exists>cs hp ts st. \<not> mHaveFrame cs \<and> length ts = 2 \<and>
    run 1 256 posix_ops ts (False, cs, posix_empty, hp) = ([Some (Some [7, 7, 7, 7, 7, 7, 7, 7])], st) \<and>
    Some None \<notin> set [Some (Some [7, 7, 7, 7, 7, 7, 7, 7 :: u8])]"
proof -
  obtain s p b k hp0 sub hp' where
    l: "linked 0 b s (consumer_new\<lparr>mSub := Some sub\<rparr>) hp'" "u_last_frame sub = 0" "u_last_progress sub = 0" "u_stale_ns sub = 500000000"
      "u_min_read_ns sub = 0" "u_owner_gen sub = 5" by (rule demo_link) blast
  let ?cs = "consumer_new\<lparr>mSub := Some sub, mTextureWidth := 1, mTextureHeight := 2\<rparr>"
  define sh where "sh = LLSlotHeader_zero\<lparr>s_seq := 2, s_frame_id := 1, s_width := 1, s_height := 2, s_stride := 4, s_payload_bytes := 8\<rparr>"
  define fm where "fm = smem_zero\<lparr>m_hdr := LLHeader_zero\<lparr>h_latest := 4, h_command_owner_gen := 5\<rparr>, m_slots := (\<lambda>_. sh), m_bytes := (\<lambda>_. 7)\<rparr>"
  have fm: "m_slots fm = (\<lambda>_. sh)" "m_bytes fm = (\<lambda>_. 7)" "h_latest (m_hdr fm) = 4" "h_command_owner_gen (m_hdr fm) = 5" by (simp_all add: fm_def)
  have sh: "s_seq sh = 2" "s_payload_bytes sh = 8" "s_width sh = 1" "s_height sh = 2" by (simp_all add: sh_def)
  let ?hp = "(\<lambda>_. fm) :: heap"
  have at: "attached (view_config 0) b sub" and ow: "owner_ok sub (?hp b)" using l(1,6) by (auto simp: linked_def owner_ok_def fm)
  have sl: "slot_of (view_config 0) fm 0 = sh" by (simp add: slot_of_def fm)
  have bys: "slot_bytes (view_config 0) fm 0 = [7, 7, 7, 7, 7, 7, 7, 7]"
    unfolding slot_bytes_def sl sh by (simp add: read_bytes_def fm upt_rec)
  have v: "config_valid (view_config 0)" by (rule view_cfg_valid) simp
  have r: "read_latest_vec posix_ops [] (\<lambda>_. 1) (\<lambda>_. 1) (\<lambda>_. 1) calm [] sub posix_empty ?hp =
      ((Read_Ok, [7, 7, 7, 7, 7, 7, 7, 7] @ drop 8 (replicate (unat (max_payload (view_config 0))) 0), Some (slot_info sh)),
       after_read 1 (slot_info sh) sub, posix_empty, upd_hdr b (beat 1) ?hp)"
    using vec_current[where hp = ?hp and b = b and j = 0 and fid = 1 and s = sub and c = "view_config 0" and pclk = "\<lambda>_. 1" and qclk = "\<lambda>_. 1"
        and dst = "[]" and ops = posix_ops and evs = "[]" and clk = "\<lambda>_. 1" and k = posix_empty, OF at v _ _ _ _ _ _ _ _ ow]
    unfolding sl bys sh by (simp add: l fm)
  let ?t = "\<lparr>t_world = (\<lambda>st. st), t_evs = [], t_pclk = (\<lambda>_. 1), t_qclk = (\<lambda>_. 1), t_clk = (\<lambda>_. 1), t_view = calm,
    t_events = [(Resize 1920 1080, \<lambda>_. 1), (Close, \<lambda>_. 1)], t_move_clk = (\<lambda>_. 1)\<rparr> :: posix_kernel turn"
  obtain line cs1 hp1 where u: "update posix_ops [] (\<lambda>_. 1) (\<lambda>_. 1) (\<lambda>_. 1) calm ?cs posix_empty ?hp = (line, cs1, posix_empty, hp1)"
    and up: "upload cs1 = Some (Some [7, 7, 7, 7, 7, 7, 7, 7])"
    using r by (auto simp: update_def Let_def upload_def slot_info_def sh consumer_new_def)
  obtain cs2 hp2 where rs: "resizeCallback 1920 1080 (\<lambda>_. 1) cs1 hp1 = (cs2, hp2)" by force
  obtain cs3 hp3 where mv: "sendPendingMouseMove (\<lambda>_. 1) cs2 hp2 = (cs3, hp3)" by force
  have "\<exists>st. run 1 256 posix_ops [?t, ?t] (False, ?cs, posix_empty, ?hp) = ([Some (Some [7, 7, 7, 7, 7, 7, 7, 7])], st)"
    by (auto simp: u rs mv up)
  then obtain st where st: "run 1 256 posix_ops [?t, ?t] (False, ?cs, posix_empty, ?hp) = ([Some (Some [7, 7, 7, 7, 7, 7, 7, 7])], st)" by blast
  have "heap_whole ?hp" by (simp add: heap_whole_def whole_def enough_def slot_info_def fm sh)
  moreover have "turn_whole ?t" by (simp add: turn_whole_def calm_whole)
  moreover have "\<not> mHaveFrame ?cs" by (simp add: consumer_new_def)
  ultimately show ?thesis using window_never_overreads[OF _ _ _ st] st
    by (intro exI[of _ ?cs] exI[of _ ?hp] exI[of _ "[?t, ?t]"] exI[of _ st]) simp
qed

text \<open>
  C32.  A torn picture is shown.  When all four attempts of a read are overtaken after their copy, the read says \<open>Contended\<close> and
  \<open>update\<close> changes neither \<open>mHaveFrame\<close> nor \<open>mFrameInfo\<close>, but the buffer already holds the bytes of the last copy: with a
  picture on display, \<open>draw\<close> uploads them, although they need not be any published frame.
\<close>

theorem torn_picture_shown:
  assumes "linked i b s cs hp" and "mSub cs = Some sub" and "u_min_read_ns sub = 0"
    and "pclk 0 - u_last_progress sub < u_stale_ns sub" and "qclk 0 - u_last_progress sub < u_stale_ns sub"
    and "length (mFrameBuf cs) \<le> 8294400" and "mHaveFrame cs"
    and "\<forall>a\<le>3. attempt_torn (view (upd_hdr b (beat (qclk 1)) hp b) a) sub (bs a)"
    and "length (bs 3) = unat (mTextureWidth cs) * unat (mTextureHeight cs) * 4"
  shows "\<exists>line cs' hp'. update ops evs pclk qclk rclk view cs k hp = (line, cs', k, hp') \<and>
    mHaveFrame cs' \<and> mFrameInfo cs' = mFrameInfo cs \<and> upload cs' = Some (Some (bs 3))"
proof -
  let ?c = "view_config i" and ?hp = "upd_hdr b (beat (qclk 1)) hp"
  let ?buf = "mFrameBuf cs @ replicate (unat (max_payload ?c) - length (mFrameBuf cs)) 0"
  have at: "attached ?c b sub" "owner_ok sub (hp b)" using assms(1,2) by (auto simp: linked_def)
  have mp: "unat (max_payload ?c) = 8294400" by simp
  have lb: "length ?buf = 8294400" using assms(6) mp by simp
  have po: "polled b (qclk 1) sub (upd_hdr b (beat (pclk 1)) hp) = (sub, ?hp)" using at(2) by (simp add: polled_def)
  have g: "gate_mark (rclk 0) sub = sub" "read_due rclk sub" using assms(3) by (simp_all add: gate_mark_def read_due_def)
  have mp': "unat (max_payload (u_remote sub)) \<le> length ?buf" "length ?buf < 2 ^ 64"
    unfolding attached_geometry(2)[OF at(1)] using lb by simp_all
  have "\<forall>j\<le>3. attempt_torn (view (?hp b) (0 + j)) sub (bs j)" using assms(8) unfolding add_0_left .
  from torn_attempts[where now = "rclk 1", OF this mp'] obtain d where
    d: "read_attempts 4 0 (view (?hp b)) (rclk 1) sub ?buf = (Contended, d, None, sub)" "length d = length ?buf" "take (length (bs 3)) d = bs 3"
    unfolding Suc_numeral semiring_norm by blast
  have "length (mFrameBuf cs) \<le> unat (max_payload ?c)" using assms(6) by simp
  note vec = vec_owner[where hp = hp and dst = "mFrameBuf cs" and view = view and pclk = pclk and qclk = qclk and clk = rclk, OF at assms(3) this assms(4)]
  have rd: "read_latest_vec ops evs pclk qclk rclk view (mFrameBuf cs) sub k hp = ((Contended, d, None), sub, k, ?hp)"
    unfolding vec read_latest_healthy[where pclk = qclk, OF at(1) assms(5) g(2) po] g(1) d(1) by simp
  let ?cs = "cs\<lparr>mWasConnected := connected sub, mSub := Some sub, mFrameBuf := d\<rparr>"
  have "length (bs 3) \<le> length d" using arg_cong[OF d(3), of length] by simp
  then have "upload ?cs = Some (Some (bs 3))" using assms(7) d(3) by (simp add: upload_def Let_def assms(9)[symmetric])
  moreover have "update ops evs pclk qclk rclk view cs k hp =
      (if connected sub \<noteq> mWasConnected cs then Some (connected sub) else None, ?cs, k, ?hp)"
    using rd assms(2) by (simp add: update_def Let_def)
  ultimately show ?thesis using assms(7) by auto
qed

theorem torn_picture_shown_witness:
  "\<exists>cs hp view line cs' hp'. mHaveFrame cs \<and> update posix_ops [] (\<lambda>_. 6) (\<lambda>_. 6) (\<lambda>_. 6) view cs posix_empty hp = (line, cs', posix_empty, hp') \<and>
    upload cs' = Some (Some [1, 1, 1, 1, 2, 2, 2, 2])"
proof -
  obtain s p b k hp sub hp' where
    l: "linked 0 b s (consumer_new\<lparr>mSub := Some sub\<rparr>) hp'" "u_last_frame sub = 0" "u_last_progress sub = 0" "u_stale_ns sub = 500000000"
      "u_min_read_ns sub = 0" by (rule demo_link) blast
  let ?cs = "consumer_new\<lparr>mSub := Some sub, mTextureWidth := 1, mTextureHeight := 2, mHaveFrame := True\<rparr>"
  let ?view = "\<lambda>_ a i. smem_zero\<lparr>m_hdr := LLHeader_zero\<lparr>h_latest := 4\<rparr>,
    m_slots := (\<lambda>_. LLSlotHeader_zero\<lparr>s_seq := 2 * of_nat a + (if i < 16 then 2 else 4), s_payload_bytes := 8\<rparr>),
    m_bytes := (\<lambda>_. if i < 12 then 1 else 2)\<rparr>"
  have lk: "linked 0 b s ?cs hp'" and at: "attached (view_config 0) b sub" using l(1) by (auto simp: linked_def)
  note g = attached_geometry[OF at]
  have "attempt_torn (?view sm a) sub [1, 1, 1, 1, 2, 2, 2, 2]" for sm a
    unfolding attempt_torn_def Let_def g(1,2)
    by (simp add: load_info_def copy_out_def smem_zero_def LLHeader_zero_def LLSlotHeader_zero_def l(2) upt_rec drop_bit_eq_div)
  then have t: "\<forall>a\<le>3. attempt_torn (?view (upd_hdr b (beat 6) hp' b) a) sub ((\<lambda>_. [1, 1, 1, 1, 2, 2, 2, 2]) a)" by blast
  have "\<exists>line cs' hp''. update posix_ops [] (\<lambda>_. 6) (\<lambda>_. 6) (\<lambda>_. 6) ?view ?cs posix_empty hp' = (line, cs', posix_empty, hp'') \<and>
      mHaveFrame cs' \<and> mFrameInfo cs' = mFrameInfo ?cs \<and> upload cs' = Some (Some [1, 1, 1, 1, 2, 2, 2, 2])"
    by (rule torn_picture_shown[where sub = sub and qclk = "\<lambda>_. 6" and view = ?view and bs = "\<lambda>_. [1, 1, 1, 1, 2, 2, 2, 2]", OF lk _ _ _ _ _ _ t])
      (simp_all add: l(2-5) consumer_new_def)
  moreover have "mHaveFrame ?cs" by simp
  ultimately show ?thesis by blast
qed

end
