(* ===== verification/Consumer_Main.thy ===== *)
theory Consumer_Main
  imports Multiview_Connect Multiview_Session
begin

text \<open>
  \<open>main\<close> of \<open>examples/multiview_consumer_gl/multiview_consumer.cpp\<close>: connect, make the window, run, reset, and the
  destruction of the consumer; and what becomes of its claim on the view.
\<close>

section \<open>The program\<close>

text \<open>
  \<open>win\<close> is the size of the frame buffer of the window GLFW makes; \<open>None\<close> when GLFW or the window fails, and the process
  ends by \<open>exit(EXIT_FAILURE)\<close>.
\<close>

definition initGLFWCallbacks :: "32 word \<times> 32 word \<Rightarrow> clock \<Rightarrow> consumer \<Rightarrow> heap \<Rightarrow> consumer \<times> heap" where
  "initGLFWCallbacks fb clk cs hp = (case fb of (width, height) \<Rightarrow> resizeCallback width height clk cs hp)"

definition init :: "(32 word \<times> 32 word) option \<Rightarrow> clock \<Rightarrow> consumer \<Rightarrow> heap \<Rightarrow> (consumer \<times> heap) option" where
  "init win clk cs hp = (case win of None \<Rightarrow> None | Some fb \<Rightarrow> Some (initGLFWCallbacks fb clk cs hp))"

text \<open>The destructor of \<open>MultiviewConsumer\<close> destroys \<open>mSub\<close>.\<close>

definition consumer_destroy :: "'k bip_ops \<Rightarrow> consumer \<Rightarrow> 'k \<Rightarrow> heap \<Rightarrow> 'k \<times> heap" where
  "consumer_destroy ops cs k hp = (case mSub cs of None \<Rightarrow> (k, hp) | Some sub \<Rightarrow> subscriber_destroy ops sub k hp)"

text \<open>The result: why it could not connect, what the turns uploaded, and the exit code.  \<open>exit\<close> destroys no local object.\<close>

definition consumer_main :: "int \<Rightarrow> int \<Rightarrow> nat \<Rightarrow> 'k bip_ops \<Rightarrow> 'k surroundings \<Rightarrow> string list \<Rightarrow> (32 word \<times> 32 word) option \<Rightarrow> clock
    \<Rightarrow> 'k turn list \<Rightarrow> 'k \<Rightarrow> heap \<Rightarrow> (connect_error option \<times> u8 list option option list \<times> int \<times> 'k \<times> heap) option" where
  "consumer_main press escape fuel ops e args win clk ts k hp =
     (let start_url = (if length args > 0 then bytes_of (args ! 0) else []) in
      case connectToProducer fuel ops e start_url consumer_new k hp of
        None \<Rightarrow> None
      | Some ((Some err, cs), k1, hp1) \<Rightarrow> (case consumer_destroy ops cs k1 hp1 of (k2, hp2) \<Rightarrow> Some (Some err, [], 1, k2, hp2))
      | Some ((None, cs), k1, hp1) \<Rightarrow>
          (case init win clk cs hp1 of
             None \<Rightarrow> Some (None, [], 1, k1, hp1)
           | Some (cs1, hp2) \<Rightarrow>
               (case run press escape ops ts (False, cs1, k1, hp2) of
                  (pictures, _, cs2, k2, hp3) \<Rightarrow>
                    (case consumer_destroy ops cs2 k2 hp3 of (k3, hp4) \<Rightarrow> Some (None, pictures, 0, k3, hp4)))))"

section \<open>Properties\<close>

text \<open>
  C38.  What becomes of the claim.  A consumer that ran and still owns its view when it ends gives the view back: nobody owns it afterwards.  But a
  consumer whose window could not be made exits with its claim in place: the producer takes the slot for an attended one and
  keeps it, for as long as the heartbeat of the dead consumer is fresh, however long ago the slot was last used.
\<close>

theorem claim_after_exit:
  assumes "connectToProducer fuel ops e (if length args > 0 then bytes_of (args ! 0) else []) consumer_new k hp = Some ((None, cs), k1, hp1)"
    and "linked i b s cs hp1" and "mSub cs = Some sub" and "u_owner_gen sub \<noteq> 0"
  shows "(\<forall>cs1 hp2 pictures cl cs2 k2 hp3 sub2. init win clk cs hp1 = Some (cs1, hp2) \<and>
      run press escape ops ts (False, cs1, k1, hp2) = (pictures, cl, cs2, k2, hp3) \<and> mSub cs2 = Some sub2 \<and>
      attached (view_config i) b sub2 \<and> owner_ok sub2 (hp3 b) \<longrightarrow>
      (\<exists>k3 hp4. consumer_main press escape fuel ops e args win clk ts k hp = Some (None, pictures, 0, k3, hp4) \<and>
         h_command_owner_gen (m_hdr (hp4 b)) = 0)) \<and>
    consumer_main press escape fuel ops e args None clk ts k hp = Some (None, [], 1, k1, hp1) \<and>
    (length (ring_queue (view_config i) Upstream (hp1 b)) < n \<and> sclk 0 - h_command_owner_heartbeat_ns (m_hdr (hp1 b)) < kCommandOwnerStaleNs \<longrightarrow>
      (\<exists>s' hp2. slot_service n pf ops now sclk rnd s k1 hp1 = Some (s', k1, hp2) \<and> slot_ok (view_config i) b s' hp2 \<and>
         h_command_owner_gen (m_hdr (hp2 b)) = u_owner_gen sub))"
proof (intro conjI allI impI; (elim conjE)?)
  show "consumer_main press escape fuel ops e args None clk ts k hp = Some (None, [], 1, k1, hp1)"
    using assms(1) by (simp add: consumer_main_def init_def Let_def)
next
  fix cs1 hp2 pictures cl cs2 k2 hp3 sub2
  assume r: "init win clk cs hp1 = Some (cs1, hp2)" "run press escape ops ts (False, cs1, k1, hp2) = (pictures, cl, cs2, k2, hp3)"
    and o: "mSub cs2 = Some sub2" "attached (view_config i) b sub2" "owner_ok sub2 (hp3 b)"
  have "consumer_destroy ops cs2 k2 hp3 = (LLSegment_destroy ops (u_seg sub2) k2, upd_hdr b (\<lambda>h. h\<lparr>h_command_owner_gen := 0\<rparr>) hp3)"
    using o by (simp add: consumer_destroy_def subscriber_destroy_def attached_def owner_ok_def)
  then show "\<exists>k3 hp4. consumer_main press escape fuel ops e args win clk ts k hp = Some (None, pictures, 0, k3, hp4) \<and>
      h_command_owner_gen (m_hdr (hp4 b)) = 0" using assms(1) r by (simp add: consumer_main_def Let_def upd_hdr_def)
next
  assume q: "length (ring_queue (view_config i) Upstream (hp1 b)) < n"
    and t: "sclk 0 - h_command_owner_heartbeat_ns (m_hdr (hp1 b)) < kCommandOwnerStaleNs"
  have so: "slot_ok (view_config i) b s hp1" and ow: "owner_ok sub (hp1 b)" using assms(2,3) by (auto simp: linked_def)
  from so obtain p where p: "sl_pub s = Some p" by (auto simp: slot_ok_def)
  have gen: "h_command_owner_gen (m_hdr (hp1 b)) = u_owner_gen sub" using ow by (simp add: owner_ok_def)
  then have has: "has_subscriber p hp1" using slot_gone_iff(2)[OF so p] assms(4) by simp
  have "\<not> slot_gone 0 sclk s (m_hdr (hp1 b))" using gen t assms(4) by (simp add: slot_gone_def not_le)
  then have "\<not> command_owner_stale sclk p hp1" using slot_gone_iff(1)[OF so p] has by blast
  with slot_kept[OF so p q, of sclk now pf ops rnd k1] has gen show
    "\<exists>s' hp2. slot_service n pf ops now sclk rnd s k1 hp1 = Some (s', k1, hp2) \<and> slot_ok (view_config i) b s' hp2 \<and>
      h_command_owner_gen (m_hdr (hp2 b)) = u_owner_gen sub" by auto
qed

theorem claim_after_exit_witness:
  "\<exists>m k hp e k1 hp1. producer_start Posix posix_ops 2 0 (\<lambda>_. 5) 9 posix_empty (\<lambda>_. smem_zero) = (Inr m, k, hp) \<and>
    consumer_main 1 256 1 posix_ops e [''red''] None (\<lambda>_. 8) [] k hp = Some (None, [], 1, k1, hp1) \<and>
    (\<exists>s b n s' hp2. slot_service n Posix posix_ops 99000000000 (\<lambda>_. h_command_owner_heartbeat_ns (m_hdr (hp1 b))) (\<lambda>_. 3) s k1 hp1 = Some (s', k1, hp2) \<and>
       h_command_owner_gen (m_hdr (hp2 b)) \<noteq> 0)"
proof -
  obtain m k hp b0 where s: "producer_start Posix posix_ops 2 0 (\<lambda>_. 5) 9 posix_empty (\<lambda>_. smem_zero) = (Inr m, k, hp)"
    and p: "pool_ok posix_ok posix_bound posix_alloc b0 (m, k, hp)" "h_command_owner_gen (m_hdr (hp b0)) = 0"
      "\<And>d. ring_queue control_cfg d (hp b0) = []" "view_states (mv_slots m) hp = [None, None]" by (rule demo_pool) blast
  let ?e = "demo_surroundings (\<lambda>_. id) (\<lambda>_. serves 2 Posix posix_ops 3 (\<lambda>_. (\<lambda>_. 6, 9, \<lambda>_. 7)) m) 0"
  have free: "None \<in> set (view_states (mv_slots m) hp)" "0 = length (takeWhile (\<lambda>t. t \<noteq> None) (view_states (mv_slots m) hp))" by (simp_all add: p(4))
  have "\<exists>cs' k' hp' m' st st' b. connectToProducer (Suc 0) posix_ops ?e (bytes_of ''red'') consumer_new k hp = Some ((None, cs'), k', hp') \<and>
      mSlotIndex cs' = int 0 \<and>
      drain 2 control_recv (control_handle Posix posix_ops 3 (\<lambda>_. (\<lambda>_. 6, 9, \<lambda>_. 7))) (m, st) = Some (m', st') \<and> linked 0 b (mv_slots m' ! 0) cs' hp' \<and>
      map (\<lambda>x. (cmd_type x, cmd_data x)) (ring_queue (view_config 0) Upstream (hp' b)) =
        (if bytes_of ''red'' = [] then [] else [(kSetUrl, bytes_of ''red'')]) \<and>
      pool_ok posix_ok posix_bound posix_alloc b0 (m', k', hp') \<and> h_command_owner_gen (m_hdr (hp' b0)) = 0 \<and> (\<forall>d. ring_queue control_cfg d (hp' b0) = []) \<and>
      (\<exists>sub. mSub cs' = Some sub \<and> u_owner_gen sub \<noteq> 0)"
    by (rule view_obtained[OF posix.unlinking_store_axioms p(1-3) free]) (simp_all add: demo_surroundings_def kSlotRequestTimeout_def)
  then obtain cs k1 hp1 s1 b sub where
    c: "connectToProducer 1 posix_ops ?e (bytes_of ''red'') consumer_new k hp = Some ((None, cs), k1, hp1)"
      "linked 0 b s1 cs hp1" "mSub cs = Some sub" "u_owner_gen sub \<noteq> 0" unfolding One_nat_def by blast
  have "connectToProducer 1 posix_ops ?e (if length [''red''] > 0 then bytes_of ([''red''] ! 0) else []) consumer_new k hp = Some ((None, cs), k1, hp1)"
    using c(1) by simp
  note ce = claim_after_exit[where press = 1 and escape = 256 and win = None and clk = "\<lambda>_. 8" and ts = "[]" and pf = Posix and now = 99000000000
      and n = "Suc (length (ring_queue (view_config 0) Upstream (hp1 b)))" and sclk = "\<lambda>_. h_command_owner_heartbeat_ns (m_hdr (hp1 b))"
      and rnd = "\<lambda>_. 3", OF this c(2-4)]
  have fr: "(0 :: u64) < kCommandOwnerStaleNs" by (simp add: kCommandOwnerStaleNs_def)
  from ce have main: "consumer_main 1 256 1 posix_ops ?e [''red''] None (\<lambda>_. 8) [] k hp = Some (None, [], 1, k1, hp1)" by blast
  from ce fr obtain s' hp2 where
    "slot_service (Suc (length (ring_queue (view_config 0) Upstream (hp1 b)))) Posix posix_ops 99000000000
       (\<lambda>_. h_command_owner_heartbeat_ns (m_hdr (hp1 b))) (\<lambda>_. 3) s1 k1 hp1 = Some (s', k1, hp2)"
    "h_command_owner_gen (m_hdr (hp2 b)) = u_owner_gen sub" by auto
  with s main c(4) show ?thesis by metis
qed

end
