(* ===== verification/Spec2Isabelle.thy ===== *)
theory Spec2Isabelle
  imports System Minimal Sender_Main Receiver_Main Multiview_Main Consumer_Main
begin

text \<open>
  Verification of llshmframe, a library that carries frames and commands between processes through a
  shared memory segment (\<open>src/src\<close>, \<open>src/include\<close>), and of the programs that come with it
  (\<open>src/examples\<close>).

  \<^bold>\<open>The program.\<close>  One publisher owns a named segment.  It holds a header, a few frame slots and two command
  rings.  The publisher writes a frame into the next slot and then stores its id and slot in one 64-bit word,
  \<open>latest\<close>; any number of subscribers copy the latest frame and detect by the slot's sequence counter
  whether they were overtaken.  One subscriber at a time owns the command channel, by a
  generation number and a heartbeat in the header; the rings are single-producer single-consumer.  A restarted
  publisher replaces the segment of a dead one, and subscribers find the new segment by polling.

  \<^bold>\<open>Theories and sources.\<close>
  \<^item> \<open>Prelude\<close>: types (\<open>u8\<close> to \<open>u64\<close>, byte memories, clocks), lemmas on words and lists, little-endian words.
  \<^item> \<open>Layout\<close>: \<open>LLConfig\<close>, \<open>config_valid\<close>, \<open>compute_layout\<close> and the address functions of \<open>llinternal.h\<close>, at 64 bits.
  \<^item> \<open>Segment_Memory\<close>: the structures in shared memory, their initialisation by \<open>LLPublisher::create\<close>, and \<open>validate_header\<close>.
  \<^item> \<open>Fifo\<close>, \<open>Ring\<close>, \<open>Ring_Concurrency\<close>: \<open>LLRing\<close>; \<open>push\<close> and \<open>pop\<close> as whole calls, refining a bounded queue (the locale of \<open>Fifo\<close>), and
    as steps of single shared accesses that interleave.
  \<^item> \<open>Segment\<close>: \<open>llsegment.cpp\<close>.  Boost.Interprocess is a record of operations; what the code relies on are the locales
    \<open>segment_store\<close>, \<open>unlinking_store\<close> (POSIX) and \<open>pinned_store\<close> (Windows), each interpreted on a name space of that kind.
  \<^item> \<open>Util\<close>, \<open>Bitmap\<close>: \<open>llutil.cpp\<close>; rates are rationals with the rounding of floating point as a parameter.
  \<^item> \<open>Frames\<close>, \<open>Publisher\<close>: \<open>llpublisher.cpp\<close>, every operation, with the invariant \<open>pub_at\<close>.
  \<^item> \<open>Subscriber\<close>: \<open>llsubscriber.cpp\<close>, every operation.  The read loop gets the memory each of its accesses sees as a parameter,
    the claim loop the contention it meets before its load, its exchange and its store of the heartbeat.
  \<^item> \<open>Seqlock\<close>: frame writing as a step relation of single stores, and reads under every interleaving with it.
  \<^item> \<open>System\<close>, and this theory: publisher and subscriber together.
  \<^item> \<open>Protocol\<close>: \<open>protocol.h\<close> and \<open>multiview_protocol.h\<close>; five payload formats as interpretations of the locale \<open>codec\<close>.
  \<^item> \<open>Command_Loop\<close>: the loop \<open>while (receive(cmd))\<close> as the locale \<open>command_loop\<close>, and what a frame rendered in place leaves in the segment.
  \<^item> \<open>Demo_Sender\<close>, \<open>Demo_Receiver\<close>, \<open>Minimal\<close>: \<open>sender.cpp\<close>, \<open>receiver.cpp\<close>, \<open>minimal.cpp\<close>.
  \<^item> \<open>Canvas\<close>, \<open>Multiview_Slot\<close>, \<open>Multiview_Producer\<close>: \<open>multiview_producer.cpp\<close>, from pixels to the whole turn.
  \<^item> \<open>Multiview_Consumer\<close>, \<open>Multiview_Connect\<close>: \<open>multiview_consumer.cpp\<close>, how it gets a view, what it sends for window events and what it
    uploads; and its handshake with the producer over the control channel.
  \<^item> \<open>Multiview_Session\<close>: the two at work: an event, a pass of the producer, its publish pass and the next turn of the window; and the
    window's loop whatever the other processes do.
  \<^item> \<open>Runtime\<close>, \<open>Sender_Main\<close>, \<open>Receiver_Main\<close>, \<open>Multiview_Main\<close>, \<open>Consumer_Main\<close>: the functions \<open>main\<close>, from the command line
    over the paced loop to the destructors at the exit, with other processes running between the turns.

  \<^bold>\<open>State and operations.\<close>  A structure of the source is a record with its fields, a member function a definition
  that takes and returns that record, the heap (a memory per segment) and, where names are concerned, the name space
  \<open>'k\<close>.  Clock readings are arguments, one function per call, indexed in the order of the readings.  Failures are
  results: statuses, \<open>None\<close>, a sum type; a store outside a vector is \<open>None\<close> in \<open>Canvas\<close>.
  Where a program waits for another process, what that process does meanwhile is an argument
  (\<open>surroundings\<close>, \<open>turn\<close>, the ticks of the \<open>main\<close> functions); the theorems put the peer's own definitions there, or
  ask only that it leaves the program's segments in order.  A run has as many turns as there are ticks; a signal is the end of that list.

  \<^bold>\<open>What is shown.\<close>  Addresses stay inside the segment, also for a header written by somebody else; rings lose, reorder and
  corrupt nothing, sequentially and interleaved; frames arrive whole, byte for byte, and are accounted for; the invariant of
  the publisher survives every sequence of calls that keeps the caller's duties (\<open>op_ok\<close>); a live publisher or owner is not displaced and a dead one is; subscribers follow a restart and
  see a shutdown; payload formats round-trip; the demo programs serve their peers as small abstract
  servers do, without a store outside their canvases; a window gets a view, its events reach it, and
  it shows exactly what was drawn, marks and new sizes included, and, next to processes that keep the frames whole, never reads past its buffer;
  the bitmap the minimal example writes holds the picture it drew.  The programs get from their command line to their
  exit through any number of turns, at their rate, and leave no name behind.  Some theorems show what the code gets wrong: a cancelled write over the
  latest frame, sizes that wrap, a claim that is stolen from a live owner, a reply that goes to the
  wrong requester or, with a full reply ring, to nobody, a torn picture in the window, a live producer displaced, where names can be
  unlinked, because its control channel's heartbeat is never refreshed.

  \<^bold>\<open>Fuel and bounds.\<close>  Loops that receive commands are bounded by a fuel, because a peer may keep sending, and so are the consumer's retries, which end by the clock; the theorems ask for more
  fuel than commands are queued, and 64, the capacity of a ring, is always enough.  The claim loop recurses over the finite
  contention it meets, the read loop makes four attempts as in the code.  Frame ids are assumed below 2 to the 62 where
  they are packed into \<open>latest\<close>.  Coordinates of the window are rationals; their conversion to \<open>int\<close> is exact where
  C++ defines it and \<open>undefined\<close> elsewhere.

  \<^bold>\<open>Not modelled.\<close>  Memory is sequentially consistent: the acquire and release annotations of the atomics are not
  interpreted, their ordering is taken for granted.  Some console output is left out (the lines of the sender's command loop and of the producer's slots; elsewhere lines are
  events), as are sleeping for a fixed time and signals; sleeping until a time is the schedule of \<open>Runtime\<close>.  Left out are also the calls to GLFW and OpenGL in \<open>multiview_consumer.cpp\<close> (the window, the texture
  object, the textured quad), the tests, which are clients of the library, and the build files.
\<close>

section \<open>Frames from end to end\<close>

text \<open>
  C1.  Frame round trip.  A published frame that fits, read by an attached subscriber that is not
  throttled: the read returns \<open>Ok\<close>, the rows of the published image byte for byte, and the
  geometry, timestamp and frame id the publisher gave it, for packed and for strided sources.
\<close>

theorem frame_roundtrip:
  assumes "pub_at b p hp" and "p_pending p = None" and "publish_due clk p" and "fits (p_cfg p) width height"
    and "st = (if src_stride = 0 then width * cfg_bytes_per_pixel (p_cfg p) else src_stride)"
    and "(unat height - 1) * unat st + unat width * unat (cfg_bytes_per_pixel (p_cfg p)) \<le> length src"
    and "attached (p_cfg p) b s" and "u_last_frame s \<noteq> p_frame_id p + 1" and "unat (p_frame_id p) + 1 < 2 ^ 62"
    and "pclk 0 - u_last_progress s < u_stale_ns s" and "read_due rclk s"
    and "unat (max_payload (p_cfg p)) \<le> length dst" and "length dst < 2 ^ 64"
  shows "\<exists>p' hp' s' hp'' dst'. publish (Some src) width height src_stride clk p hp = (True, p', hp') \<and>
    read_latest ops evs pclk rclk calm dst s k hp' =
      ((Read_Ok, dst', Some (published_info (p_cfg p) (p_frame_id p + 1) (clk 1) width height)), s', k, hp'') \<and>
    take (unat width * unat height * unat (cfg_bytes_per_pixel (p_cfg p))) dst' =
      image_rows src (unat width * unat (cfg_bytes_per_pixel (p_cfg p))) (unat st) (unat height) \<and>
    u_last_frame s' = p_frame_id p + 1 \<and> u_received s' = u_received s + 1"
  using assms by (rule frame_crosses)

theorem frame_roundtrip_witness:
  "\<exists>p' hp' s' hp'' dst'. publish (Some [1, 2, 3, 4]) 2 1 0 (\<lambda>_. 2000) demo_pub demo_claimed = (True, p', hp') \<and>
    read_latest posix_ops [] (\<lambda>_. 100) (\<lambda>_. 101) calm [0, 0, 0, 0, 0] demo_peer posix_empty hp' =
      ((Read_Ok, dst', Some demo_info), s', posix_empty, hp'') \<and> take 4 dst' = [1, 2, 3, 4]"
  using frame_roundtrip[OF demo_claimed_at, of "\<lambda>_. 2000" 2 1 4 0 "[1, 2, 3, 4]" demo_peer "\<lambda>_. 100" "\<lambda>_. 101"
      "[0, 0, 0, 0, 0]" posix_ops "[]" posix_empty] demo_peer_attached
  by (auto simp: publish_due_def fits_def demo_peer_def read_due_def published_info_def frame_bytes_def
      image_rows_tight demo_info_def)

section \<open>Commands from end to end\<close>

text \<open>
  C8.  Downstream commands.  A command the publisher's \<open>send\<close> accepts is appended to the queue with
  the id the call returned; the owner's next \<open>receive\<close> takes the oldest command of that queue,
  unchanged, and leaves the rest and the other direction as they were.
\<close>

theorem downstream_roundtrip:
  assumes "pub_at b p hp" and "attached (p_cfg p) b s" and "owner_ok s (hp b)"
    and "length (send_data data sz) = unat sz" and "sz \<le> cfg_max_command_bytes (p_cfg p)"
    and "length (ring_queue (p_cfg p) Downstream (hp b)) < unat (cfg_command_slots (p_cfg p))"
    and "x = mk_command ty (send_data data sz) (p_next_cmd p) reply_to (clk 0)"
  shows "\<exists>p' hp' s' hp''. pub_send ty data sz reply_to clk p hp = (Some (p_next_cmd p), p', hp') \<and>
    sub_receive rclk s hp' = (Some (hd (ring_queue (p_cfg p) Downstream (hp b) @ [x])), s', hp'') \<and>
    ring_queue (p_cfg p) Downstream (hp'' b) = tl (ring_queue (p_cfg p) Downstream (hp b) @ [x]) \<and>
    ring_queue (p_cfg p) Upstream (hp'' b) = ring_queue (p_cfg p) Upstream (hp b)"
  using assms by (rule command_downstream)

theorem downstream_roundtrip_witness:
  "\<exists>p' hp' s' hp''. pub_send 7 (Some [1, 2, 3]) 3 0 (\<lambda>_. 50) demo_pub demo_claimed = (Some 1, p', hp') \<and>
    sub_receive (\<lambda>_. 60) demo_peer hp' = (Some (mk_command 7 [1, 2, 3] 1 0 50), s', hp'')"
  using downstream_roundtrip[OF demo_claimed_at _ demo_peer_owner, of "Some [1, 2, 3]" 3 _ 7 0 "\<lambda>_. 50" "\<lambda>_. 60"]
    demo_peer_attached
  by (auto simp: send_data_def word_le_unat)

text \<open>Upstream commands: the same for the owner's \<open>send\<close> and the publisher's \<open>receive\<close>.\<close>

theorem upstream_roundtrip:
  assumes "pub_at b p hp" and "attached (p_cfg p) b s" and "owner_ok s (hp b)"
    and "length (send_data data sz) = unat sz" and "sz \<le> cfg_max_command_bytes (p_cfg p)"
    and "length (ring_queue (p_cfg p) Upstream (hp b)) < unat (cfg_command_slots (p_cfg p))"
    and "x = mk_command ty (send_data data sz) (u_next_cmd s) reply_to (clk 1)"
  shows "\<exists>s' hp' p' hp''. sub_send ty data sz reply_to clk s hp = (Some (u_next_cmd s), s', hp') \<and>
    pub_receive p hp' = (Some (hd (ring_queue (p_cfg p) Upstream (hp b) @ [x])), p', hp'') \<and>
    ring_queue (p_cfg p) Upstream (hp'' b) = tl (ring_queue (p_cfg p) Upstream (hp b) @ [x]) \<and>
    ring_queue (p_cfg p) Downstream (hp'' b) = ring_queue (p_cfg p) Downstream (hp b)"
  using assms by (rule command_upstream)

theorem upstream_roundtrip_witness:
  "\<exists>s' hp' p' hp''. sub_send 7 (Some [1, 2, 3]) 3 0 (\<lambda>_. 50) demo_peer demo_claimed = (Some 1, s', hp') \<and>
    pub_receive demo_pub hp' = (Some (mk_command 7 [1, 2, 3] 1 0 50), p', hp'')"
  using upstream_roundtrip[OF demo_claimed_at _ demo_peer_owner, of "Some [1, 2, 3]" 3 _ 7 0 "\<lambda>_. 50"]
    demo_peer_attached
  by (auto simp: send_data_def word_le_unat demo_peer_def)

section \<open>Creating, replacing and following a publisher\<close>

text \<open>
  C12.  A live publisher is never displaced: while the incumbent's header is valid, not marked as
  shut down and younger than \<open>stale_producer_ms\<close>, a second \<open>create\<close> on the name fails with
  \<open>AlreadyExists\<close> and changes neither memory nor name space.
\<close>

theorem live_publisher_kept:
  assumes "segment_store ok bound alloc pf ops"
    and "ok k" and "bound k (cfg_name cfg) = Some (b, sz)"
    and "config_valid cfg" and "L_total_size (compute_layout cfg) \<le> kMaxSegment"
    and "validate_header (Some b) sz hp = Some L'" and "h_shutdown (m_hdr (hp b)) = 0"
    and "clk 0 - h_last_heartbeat_ns (m_hdr (hp b)) < ucast (cfg_stale_producer_ms cfg) * 1000000"
  shows "\<exists>k'. publisher_create pf ops cfg clk wall k hp = ((None, AlreadyExists), k', hp) \<and> ok k' \<and>
    bound k' = bound k \<and> alloc k' = alloc k"
  using assms by (rule segment_store.create_live)

theorem live_publisher_kept_witness:
  "\<exists>p k hp k'. publisher_create Posix posix_ops demo_config (\<lambda>_. 5) 9 posix_empty (\<lambda>_. smem_zero) =
      ((Some p, LLStatus_Ok), k, hp) \<and>
    publisher_create Posix posix_ops demo_config (\<lambda>_. 1000000005) 10 k hp = ((None, AlreadyExists), k', hp) \<and>
    posix_bound k' = posix_bound k"
proof -
  obtain p k hp where f:
    "publisher_create Posix posix_ops demo_config (\<lambda>_. 5) 9 posix_empty (\<lambda>_. smem_zero) = ((Some p, LLStatus_Ok), k, hp)"
    "posix_ok k" "posix_bound k ''demo'' = Some (1, L_total_size (compute_layout demo_config))"
    "hp 1 = init_segment demo_config (make_session_id 9 5) 5 smem_zero" by (rule posix_first)
  have v: "validate_header (Some 1) (L_total_size (compute_layout demo_config)) hp = Some (compute_layout demo_config)"
    using f(4) by (intro validate_init_segment[OF demo_config_valid order_refl])
  show ?thesis
    using live_publisher_kept[OF posix.segment_store_axioms f(2) _ demo_config_valid demo_total v,
        of "\<lambda>_. 1000000005" 10] f by (auto simp: f(4))
qed

text \<open>
  C13.  Recovery after a crash or a clean exit, where names can be unlinked (POSIX): an incumbent that
  does not parse, said goodbye or has been silent for \<open>stale_producer_ms\<close> is replaced.  The new publisher
  gets a fresh object under the name, well formed and empty; the old object, which a subscriber
  may still have mapped, is not touched.
\<close>

theorem abandoned_publisher_replaced:
  assumes "unlinking_store ok bound alloc pf ops"
    and "ok k" and "bound k (cfg_name cfg) = Some (b, sz)"
    and "config_valid cfg" and "L_total_size (compute_layout cfg) \<le> kMaxSegment"
    and "abandoned cfg (clk 0) b sz hp"
  shows "\<exists>p b' k' hp'. publisher_create pf ops cfg clk wall k hp = ((Some p, LLStatus_Ok), k', hp') \<and>
    pub_at b' p hp' \<and> p_cfg p = cfg \<and> b' \<noteq> b \<and> hp' b = hp b \<and>
    (\<forall>d. ring_queue cfg d (hp' b') = []) \<and> h_latest (m_hdr (hp' b')) = 0 \<and>
    bound k' = (bound k)(cfg_name cfg \<mapsto> (b', L_total_size (compute_layout cfg)))"
proof -
  obtain seg b' k' where "publisher_create pf ops cfg clk wall k hp =
      ((Some (new_publisher cfg seg b'), LLStatus_Ok), k',
       hp(b' := init_segment cfg (make_session_id wall (clk 1)) (clk 2) (hp b')))"
    and "bound k' = (bound k)(cfg_name cfg \<mapsto> (b', L_total_size (compute_layout cfg)))" "b' \<noteq> b"
    using unlinking_store.create_reclaims[where clk = clk and hp = hp and wall = wall, OF assms] by metis
  moreover have "p_cfg (new_publisher cfg seg b') = cfg" by (simp add: new_publisher_def)
  ultimately show ?thesis
    using new_publisher_at[OF assms(4,5), of b' seg hp] seg_inv_init(2)[OF assms(4,5)] by auto
qed

theorem abandoned_publisher_replaced_witness:
  "\<exists>p k hp p2 k2 hp2. publisher_create Posix posix_ops demo_config (\<lambda>_. 5) 9 posix_empty (\<lambda>_. smem_zero) =
      ((Some p, LLStatus_Ok), k, hp) \<and>
    publisher_create Posix posix_ops demo_config (\<lambda>_. 2000000005) 10 k hp = ((Some p2, LLStatus_Ok), k2, hp2) \<and>
    hp2 1 = hp 1"
proof -
  obtain p k hp where f:
    "publisher_create Posix posix_ops demo_config (\<lambda>_. 5) 9 posix_empty (\<lambda>_. smem_zero) = ((Some p, LLStatus_Ok), k, hp)"
    "posix_ok k" "posix_bound k ''demo'' = Some (1, L_total_size (compute_layout demo_config))"
    "hp 1 = init_segment demo_config (make_session_id 9 5) 5 smem_zero" by (rule posix_first)
  have "abandoned demo_config 2000000005 1 (L_total_size (compute_layout demo_config)) hp"
    using f(4) by (simp add: abandoned_def)
  then show ?thesis
    using abandoned_publisher_replaced[OF posix.unlinking_store_axioms f(2) _ demo_config_valid demo_total,
        of 1 "L_total_size (compute_layout demo_config)" "\<lambda>_. 2000000005" hp 10] f(1,3) by fastforce
qed

text \<open>
  Where a name lives as long as any mapping of it (Windows), a name that is still mapped is
  refused with \<open>AlreadyExists\<close>, however long its publisher has been gone.
\<close>

theorem pinned_name_refused:
  assumes "pinned_store ok bound alloc pf ops"
    and "ok k" and "bound k (cfg_name cfg) = Some (b, sz)"
    and "config_valid cfg" and "L_total_size (compute_layout cfg) \<le> kMaxSegment"
  shows "\<exists>k'. publisher_create pf ops cfg clk wall k hp = ((None, AlreadyExists), k', hp) \<and> ok k' \<and>
    bound k' = bound k"
  using assms by (rule pinned_store.create_refused)

theorem pinned_name_refused_witness:
  "\<exists>p k hp k'. publisher_create Windows windows_ops demo_config (\<lambda>_. 5) 9 windows_empty (\<lambda>_. smem_zero) =
      ((Some p, LLStatus_Ok), k, hp) \<and>
    publisher_create Windows windows_ops demo_config (\<lambda>_. 9000000000) 10 k hp = ((None, AlreadyExists), k', hp)"
proof -
  have e: "windows_ok windows_empty" "windows_bound windows_empty ''demo'' = None"
    by (simp_all add: windows_ok_def windows_empty_def windows_bound_def)
  obtain seg b k hp where c: "publisher_create Windows windows_ops demo_config (\<lambda>_. 5) 9 windows_empty (\<lambda>_. smem_zero) =
      ((Some (new_publisher demo_config seg b), LLStatus_Ok), k, hp)"
    "windows_ok k" "windows_bound k ''demo'' = Some (b, L_total_size (compute_layout demo_config))"
    using windows.create_fresh[OF e(1) _ demo_config_valid demo_total, of "\<lambda>_. 5" 9 "\<lambda>_. smem_zero"] e(2) by fastforce
  then show ?thesis
    using pinned_name_refused[OF windows.pinned_store_axioms c(2) _ demo_config_valid demo_total,
        of b "L_total_size (compute_layout demo_config)" "\<lambda>_. 9000000000" 10 hp] by auto
qed

text \<open>
  C11.  Following a restart.  A subscriber without progress for its stale time, whose old producer's
  heartbeat is stale too, adopts at its next \<open>poll\<close> the new session under its name: it is attached to the new
  segment with that segment's geometry, counts the session, starts over with frame and command
  numbers, and owns the command channel if nobody claimed it.
\<close>

theorem restart_followed:
  assumes "segment_store ok bound alloc pf ops"
    and "ok k" and "bound k (u_name s) = Some (b2, sz)" and "config_valid c2"
    and "hdr_describes c2 (m_hdr (hp b2))" and "L_total_size (compute_layout c2) \<le> sz"
    and "attached c1 b1 s" and "b1 \<noteq> b2" and "h_session_id (m_hdr (hp b2)) \<noteq> u_session s"
    and "u_stale_ns s \<le> clk 0 - u_last_progress s"
    and "u_stale_ns s \<le> clk 2 - h_last_heartbeat_ns (m_hdr (hp b1))"
    and "u_retry_ns s \<le> clk 0 - u_last_attempt s"
    and "clk 3 - h_last_heartbeat_ns (m_hdr (hp b2)) < u_stale_ns s"
  shows "\<exists>s' k' hp'. poll ops evs clk s k hp = (True, s', k', hp') \<and> attached c2 b2 s' \<and>
    u_session s' = h_session_id (m_hdr (hp b2)) \<and> u_sessions s' = u_sessions s + 1 \<and> u_last_frame s' = 0 \<and>
    u_next_cmd s' = 1 \<and> (h_command_owner_gen (m_hdr (hp b2)) = 0 \<and> evs = [] \<longrightarrow> owner_ok s' (hp' b2))"
  using assms by (rule segment_store.poll_reattaches)

theorem restart_followed_witness:
  "\<exists>k hp s' k' hp'. posix_bound k ''demo'' = Some (3, L_total_size (compute_layout demo_config)) \<and>
    poll posix_ops [] (\<lambda>_. 900000001) demo_peer k hp = (True, s', k', hp') \<and> attached demo_config 3 s' \<and>
    u_session s' = 8 \<and> owner_ok s' (hp' 3)"
proof -
  let ?total = "L_total_size (compute_layout demo_config)"
  define k where "k = posix_empty\<lparr>pk_names := [''demo'' \<mapsto> 3], pk_size := (\<lambda>_. ?total), pk_next := 4\<rparr>"
  define hp where "hp = demo_claimed(3 := init_segment demo_config 8 900000000 smem_zero)"
  have k: "posix_ok k" "posix_bound k ''demo'' = Some (3, ?total)"
    using total_nonzero[OF demo_config_valid] by (simp_all add: k_def posix_ok_def posix_bound_def)
  have h: "hdr_describes demo_config (m_hdr (hp 3))" "m_hdr (hp 3) = m_hdr (init_segment demo_config 8 900000000 smem_zero)"
    "h_last_heartbeat_ns (m_hdr (hp 2)) = 1000"
    by (simp_all add: hp_def hdr_describes_init demo_claimed_def take_claim_def demo_heap_def)
  have p: "u_name demo_peer = ''demo''" "u_session demo_peer = 7" "u_last_attempt demo_peer = 0" "u_retry_ns demo_peer = 250000000"
    "u_stale_ns demo_peer = 500000000" "u_last_progress demo_peer = 0"
    by (simp_all add: demo_peer_def demo_sub_def adopted_def LLSubscriber_new_def demo_heap_def)
  have "\<exists>s' k' hp'. poll posix_ops [] (\<lambda>_. 900000001) demo_peer k hp = (True, s', k', hp') \<and> attached demo_config 3 s' \<and>
      u_session s' = h_session_id (m_hdr (hp 3)) \<and> u_sessions s' = u_sessions demo_peer + 1 \<and> u_last_frame s' = 0 \<and>
      u_next_cmd s' = 1 \<and> (h_command_owner_gen (m_hdr (hp 3)) = 0 \<and> ([] :: contention list) = [] \<longrightarrow> owner_ok s' (hp' 3))"
    by (rule restart_followed[where sz = ?total, OF posix.segment_store_axioms k(1) _ demo_config_valid _ _ demo_peer_attached])
      (simp_all add: p k h hdr_describes_init)
  then show ?thesis using k(2) h(2) by fastforce
qed

text \<open>
  A clean goodbye is seen.  After the publisher's destructor has run, a subscriber that has
  nothing left to read gets \<open>Disconnected\<close> from its next read, and remembers that the producer shut down.
\<close>

theorem shutdown_seen:
  assumes "pub_at b p hp" and "attached (p_cfg p) b s" and "publisher_destroy pf ops p k hp = (k', hp')"
    and "pclk 0 - u_last_progress s < u_stale_ns s" and "read_due rclk s"
    and "h_latest (m_hdr (hp b)) = 0 \<or> drop_bit 2 (h_latest (m_hdr (hp b))) = u_last_frame s"
  shows "\<exists>s' hp''. read_latest ops evs pclk rclk calm dst s k' hp' = ((Disconnected, dst, None), s', k', hp'') \<and>
    u_peer_shutdown s'"
proof -
  have h: "h_shutdown (m_hdr (hp' b)) = 1" "h_latest (m_hdr (hp' b)) = h_latest (m_hdr (hp b))"
    using assms(3) pub_atD(4)[OF assms(1)] by (auto simp: publisher_destroy_def)
  obtain m1 hp1 where po: "polled b (pclk 1) s hp' = (m1, hp1)" by force
  have l: "drop_bit 2 (h_latest (m_hdr (hp' b))) = u_last_frame s \<or> h_latest (m_hdr (hp' b)) = 0"
    using assms(6) h(2) by auto
  show ?thesis
    using read_again[where pclk = pclk and rclk = rclk and hp = hp', OF assms(2,4,5) l po, of ops evs dst k'] h(1) by simp
qed

theorem shutdown_seen_witness:
  "\<exists>k' hp' s' hp''. publisher_destroy Posix posix_ops demo_pub posix_empty demo_claimed = (k', hp') \<and>
    read_latest posix_ops [] (\<lambda>_. 100) (\<lambda>_. 101) calm [0] demo_peer k' hp' = ((Disconnected, [0], None), s', k', hp'') \<and>
    u_peer_shutdown s'"
proof -
  obtain k' hp' where d: "publisher_destroy Posix posix_ops demo_pub posix_empty demo_claimed = (k', hp')" by force
  have l: "h_latest (m_hdr (demo_claimed 2)) = 0" by (simp add: demo_claimed_def take_claim_def demo_heap_def)
  show ?thesis
    using shutdown_seen[where pclk = "\<lambda>_. 100" and rclk = "\<lambda>_. 101" and s = demo_peer and dst = "[0]" and evs = "[]",
        OF demo_claimed_at _ d] demo_peer_attached l d
    by (auto simp: read_due_def demo_peer_def)
qed

section \<open>Who owns the command channel\<close>

text \<open>
  C14.  An owner that keeps its heartbeat fresh keeps the channel: a subscriber that attaches in the
  meantime gets the frames but not the commands, and writes nothing to the segment.
\<close>

theorem fresh_owner_respected:
  assumes "segment_store ok bound alloc pf ops"
    and "ok k" and "bound k (u_name s) = Some (b, sz)" and "config_valid c"
    and "hdr_describes c (m_hdr (hp b))" and "L_total_size (compute_layout c) \<le> sz" and "u_hdr s = None"
    and "h_command_owner_gen (m_hdr (hp b)) \<noteq> 0"
    and "clk 0 - h_command_owner_heartbeat_ns (m_hdr (hp b)) < kCommandOwnerStaleNs"
  shows "\<exists>s' k'. try_connect ops [] clk s k hp = (True, s', k', hp) \<and> attached c b s' \<and> \<not> u_owns_commands s'"
proof -
  let ?h = "m_hdr (hp b)"
  have cl: "claim_loop [] 0 clk (h_command_owner_gen ?h) ?h = (None, ?h)"
    using claim_loop_calm[of 0 clk ?h] assms(8,9) by simp
  have "\<exists>seg k' k1. try_connect ops [] clk s k hp = (True, adopted c b seg ?h None s, k', upd_hdr b (\<lambda>_. ?h) hp) \<and>
      sg_region seg = (Some b, sz) \<and> k' = LLSegment_destroy ops (u_seg s) k1 \<and> ok k1 \<and> bound k1 = bound k \<and> alloc k1 = alloc k"
    using assms(2-7) cl by (intro segment_store.attach[OF assms(1)]) auto
  moreover have "upd_hdr b (\<lambda>_. ?h) hp = hp" by (simp add: upd_hdr_def)
  ultimately obtain seg k' where "try_connect ops [] clk s k hp = (True, adopted c b seg ?h None s, k', hp)" by auto
  moreover have "attached c b (adopted c b seg ?h None s)" by (rule adopted_attached[OF assms(5)])
  moreover have "\<not> u_owns_commands (adopted c b seg ?h None s)" by (simp add: adopted_def)
  ultimately show ?thesis by blast
qed

theorem fresh_owner_respected_witness:
  "\<exists>k s' k'. posix_bound k ''demo'' = Some (2, L_total_size (compute_layout demo_config)) \<and>
    try_connect posix_ops [] (\<lambda>_. 7999999999) (LLSubscriber_new\<lparr>u_name := ''demo''\<rparr>) k demo_claimed =
      (True, s', k', demo_claimed) \<and> \<not> u_owns_commands s'"
proof -
  let ?total = "L_total_size (compute_layout demo_config)"
  define k where "k = posix_empty\<lparr>pk_names := [''demo'' \<mapsto> 2], pk_size := (\<lambda>_. ?total), pk_next := 4\<rparr>"
  have k: "posix_ok k" "posix_bound k ''demo'' = Some (2, ?total)"
    using total_nonzero[OF demo_config_valid] by (simp_all add: k_def posix_ok_def posix_bound_def)
  have "\<exists>s' k'. try_connect posix_ops [] (\<lambda>_. 7999999999) (LLSubscriber_new\<lparr>u_name := ''demo''\<rparr>) k demo_claimed =
      (True, s', k', demo_claimed) \<and> attached demo_config 2 s' \<and> \<not> u_owns_commands s'"
    by (rule fresh_owner_respected[where sz = ?total, OF posix.segment_store_axioms k(1) _ demo_config_valid])
      (simp_all add: k LLSubscriber_new_def demo_claimed_def take_claim_def demo_heap_def hdr_describes_init k_defs)
  with k(2) show ?thesis by blast
qed

text \<open>
  C15.  An owner that has been silent for eight seconds loses the channel to the next subscriber that
  attaches: the newcomer owns it from then on, and the old owner can neither
  send nor receive, and does not take the channel back by its destructor.
\<close>

theorem silent_owner_replaced:
  assumes "segment_store ok bound alloc pf ops"
    and "ok k" and "bound k (u_name s) = Some (b, sz)" and "config_valid c"
    and "hdr_describes c (m_hdr (hp b))" and "L_total_size (compute_layout c) \<le> sz" and "u_hdr s = None"
    and "attached c b old" and "kCommandOwnerStaleNs \<le> clk 0 - h_command_owner_heartbeat_ns (m_hdr (hp b))"
    and "clk 1 \<noteq> 0" and "clk 1 \<noteq> u_owner_gen old"
  shows "\<exists>s' k' hp'. try_connect ops [] clk s k hp = (True, s', k', hp') \<and> attached c b s' \<and> owner_ok s' (hp' b) \<and>
    sub_send ty data n reply_to clk' old hp' = (None, old\<lparr>u_owns_commands := False\<rparr>, hp') \<and>
    sub_receive clk' old hp' = (None, old\<lparr>u_owns_commands := False\<rparr>, hp') \<and>
    snd (subscriber_destroy ops old k'' hp') = hp'"
proof -
  let ?h = "m_hdr (hp b)" and ?h' = "take_claim (clk 1) (clk 2) (m_hdr (hp b))"
  have cl: "claim_loop [] 0 clk (h_command_owner_gen ?h) ?h = (Some (clk 1), ?h')"
    using claim_loop_calm[of 0 clk ?h] assms(9,10) by (simp add: not_less[symmetric] Let_def numeral_2_eq_2)
  have "\<exists>seg k' k1. try_connect ops [] clk s k hp = (True, adopted c b seg ?h (Some (clk 1)) s, k', upd_hdr b (\<lambda>_. ?h') hp) \<and>
      sg_region seg = (Some b, sz) \<and> k' = LLSegment_destroy ops (u_seg s) k1 \<and> ok k1 \<and> bound k1 = bound k \<and> alloc k1 = alloc k"
    using assms(2-7) cl by (intro segment_store.attach[OF assms(1)]) auto
  then obtain seg k' hp' where t: "try_connect ops [] clk s k hp = (True, adopted c b seg ?h (Some (clk 1)) s, k', hp')"
    and hp': "hp' = upd_hdr b (\<lambda>_. ?h') hp" by blast
  have g: "h_command_owner_gen (m_hdr (hp' b)) = clk 1" by (simp add: hp' take_claim_def)
  have "attached c b (adopted c b seg ?h (Some (clk 1)) s)" by (rule adopted_attached[OF assms(5)])
  moreover have "owner_ok (adopted c b seg ?h (Some (clk 1)) s) (hp' b)" by (simp add: owner_ok_def adopted_def g)
  moreover have "sub_send ty data n reply_to clk' old hp' = (None, old\<lparr>u_owns_commands := False\<rparr>, hp') \<and>
      sub_receive clk' old hp' = (None, old\<lparr>u_owns_commands := False\<rparr>, hp') \<and>
      snd (subscriber_destroy ops old k'' hp') = hp'"
    using g assms(11) by (intro locked_out[OF assms(8)]) simp
  ultimately show ?thesis using t by blast
qed

theorem silent_owner_replaced_witness:
  "\<exists>k s' k' hp'. try_connect posix_ops [] (\<lambda>_. 8000000000) (LLSubscriber_new\<lparr>u_name := ''demo''\<rparr>) k demo_claimed =
      (True, s', k', hp') \<and> owner_ok s' (hp' 2) \<and> fst (sub_send 1 None 0 0 (\<lambda>_. 8000000001) demo_peer hp') = None"
proof -
  let ?total = "L_total_size (compute_layout demo_config)"
  define k where "k = posix_empty\<lparr>pk_names := [''demo'' \<mapsto> 2], pk_size := (\<lambda>_. ?total), pk_next := 4\<rparr>"
  have k: "posix_ok k" "posix_bound k ''demo'' = Some (2, ?total)"
    using total_nonzero[OF demo_config_valid] by (simp_all add: k_def posix_ok_def posix_bound_def)
  have g: "u_owner_gen demo_peer = 5" by (simp add: demo_peer_def)
  have "\<exists>s' k' hp'. try_connect posix_ops [] (\<lambda>_. 8000000000) (LLSubscriber_new\<lparr>u_name := ''demo''\<rparr>) k demo_claimed =
      (True, s', k', hp') \<and> attached demo_config 2 s' \<and> owner_ok s' (hp' 2) \<and>
      sub_send 1 None 0 0 (\<lambda>_. 8000000001) demo_peer hp' = (None, demo_peer\<lparr>u_owns_commands := False\<rparr>, hp') \<and>
      sub_receive (\<lambda>_. 8000000001) demo_peer hp' = (None, demo_peer\<lparr>u_owns_commands := False\<rparr>, hp') \<and>
      snd (subscriber_destroy posix_ops demo_peer k hp') = hp'"
    by (rule silent_owner_replaced[where sz = ?total, OF posix.segment_store_axioms k(1) _ demo_config_valid _ _ _ demo_peer_attached])
      (simp_all add: k g LLSubscriber_new_def demo_claimed_def take_claim_def demo_heap_def hdr_describes_init k_defs)
  then show ?thesis by fastforce
qed

end
